(* ===== verification/Prelude.thy ===== *)
theory Prelude
  imports Main "HOL-Library.Word"
begin

text \<open>
  Shared vocabulary of the development: the machine types of the Rust sources, the part of
  Rust's standard library that the sources call on bytes and strings, and the generic lemmas
  on lists, maps and bytes that the component theories use.

  A Rust \<^verbatim>\<open>&str\<close> or \<^verbatim>\<open>String\<close> is the list of its UTF-8 bytes (\<open>rstr\<close>), so
  \<^verbatim>\<open>as_bytes\<close> is the identity and \<^verbatim>\<open>len\<close> is \<open>length\<close>; operations that look at
  characters go through \<open>str_chars\<close>, the list of the UTF-8 encoded characters. A computation
  that can panic returns an \<open>outcome\<close>. Arithmetic follows the release profile
  (\<^verbatim>\<open>Cargo.toml\<close> sets no \<^verbatim>\<open>overflow-checks\<close>), in which integers wrap around.
\<close>

unbundle bit_operations_syntax

named_theorems std_defs \<open>definitions of the modelled standard-library operations\<close>
named_theorems byte_facts \<open>facts about single bytes\<close>

type_synonym byte = "8 word"
type_synonym u64 = "64 word"
type_synonym rstr = "byte list"

text \<open>The result of a computation that may panic.\<close>

datatype 'a outcome = Ret 'a | Panic

fun bind_out :: "'a outcome \<Rightarrow> ('a \<Rightarrow> 'b outcome) \<Rightarrow> 'b outcome" where
  "bind_out (Ret x) f = f x"
| "bind_out Panic f = Panic"

lemma bind_out_eq_Ret: "bind_out m f = Ret y \<longleftrightarrow> (\<exists>x. m = Ret x \<and> f x = Ret y)"
  by (cases m) auto

lemma bind_out_eq_Panic: "bind_out m f = Panic \<longleftrightarrow> m = Panic \<or> (\<exists>x. m = Ret x \<and> f x = Panic)"
  by (cases m) auto

section \<open>Bytes\<close>

text \<open>
  Equality of bytes, bit by bit: with it, an identity between bit operations on bytes is
  proved by the simplifier on the eight bits.
\<close>

lemma byte_eq_iff: "a = b \<longleftrightarrow>
   bit a 0 = bit b 0 \<and> bit a 1 = bit b 1 \<and> bit a 2 = bit b 2 \<and> bit a 3 = bit b 3 \<and>
   bit a 4 = bit b 4 \<and> bit a 5 = bit b 5 \<and> bit a 6 = bit b 6 \<and> bit a 7 = bit b 7" for a b :: byte
proof -
  have nats: "n \<in> {0,1,2,3,4,5,6,7}" if "n < 8" for n :: nat
    using that by (simp add: less_Suc_eq numeral_eq_Suc)
  have "a = b" if "\<forall>n \<in> {0,1,2,3,4,5,6,7}. bit a n = bit b n"
  proof (rule bit_word_eqI)
    fix n assume "n < LENGTH(8)"
    then have "n \<in> {0,1,2,3,4,5,6,7}" by (intro nats) simp
    with that show "bit a n = bit b n" by (rule bspec)
  qed
  then have "a = b \<longleftrightarrow> (\<forall>n \<in> {0,1,2,3,4,5,6,7}. bit a n = bit b n)" by blast
  then show ?thesis by (simp only: ball_simps simp_thms)
qed

lemma byte_high_bit: "b < 0x80 \<longleftrightarrow> \<not> bit b 7" for b :: byte
proof -
  have "bit b 7 \<longleftrightarrow> bit (unat b) 7" by (simp add: bit_unsigned_iff)
  also have "\<dots> \<longleftrightarrow> odd (unat b div 128)" by (simp add: bit_iff_odd)
  also have "\<dots> \<longleftrightarrow> 128 \<le> unat b"
  proof (cases "128 \<le> unat b")
    case True
    have "unat b < 256" using unsigned_less [of b] by simp
    with True have "unat b div 128 = 1" by (simp add: div_nat_eqI)
    with True show ?thesis by simp
  qed simp
  finally show ?thesis by (simp add: word_less_nat_alt not_le)
qed

lemma bit_byte_8 [simp]: "\<not> bit (b::byte) 8"
  using bit_imp_le_length [of b 8] by auto


lemma unat_byte_bound [simp]: "unat (b::byte) < 256"
  using unsigned_less [of b] by simp

text \<open>The shifts \<^verbatim>\<open>c << 1\<close> and \<^verbatim>\<open>c >> 1\<close> on a byte.\<close>

definition shl1 :: "byte \<Rightarrow> byte" where
  [std_defs]: "shl1 c = push_bit 1 c"

definition shr1 :: "byte \<Rightarrow> byte" where
  [std_defs]: "shr1 c = drop_bit 1 c"

lemma unat_shr1: "unat (shr1 b) = unat b div 2"
  by (simp add: shr1_def unat_div drop_bit_eq_div)

lemma unat_shl1: "unat (shl1 b) = unat b * 2 mod 256"
  by (simp add: shl1_def unsigned_push_bit_eq take_bit_eq_mod unat_word_ariths)

lemma unat_and_0F: "unat (b AND 0x0F :: byte) = unat b mod 16"
proof -
  have "b AND 0x0F = take_bit 4 b"
    unfolding byte_eq_iff by (simp add: bit_simps)
  then have "unat (b AND 0x0F) = take_bit 4 (unat b)" by (simp only: unsigned_take_bit_eq)
  then show ?thesis by (simp only: take_bit_eq_mod) simp
qed

lemma bit_shifts:
  "bit (shl1 b) n \<longleftrightarrow> 1 \<le> n \<and> n < 8 \<and> bit b (n - 1)" "bit (shr1 b) n \<longleftrightarrow> bit b (n + 1)"
  by (auto simp: shl1_def shr1_def bit_simps add.commute simp del: push_bit_Suc One_nat_def)

lemma shift_round_trip [byte_facts]: "b < 0x80 \<Longrightarrow> shr1 (shl1 b) AND 0x7F = b"
  unfolding byte_high_bit byte_eq_iff by (simp add: bit_simps bit_shifts del: One_nat_def; simp)

lemma and_1E_shift [byte_facts]: "b AND 0x1E = shl1 (shr1 b AND 0x0F)"
  unfolding byte_eq_iff by (simp add: bit_simps bit_shifts del: One_nat_def; simp)

lemma shr1_and_7F [byte_facts]: "shr1 b AND 0x7F = shr1 b"
  unfolding byte_eq_iff by (simp add: bit_simps bit_shifts del: One_nat_def; simp)

lemma and_FE_eq_iff [byte_facts]: "a AND 0xFE = b AND 0xFE \<longleftrightarrow> shr1 a = shr1 b"
  unfolding byte_eq_iff by (simp add: bit_simps bit_shifts del: One_nat_def; simp)

definition ascii :: "string \<Rightarrow> rstr" where
  "ascii s = map of_char s"

definition to_ascii_uppercase :: "byte \<Rightarrow> byte" where
  "to_ascii_uppercase b = (if 0x61 \<le> b \<and> b \<le> 0x7A then b - 0x20 else b)"

definition to_ascii_lowercase :: "byte \<Rightarrow> byte" where
  "to_ascii_lowercase b = (if 0x41 \<le> b \<and> b \<le> 0x5A then b + 0x20 else b)"

definition is_ascii_digit :: "byte \<Rightarrow> bool" where
  "is_ascii_digit b \<longleftrightarrow> 0x30 \<le> b \<and> b \<le> 0x39"

definition is_ascii_uppercase :: "byte \<Rightarrow> bool" where
  "is_ascii_uppercase b \<longleftrightarrow> 0x41 \<le> b \<and> b \<le> 0x5A"

definition is_ascii_lowercase :: "byte \<Rightarrow> bool" where
  "is_ascii_lowercase b \<longleftrightarrow> 0x61 \<le> b \<and> b \<le> 0x7A"

definition is_ascii_alphanumeric :: "byte \<Rightarrow> bool" where
  "is_ascii_alphanumeric b \<longleftrightarrow> is_ascii_digit b \<or> is_ascii_uppercase b \<or> is_ascii_lowercase b"

lemmas ascii_class_defs = is_ascii_digit_def is_ascii_uppercase_def is_ascii_lowercase_def
  is_ascii_alphanumeric_def to_ascii_uppercase_def to_ascii_lowercase_def

declare ascii_class_defs [std_defs] and ascii_def [std_defs]

definition eq_ignore_ascii_case :: "rstr \<Rightarrow> rstr \<Rightarrow> bool" where
  [std_defs]: "eq_ignore_ascii_case a b \<longleftrightarrow>
     map to_ascii_lowercase a = map to_ascii_lowercase b"

definition str_to_uppercase :: "rstr \<Rightarrow> rstr" where
  [std_defs]: "str_to_uppercase s = map to_ascii_uppercase s"

lemma to_ascii_uppercase_idem [simp]:
  "to_ascii_uppercase (to_ascii_uppercase b) = to_ascii_uppercase b"
  unfolding to_ascii_uppercase_def by uint_arith

lemma to_ascii_uppercase_dash [simp]: "to_ascii_uppercase b = 0x2D \<longleftrightarrow> b = 0x2D"
  unfolding to_ascii_uppercase_def by uint_arith

lemma alphanumeric_uppercase [simp]:
  "is_ascii_alphanumeric (to_ascii_uppercase b) \<longleftrightarrow> is_ascii_alphanumeric b"
  unfolding ascii_class_defs by uint_arith

lemma lowercase_uppercase: "to_ascii_lowercase (to_ascii_uppercase b) = to_ascii_lowercase b"
  unfolding ascii_class_defs by uint_arith

lemma uppercase_lowercase: "to_ascii_uppercase (to_ascii_lowercase b) = to_ascii_uppercase b"
  unfolding ascii_class_defs by (uint_arith; simp)

lemma lowercase_eq_iff_uppercase_eq:
  "to_ascii_lowercase a = to_ascii_lowercase b \<longleftrightarrow> to_ascii_uppercase a = to_ascii_uppercase b"
  by (metis lowercase_uppercase uppercase_lowercase)

lemma eq_ignore_ascii_case_upper:
  "eq_ignore_ascii_case a b \<longleftrightarrow> str_to_uppercase a = str_to_uppercase b"
  unfolding eq_ignore_ascii_case_def str_to_uppercase_def
proof (induction a arbitrary: b)
  case Nil
  then show ?case by simp
next
  case (Cons x a)
  then show ?case by (cases b) (auto simp: lowercase_eq_iff_uppercase_eq)
qed

lemma eq_ignore_ascii_case_refl [simp]: "eq_ignore_ascii_case a a"
  by (simp add: eq_ignore_ascii_case_def)

lemma eq_ignore_ascii_case_sym: "eq_ignore_ascii_case a b \<Longrightarrow> eq_ignore_ascii_case b a"
  by (simp add: eq_ignore_ascii_case_def)

lemma eq_ignore_ascii_case_trans:
  "eq_ignore_ascii_case a b \<Longrightarrow> eq_ignore_ascii_case b c \<Longrightarrow> eq_ignore_ascii_case a c"
  by (simp add: eq_ignore_ascii_case_def)

section \<open>UTF-8 strings\<close>

definition is_cont_byte :: "byte \<Rightarrow> bool" where
  [std_defs]: "is_cont_byte b \<longleftrightarrow> 0x80 \<le> b \<and> b \<le> 0xBF"

text \<open>\<^verbatim>\<open>str::is_char_boundary\<close>, and the panicking slice \<^verbatim>\<open>&s[i..]\<close>.\<close>

definition is_char_boundary :: "rstr \<Rightarrow> nat \<Rightarrow> bool" where
  [std_defs]: "is_char_boundary s i \<longleftrightarrow>
     i = 0 \<or> i = length s \<or> (i < length s \<and> \<not> is_cont_byte (s ! i))"

definition str_from :: "rstr \<Rightarrow> nat \<Rightarrow> rstr outcome" where
  [std_defs]: "str_from s i = (if is_char_boundary s i then Ret (drop i s) else Panic)"

text \<open>\<^verbatim>\<open>CStr::to_str\<close> succeeds on well-formed UTF-8 only.\<close>

fun utf8_valid :: "byte list \<Rightarrow> bool" where
  "utf8_valid [] \<longleftrightarrow> True"
| "utf8_valid (b # bs) \<longleftrightarrow>
     (if b < 0x80 then utf8_valid bs
      else if 0xC2 \<le> b \<and> b \<le> 0xDF then
        (case bs of c # r \<Rightarrow> is_cont_byte c \<and> utf8_valid r | _ \<Rightarrow> False)
      else if 0xE0 \<le> b \<and> b \<le> 0xEF then
        (case bs of c # d # r \<Rightarrow>
           is_cont_byte c \<and> (b = 0xE0 \<longrightarrow> 0xA0 \<le> c) \<and> (b = 0xED \<longrightarrow> c \<le> 0x9F) \<and>
           is_cont_byte d \<and> utf8_valid r
         | _ \<Rightarrow> False)
      else if 0xF0 \<le> b \<and> b \<le> 0xF4 then
        (case bs of c # d # e # r \<Rightarrow>
           is_cont_byte c \<and> (b = 0xF0 \<longrightarrow> 0x90 \<le> c) \<and> (b = 0xF4 \<longrightarrow> c \<le> 0x8F) \<and>
           is_cont_byte d \<and> is_cont_byte e \<and> utf8_valid r
         | _ \<Rightarrow> False)
      else False)"

text \<open>The characters of a string, each as its UTF-8 bytes, by the width of the lead byte.\<close>

definition utf8_width :: "byte \<Rightarrow> nat" where
  [std_defs]: "utf8_width b = (if b < 0x80 then 1 else if b < 0xE0 then 2 else if b < 0xF0 then 3 else 4)"

fun str_chars :: "rstr \<Rightarrow> rstr list" where
  "str_chars [] = []"
| "str_chars (b # bs) =
     (b # take (utf8_width b - 1) bs) # str_chars (drop (utf8_width b - 1) bs)"

text \<open>The code point of one UTF-8 encoded character, as Rust's 32-bit \<^verbatim>\<open>char\<close>.\<close>

fun char_code :: "byte list \<Rightarrow> 32 word" where
  "char_code [b] = ucast b"
| "char_code [b, c] = push_bit 6 (ucast (b AND 0x1F)) OR ucast (c AND 0x3F)"
| "char_code [b, c, d] = push_bit 12 (ucast (b AND 0x0F)) OR push_bit 6 (ucast (c AND 0x3F))
     OR ucast (d AND 0x3F)"
| "char_code [b, c, d, e] = push_bit 18 (ucast (b AND 0x07)) OR push_bit 12 (ucast (c AND 0x3F))
     OR push_bit 6 (ucast (d AND 0x3F)) OR ucast (e AND 0x3F)"
| "char_code _ = 0"

definition ascii_only :: "rstr \<Rightarrow> bool" where
  "ascii_only s \<longleftrightarrow> (\<forall>b \<in> set s. b < 0x80)"

lemma concat_str_chars [simp]: "concat (str_chars s) = s"
  by (induction s rule: str_chars.induct) simp_all

lemma str_chars_ascii: "ascii_only s \<Longrightarrow> str_chars s = map (\<lambda>b. [b]) s"
  by (induction s) (simp_all add: ascii_only_def utf8_width_def)

lemma utf8_valid_ascii: "ascii_only s \<Longrightarrow> utf8_valid s"
  by (induction s) (simp_all add: ascii_only_def)

lemma cont_byte_not_ascii: "b < 0x80 \<Longrightarrow> \<not> is_cont_byte b"
  by (simp add: is_cont_byte_def not_le)

lemma str_from_ascii: "ascii_only s \<Longrightarrow> i \<le> length s \<Longrightarrow> str_from s i = Ret (drop i s)"
  by (auto simp: str_from_def is_char_boundary_def ascii_only_def cont_byte_not_ascii)

lemma utf8_valid_drop_ascii: "utf8_valid (xs @ ys) \<Longrightarrow> ascii_only xs \<Longrightarrow> utf8_valid ys"
  by (induction xs) (auto simp: ascii_only_def)

lemma cont_byte_bounds:
  assumes "is_cont_byte c"
  shows "\<not> c < 0x80" "\<not> 0xC2 \<le> c" "\<not> 0xE0 \<le> c" "\<not> 0xF0 \<le> c"
proof -
  have "c \<le> 0xBF" using assms by (simp add: is_cont_byte_def)
  then show "\<not> 0xC2 \<le> c" "\<not> 0xE0 \<le> c" "\<not> 0xF0 \<le> c"
    by (auto simp: not_le elim!: order.strict_trans1)
  show "\<not> c < 0x80" using assms by (simp add: is_cont_byte_def not_less)
qed

lemma utf8_valid_lead: "utf8_valid bs \<Longrightarrow> bs \<noteq> [] \<Longrightarrow> \<not> is_cont_byte (hd bs)"
proof
  assume v: "utf8_valid bs" and "bs \<noteq> []" and c: "is_cont_byte (hd bs)"
  then obtain b r where "bs = b # r" by (cases bs) auto
  with v cont_byte_bounds [OF c] show False by simp
qed

lemma utf8_valid_second_byte:
  assumes "utf8_valid (b # bs)"
  shows "(bs \<noteq> [] \<and> is_cont_byte (hd bs)) \<longleftrightarrow> 0x80 \<le> b"
proof (cases "b < 0x80")
  case True
  then have "utf8_valid bs" using assms by simp
  then have "\<not> (bs \<noteq> [] \<and> is_cont_byte (hd bs))" using utf8_valid_lead by blast
  with True show ?thesis by auto
next
  case False
  then show ?thesis using assms by (auto split: if_splits list.splits)
qed

lemma alphanumeric_ascii: "is_ascii_alphanumeric b \<Longrightarrow> b < 0x80"
  unfolding ascii_class_defs by (uint_arith; simp)

subsection \<open>Whitespace, lines and words\<close>

text \<open>Unicode \<^verbatim>\<open>White_Space\<close>, the property \<^verbatim>\<open>char::is_whitespace\<close> tests.\<close>

definition is_whitespace :: "rstr \<Rightarrow> bool" where
  [std_defs]: "is_whitespace c \<longleftrightarrow> (let u = char_code c in
     (0x09 \<le> u \<and> u \<le> 0x0D) \<or> u = 0x20 \<or> u = 0x85 \<or> u = 0xA0 \<or> u = 0x1680 \<or>
     (0x2000 \<le> u \<and> u \<le> 0x200A) \<or> u = 0x2028 \<or> u = 0x2029 \<or> u = 0x202F \<or> u = 0x205F \<or>
     u = 0x3000)"

definition trim_start :: "rstr \<Rightarrow> rstr" where
  [std_defs]: "trim_start s = concat (dropWhile is_whitespace (str_chars s))"

definition trim_end :: "rstr \<Rightarrow> rstr" where
  [std_defs]: "trim_end s = concat (rev (dropWhile is_whitespace (rev (str_chars s))))"

definition trim :: "rstr \<Rightarrow> rstr" where
  [std_defs]: "trim s = trim_end (trim_start s)"

definition trim_end_matches :: "byte \<Rightarrow> rstr \<Rightarrow> rstr" where
  [std_defs]: "trim_end_matches b s = rev (dropWhile (\<lambda>x. x = b) (rev s))"

definition strip_cr :: "rstr \<Rightarrow> rstr" where
  [std_defs]: "strip_cr s = (if s \<noteq> [] \<and> last s = 0x0D then butlast s else s)"

fun lines_from :: "rstr \<Rightarrow> rstr \<Rightarrow> rstr list" where
  "lines_from cur [] = (if cur = [] then [] else [cur])"
| "lines_from cur (b # bs) =
     (if b = 0x0A then strip_cr cur # lines_from [] bs else lines_from (cur @ [b]) bs)"

definition str_lines :: "rstr \<Rightarrow> rstr list" where
  [std_defs]: "str_lines s = lines_from [] s"

fun words_from :: "rstr \<Rightarrow> rstr list \<Rightarrow> rstr list" where
  "words_from cur [] = (if cur = [] then [] else [cur])"
| "words_from cur (c # cs) =
     (if is_whitespace c then (if cur = [] then words_from [] cs else cur # words_from [] cs)
      else words_from (cur @ c) cs)"

definition split_whitespace :: "rstr \<Rightarrow> rstr list" where
  [std_defs]: "split_whitespace s = words_from [] (str_chars s)"

text \<open>\<^verbatim>\<open>str::find\<close> of a substring, and \<^verbatim>\<open>str::split_once\<close> at an ASCII character.\<close>

fun find_sub :: "rstr \<Rightarrow> rstr \<Rightarrow> nat option" where
  "find_sub pat [] = (if pat = [] then Some 0 else None)"
| "find_sub pat (b # bs) =
     (if take (length pat) (b # bs) = pat then Some 0 else map_option Suc (find_sub pat bs))"

definition split_once :: "byte \<Rightarrow> rstr \<Rightarrow> (rstr \<times> rstr) option" where
  [std_defs]: "split_once d s =
     (if d \<in> set s then Some (takeWhile (\<lambda>b. b \<noteq> d) s, tl (dropWhile (\<lambda>b. b \<noteq> d) s)) else None)"

subsection \<open>Numbers\<close>

fun dec_digits :: "nat \<Rightarrow> rstr" where
  "dec_digits n = (if n < 10 then [word_of_nat (48 + n)]
     else dec_digits (n div 10) @ [word_of_nat (48 + n mod 10)])"

declare dec_digits.simps [simp del]

definition digits_value :: "rstr \<Rightarrow> nat" where
  [std_defs]: "digits_value ds = foldl (\<lambda>v b. v * 10 + (unat b - 48)) 0 ds"

text \<open>
  \<^verbatim>\<open>str::parse::<i32>\<close> and \<^verbatim>\<open>str::parse::<u8>\<close>: an optional sign, at least one digit,
  nothing else, and no value out of range. \<^verbatim>\<open>u8\<close> takes no minus sign.
\<close>

definition parse_i32 :: "rstr \<Rightarrow> int option" where
  [std_defs]: "parse_i32 s =
     (let neg = (s \<noteq> [] \<and> hd s = 0x2D);
          ds = (if s \<noteq> [] \<and> (hd s = 0x2D \<or> hd s = 0x2B) then tl s else s);
          v = (if neg then - int (digits_value ds) else int (digits_value ds))
      in if ds \<noteq> [] \<and> list_all is_ascii_digit ds \<and> - (2 ^ 31) \<le> v \<and> v < 2 ^ 31 then Some v
         else None)"

definition parse_u8 :: "rstr \<Rightarrow> byte option" where
  [std_defs]: "parse_u8 s =
     (let ds = (if s \<noteq> [] \<and> hd s = 0x2B then tl s else s)
      in if ds \<noteq> [] \<and> list_all is_ascii_digit ds \<and> digits_value ds < 256
         then Some (word_of_nat (digits_value ds)) else None)"

text \<open>\<^verbatim>\<open>CString::new\<close> fails on an interior NUL; the sources then use the empty string.\<close>

definition cstring_new :: "rstr \<Rightarrow> rstr option" where
  [std_defs]: "cstring_new s = (if 0 \<in> set s then None else Some s)"

definition unwrap_or :: "'a \<Rightarrow> 'a option \<Rightarrow> 'a" where
  [std_defs]: "unwrap_or d x = (case x of Some y \<Rightarrow> y | None \<Rightarrow> d)"

lemma unwrap_or_simps [simp]: "unwrap_or d (Some y) = y" "unwrap_or d None = d"
  by (simp_all add: unwrap_or_def)

section \<open>Lists\<close>

lemma take_takeWhile: "takeWhile P (take n xs) = take n (takeWhile P xs)"
proof (induction xs arbitrary: n)
  case (Cons x xs)
  then show ?case by (cases n) auto
qed simp

lemma map_nth_take:
  "k \<le> length xs \<Longrightarrow> map (\<lambda>n. f (xs ! n)) [0..<k] = map f (take k xs)"
  by (rule nth_equalityI) auto

text \<open>\<^verbatim>\<open>Iterator::position\<close>: the index of the first element that satisfies a predicate.\<close>

fun position :: "('a \<Rightarrow> bool) \<Rightarrow> 'a list \<Rightarrow> nat option" where
  "position P [] = None"
| "position P (x # xs) = (if P x then Some 0 else map_option Suc (position P xs))"

lemma position_Some_iff:
  "position P xs = Some i \<longleftrightarrow> i < length xs \<and> P (xs ! i) \<and> (\<forall>j<i. \<not> P (xs ! j))"
proof (induction xs arbitrary: i)
  case (Cons x xs)
  show ?case
  proof (cases i)
    case 0
    then show ?thesis by auto
  next
    case (Suc k)
    then show ?thesis using Cons by (auto simp: less_Suc_eq_0_disj)
  qed
qed simp

lemma position_None_iff: "position P xs = None \<longleftrightarrow> (\<forall>x \<in> set xs. \<not> P x)"
  by (induction xs) auto

lemma find_sub_Some:
  "find_sub pat s = Some i \<Longrightarrow> take (length pat) (drop i s) = pat \<and> i \<le> length s"
proof (induction pat s arbitrary: i rule: find_sub.induct)
  case (2 pat b bs)
  then show ?case by (auto split: if_splits)
qed (auto split: if_splits)

end
