(* ===== verification/Ax25_Addr.thy ===== *)
theory Ax25_Addr
  imports Prelude
begin

text \<open>
  \<^verbatim>\<open>crates/libax25/src/addr.rs\<close>: AX.25 callsigns and their 7-byte shifted encoding.
  The definitions follow the pure core (\<open>encode_entry\<close>, \<open>scan_int\<close>, \<open>decode_entry\<close>,
  \<open>cmp_entry\<close>, \<open>validate_entry\<close>) and the C wrappers over it. A C pointer is an option
  (\<^verbatim>\<open>NULL\<close> is \<open>None\<close>), a C string the bytes before its NUL, a written buffer is
  returned. \<^verbatim>\<open>c_char\<close> is one byte: the casts \<open>as_i8\<close> and \<open>as_u8\<close> keep the bits.
\<close>

unbundle bit_operations_syntax

section \<open>Definitions\<close>

definition AF_AX25 :: "16 word" where
  "AF_AX25 = 3"

definition AX25_MAX_DIGIS :: nat where
  "AX25_MAX_DIGIS = 8"

record ax25_address =
  ax25_call :: "byte list"

record sockaddr_ax25 =
  sax25_family :: "16 word"
  sax25_call :: ax25_address
  sax25_ndigis :: int

record full_sockaddr_ax25 =
  fsa_ax25 :: sockaddr_ax25
  fsa_digipeater :: "ax25_address list"

text \<open>The layout of \<^verbatim>\<open>repr(C)\<close>: 2 + 7 bytes, 3 of padding, a 4-byte count, 8 times 7 bytes.\<close>

definition size_of_sockaddr_ax25 :: nat where
  "size_of_sockaddr_ax25 = 16"

definition size_of_full_sockaddr_ax25 :: nat where
  "size_of_full_sockaddr_ax25 = size_of_sockaddr_ax25 + AX25_MAX_DIGIS * 7"

subsection \<open>The encoder\<close>

text \<open>The first loop of \<^verbatim>\<open>encode_entry\<close>: copy up to six upper-cased, shifted symbols.\<close>

function encode_chars :: "rstr \<Rightarrow> byte list \<Rightarrow> nat \<Rightarrow> nat \<Rightarrow> (byte list \<times> nat \<times> nat) option" where
  "encode_chars bytes buf ct idx =
     (if ct < 6 then
        if length bytes \<le> idx then Some (buf, ct, idx)
        else (let c = to_ascii_uppercase (bytes ! idx) in
          if c = 0x2D then Some (buf, ct, idx)
          else if \<not> is_ascii_alphanumeric c then None
          else encode_chars bytes (buf[ct := shl1 c]) (ct + 1) (idx + 1))
      else Some (buf, ct, idx))"
  by pat_completeness auto
termination
  by (relation "measure (\<lambda>(bytes, buf, ct, idx). 6 - ct)") auto

text \<open>The second loop: pad the callsign with shifted spaces.\<close>

function pad_call :: "byte list \<Rightarrow> nat \<Rightarrow> byte list" where
  "pad_call buf ct = (if ct < 6 then pad_call (buf[ct := shl1 0x20]) (ct + 1) else buf)"
  by pat_completeness auto
termination
  by (relation "measure (\<lambda>(buf, ct). 6 - ct)") auto

declare encode_chars.simps [simp del] pad_call.simps [simp del]

text \<open>
  \<^verbatim>\<open>scan_int\<close>: the value is accumulated in 64 bits, which wrap around, and its low 32 bits
  are the result.
\<close>

fun scan_digits :: "64 word \<Rightarrow> rstr \<Rightarrow> 64 word \<times> rstr" where
  "scan_digits val [] = (val, [])"
| "scan_digits val (b # bs) =
     (if is_ascii_digit b then scan_digits (val * 10 + ucast (b - 0x30)) bs else (val, b # bs))"

definition scan_int :: "rstr \<Rightarrow> 32 word option" where
  "scan_int s =
     (let b = dropWhile (\<lambda>x. x = 0x20 \<or> x = 0x09) s;
          neg = (b \<noteq> [] \<and> hd b = 0x2D);
          ds = (if b \<noteq> [] \<and> (hd b = 0x2B \<or> hd b = 0x2D) then tl b else b)
      in case scan_digits 0 ds of (val, rest) \<Rightarrow>
           if length rest = length ds then None
           else Some (if neg then - ucast val else ucast val))"

definition ssid_byte :: "32 word \<Rightarrow> byte" where
  "ssid_byte ssid = ucast (push_bit 1 (ssid + 0x30) AND 0x1E)"

definition encode_entry :: "rstr \<Rightarrow> byte list option outcome" where
  "encode_entry name =
     (case encode_chars name (replicate 7 0) 0 0 of
        None \<Rightarrow> Ret None
      | Some (buf, ct, idx) \<Rightarrow>
          (let buf = pad_call buf ct in
           if idx < length name then
             (case str_from name (min (idx + 1) (length name)) of
                Panic \<Rightarrow> Panic
              | Ret s \<Rightarrow>
                  (case scan_int s of
                     Some v \<Rightarrow> if 0 \<le> sint v \<and> sint v \<le> 15 then Ret (Some (buf[6 := ssid_byte v]))
                               else Ret None
                   | None \<Rightarrow> Ret None))
           else Ret (Some (buf[6 := ssid_byte 0]))))"

subsection \<open>Decoding, comparing, validating\<close>

definition decode_entry :: "byte list \<Rightarrow> rstr" where
  "decode_entry call =
     (let s = filter (\<lambda>c. c \<noteq> 0x20) (map (\<lambda>n. shr1 (call ! n) AND 0x7F) [0..<6])
      in if call ! 6 AND 0x1E \<noteq> 0
         then s @ [0x2D] @ dec_digits (unat (shr1 (call ! 6) AND 0x0F))
         else s)"

definition cmp_entry :: "byte list \<Rightarrow> byte list \<Rightarrow> int" where
  "cmp_entry a b =
     (if list_ex (\<lambda>i. a ! i AND 0xFE \<noteq> b ! i AND 0xFE) [0..<6] then 1
      else if a ! 6 AND 0x1E \<noteq> b ! 6 AND 0x1E then 2
      else 0)"

definition validate_entry :: "byte list \<Rightarrow> bool" where
  "validate_entry call \<longleftrightarrow>
     list_all (\<lambda>i. let c = shr1 (call ! i) AND 0x7F in
        is_ascii_uppercase c \<or> is_ascii_digit c \<or> c = 0x20) [0..<6]"

definition null_ax25_address :: ax25_address where
  "null_ax25_address = \<lparr>ax25_call = [0x40, 0x40, 0x40, 0x40, 0x40, 0x40, 0x00]\<rparr>"

text \<open>The version, a C string in an array that it fills.\<close>

definition libax25_version :: "byte list" where
  "libax25_version = ascii ''pdn-libax25 0.1.0'' @ [0]"

text \<open>\<^verbatim>\<open>c_char\<close> is signed: the casts between the addresses of C and bytes.\<close>

definition as_i8 :: "byte list \<Rightarrow> int list" where
  "as_i8 b = map (\<lambda>i. sint (b ! i)) [0..<7]"

definition as_u8 :: "int list \<Rightarrow> byte list" where
  "as_u8 b = map (\<lambda>i. word_of_int (b ! i)) [0..<7]"

subsection \<open>The C interface\<close>

text \<open>\<^verbatim>\<open>CStr::from_ptr(p).to_str()\<close> on a non-null pointer.\<close>

definition cstr_to_str :: "byte list \<Rightarrow> rstr option" where
  "cstr_to_str p = (if utf8_valid p then Some p else None)"

definition ax25_aton_entry ::
    "byte list option \<Rightarrow> byte list option \<Rightarrow> (int \<times> byte list option) outcome" where
  "ax25_aton_entry name buf =
     (case (name, buf) of
        (Some p, Some dst) \<Rightarrow>
          (case cstr_to_str p of
             None \<Rightarrow> Ret (-1, Some dst)
           | Some s \<Rightarrow>
               (case encode_entry s of
                  Panic \<Rightarrow> Panic
                | Ret (Some entry) \<Rightarrow> Ret (0, Some (entry @ drop 7 dst))
                | Ret None \<Rightarrow> Ret (-1, Some dst)))
      | _ \<Rightarrow> Ret (-1, buf))"

text \<open>\<^verbatim>\<open>ax25_ntoa\<close> writes the thread's 16-byte buffer and returns it.\<close>

definition ax25_ntoa :: "ax25_address option \<Rightarrow> byte list \<Rightarrow> byte list" where
  "ax25_ntoa a buf =
     (case a of
        None \<Rightarrow> buf[0 := 0]
      | Some adr \<Rightarrow>
          (let bytes = decode_entry (ax25_call adr); n = min (length bytes) 15
           in take n bytes @ [0] @ drop (n + 1) buf))"

definition ax25_cmp :: "ax25_address option \<Rightarrow> ax25_address option \<Rightarrow> int" where
  "ax25_cmp a b =
     (case (a, b) of
        (Some x, Some y) \<Rightarrow> cmp_entry (ax25_call x) (ax25_call y)
      | _ \<Rightarrow> 1)"

definition ax25_validate :: "byte list option \<Rightarrow> int" where
  "ax25_validate call = (case call of None \<Rightarrow> 0 | Some raw \<Rightarrow> if validate_entry raw then 1 else 0)"

text \<open>
  \<^verbatim>\<open>fill_sax\<close>. The loop returns \<open>Some n\<close> when it runs to its end and \<open>None\<close> for the
  early \<^verbatim>\<open>return -1\<close>; what it wrote before that stays written.
\<close>

definition is_via :: "rstr \<Rightarrow> bool" where
  "is_via tok \<longleftrightarrow> eq_ignore_ascii_case tok (ascii ''v'') \<or> eq_ignore_ascii_case tok (ascii ''via'')"

definition place_entry :: "nat \<Rightarrow> byte list \<Rightarrow> full_sockaddr_ax25 \<Rightarrow> full_sockaddr_ax25" where
  "place_entry n entry sax =
     (if n = 0 then sax\<lparr>fsa_ax25 := (fsa_ax25 sax)\<lparr>sax25_call := \<lparr>ax25_call = entry\<rparr>\<rparr>\<rparr>
      else sax\<lparr>fsa_digipeater := (fsa_digipeater sax)[n - 1 := \<lparr>ax25_call = entry\<rparr>]\<rparr>)"

fun fill_loop :: "nat \<Rightarrow> rstr list \<Rightarrow> full_sockaddr_ax25 \<Rightarrow>
    (nat option \<times> full_sockaddr_ax25) outcome" where
  "fill_loop n [] sax = Ret (Some n, sax)"
| "fill_loop n (tok # toks) sax =
     (if n = 1 \<and> is_via tok then fill_loop n toks sax
      else (case encode_entry tok of
          Panic \<Rightarrow> Panic
        | Ret None \<Rightarrow> Ret (None, sax)
        | Ret (Some entry) \<Rightarrow>
            if n \<noteq> 0 \<and> AX25_MAX_DIGIS \<le> n - 1 then Ret (Some n, sax)
            else if AX25_MAX_DIGIS < n + 1 then Ret (Some (n + 1), place_entry n entry sax)
            else fill_loop (n + 1) toks (place_entry n entry sax)))"

definition fill_sax :: "rstr list \<Rightarrow> full_sockaddr_ax25 \<Rightarrow> (int \<times> full_sockaddr_ax25) outcome" where
  "fill_sax tokens sax =
     (let tokens = (if tokens = [] then [[]] else tokens) in
      case fill_loop 0 tokens sax of
        Panic \<Rightarrow> Panic
      | Ret (None, s) \<Rightarrow> Ret (-1, s)
      | Ret (Some n, s) \<Rightarrow>
          Ret (int size_of_full_sockaddr_ax25,
               s\<lparr>fsa_ax25 := (fsa_ax25 s)\<lparr>sax25_ndigis := int n - 1, sax25_family := AF_AX25\<rparr>\<rparr>))"

definition ax25_aton :: "byte list option \<Rightarrow> full_sockaddr_ax25 option \<Rightarrow>
    (int \<times> full_sockaddr_ax25 option) outcome" where
  "ax25_aton call sax =
     (case (call, sax) of
        (Some p, Some s) \<Rightarrow>
          (case cstr_to_str p of
             None \<Rightarrow> Ret (-1, sax)
           | Some c \<Rightarrow>
               (case fill_sax (split_whitespace c) s of
                  Panic \<Rightarrow> Panic | Ret (r, s') \<Rightarrow> Ret (r, Some s')))
      | _ \<Rightarrow> Ret (-1, sax))"

text \<open>The argument list of \<^verbatim>\<open>ax25_aton_arglist\<close> is the strings before its NULL entry.\<close>

definition ax25_aton_arglist :: "byte list list option \<Rightarrow> full_sockaddr_ax25 option \<Rightarrow>
    (int \<times> full_sockaddr_ax25 option) outcome" where
  "ax25_aton_arglist call sax =
     (case (call, sax) of
        (Some ps, Some s) \<Rightarrow>
          if list_all utf8_valid ps then
            (case fill_sax ps s of Panic \<Rightarrow> Panic | Ret (r, s') \<Rightarrow> Ret (r, Some s'))
          else Ret (-1, sax)
      | _ \<Rightarrow> Ret (-1, sax))"

text \<open>\<^verbatim>\<open>strupr\<close> and \<^verbatim>\<open>strlwr\<close> rewrite the memory from the pointer up to the NUL.\<close>

fun strupr :: "byte list \<Rightarrow> byte list" where
  "strupr [] = []"
| "strupr (c # p) = (if c = 0 then c # p else to_ascii_uppercase c # strupr p)"

fun strlwr :: "byte list \<Rightarrow> byte list" where
  "strlwr [] = []"
| "strlwr (c # p) = (if c = 0 then c # p else to_ascii_lowercase c # strlwr p)"

section \<open>Reference specification\<close>

text \<open>
  What the encoder computes, without loops, indices and machine words. The number after the
  callsign: blanks, one optional sign and the longest run of digits are read as a decimal number,
  of which the value in 32 bits is kept.
\<close>

definition wrap32 :: "int \<Rightarrow> int" where
  "wrap32 x = (x + 2 ^ 31) mod 2 ^ 32 - 2 ^ 31"

definition decimal :: "rstr \<Rightarrow> int" where
  "decimal ds = (\<Sum>i < length ds. (int (unat (ds ! i)) - 48) * 10 ^ (length ds - 1 - i))"

definition int_text :: "rstr \<Rightarrow> int option" where
  "int_text s =
     (let t = dropWhile (\<lambda>b. b = 0x20 \<or> b = 0x09) s;
          u = (if take 1 t = [0x2B] \<or> take 1 t = [0x2D] then drop 1 t else t);
          ds = takeWhile is_ascii_digit u
      in if ds = [] then None
         else Some (wrap32 (if take 1 t = [0x2D] then - decimal ds else decimal ds)))"

text \<open>
  The symbols before the first dash among the first six bytes, shifted and padded, and one SSID
  byte for the number that follows the next character.
\<close>

definition call_prefix :: "rstr \<Rightarrow> rstr" where
  "call_prefix name = takeWhile (\<lambda>b. b \<noteq> 0x2D) (take 6 name)"

definition shift_call :: "rstr \<Rightarrow> byte list" where
  "shift_call p = map (\<lambda>b. shl1 (to_ascii_uppercase b)) p @ replicate (6 - length p) 0x40"

definition encode_ref :: "rstr \<Rightarrow> byte list option outcome" where
  "encode_ref name =
     (let p = call_prefix name; rest = drop (length p) name in
      if \<not> list_all is_ascii_alphanumeric p then Ret None
      else if rest = [] then Ret (Some (shift_call p @ [0]))
      else if tl rest \<noteq> [] \<and> is_cont_byte (hd (tl rest)) then Panic
      else (case int_text (tl rest) of
              Some v \<Rightarrow> if 0 \<le> v \<and> v \<le> 15 then Ret (Some (shift_call p @ [word_of_int (2 * v)]))
                        else Ret None
            | None \<Rightarrow> Ret None))"

text \<open>A form in between, which has no loops of its own but scans the number as the code does.\<close>

definition encode_flat :: "rstr \<Rightarrow> byte list option outcome" where
  "encode_flat name =
     (let p = call_prefix name; rest = drop (length p) name in
      if \<not> list_all is_ascii_alphanumeric p then Ret None
      else if rest = [] then Ret (Some (shift_call p @ [0]))
      else if tl rest \<noteq> [] \<and> is_cont_byte (hd (tl rest)) then Panic
      else (case scan_int (tl rest) of
              Some v \<Rightarrow> if sint v \<in> {0..15} then Ret (Some (shift_call p @ [shl1 (scast v)]))
                        else Ret None
            | None \<Rightarrow> Ret None))"

text \<open>
  Canonical callsigns: up to six upper-case letters or digits, and an SSID below 16 that is
  printed when it is not zero; and the address that stands for them.
\<close>

definition valid_base :: "rstr \<Rightarrow> bool" where
  "valid_base p \<longleftrightarrow> length p \<le> 6 \<and> list_all (\<lambda>b. is_ascii_uppercase b \<or> is_ascii_digit b) p"

definition call_text :: "rstr \<Rightarrow> nat \<Rightarrow> rstr" where
  "call_text p n = p @ (if n = 0 then [] else 0x2D # dec_digits n)"

definition addr_of :: "rstr \<Rightarrow> nat \<Rightarrow> byte list" where
  "addr_of p n = shift_call p @ [shl1 (word_of_nat n)]"

text \<open>A socket address with nothing in it, for the examples below.\<close>

definition blank_sax :: full_sockaddr_ax25 where
  "blank_sax = \<lparr>fsa_ax25 = \<lparr>sax25_family = 0, sax25_call = null_ax25_address, sax25_ndigis = 0\<rparr>,
     fsa_digipeater = replicate 8 null_ax25_address\<rparr>"

text \<open>The casts lose nothing, so an address is its seven bytes; the version fills its eighteen.\<close>

lemma as_u8_as_i8: "length b = 7 \<Longrightarrow> as_u8 (as_i8 b) = b"
  by (rule nth_equalityI) (simp_all add: as_u8_def as_i8_def)

lemma version_fits: "length libax25_version = 18 \<and> last libax25_version = 0 \<and> 0 \<notin> set (butlast libax25_version)"
  by (simp add: libax25_version_def ascii_def)

section \<open>The encoder implements its specification\<close>

lemma length_call_prefix: "length (call_prefix name) \<le> 6" "length (call_prefix name) \<le> length name"
  unfolding call_prefix_def using length_takeWhile_le [of "\<lambda>b. b \<noteq> 0x2D" "take 6 name"] by auto

lemma encode_chars_loop:
  assumes "k \<le> 6" and "length buf = 7"
  shows "encode_chars bytes buf k k =
    (let p = takeWhile (\<lambda>b. b \<noteq> 0x2D) (take (6 - k) (drop k bytes)) in
     if list_all is_ascii_alphanumeric p
     then Some (take k buf @ map (\<lambda>b. shl1 (to_ascii_uppercase b)) p @ drop (k + length p) buf,
                k + length p, k + length p)
     else None)"
  using assms
proof (induction "6 - k" arbitrary: k buf)
  case 0
  then show ?case by (simp add: encode_chars.simps)
next
  case (Suc m)
  note IH = Suc.hyps(1) [of "Suc k" "buf[k := shl1 (to_ascii_uppercase (bytes ! k))]"]
  show ?case
  proof (cases "k < length bytes")
    case False
    with Suc show ?thesis by (simp add: encode_chars.simps)
  next
    case True
    then have d: "drop k bytes = bytes ! k # drop (Suc k) bytes" by (simp add: Cons_nth_drop_Suc)
    have t: "take (6 - k) (drop k bytes) = bytes ! k # take (6 - Suc k) (drop (Suc k) bytes)"
      using Suc.hyps(2) unfolding d by (simp add: take_Cons')
    show ?thesis
    proof (cases "bytes ! k = 0x2D \<or> \<not> is_ascii_alphanumeric (bytes ! k)")
      case T: True
      with True Suc t show ?thesis
        by (auto simp: encode_chars.simps [of _ _ k] Let_def)
    next
      case F: False
      have "k < 6" using Suc.hyps(2) by simp
      with F True have "encode_chars bytes buf k k =
        encode_chars bytes (buf[k := shl1 (to_ascii_uppercase (bytes ! k))]) (Suc k) (Suc k)"
        by (simp add: encode_chars.simps [of _ _ k] Let_def)
      also have "\<dots> = (let q = takeWhile (\<lambda>b. b \<noteq> 0x2D) (take (6 - Suc k) (drop (Suc k) bytes)) in
         if list_all is_ascii_alphanumeric q
         then Some (take (Suc k) (buf[k := shl1 (to_ascii_uppercase (bytes ! k))]) @
             map (\<lambda>b. shl1 (to_ascii_uppercase b)) q @ drop (Suc k + length q) buf,
             Suc k + length q, Suc k + length q) else None)"
        using Suc.hyps(2) Suc.prems by (subst IH) (auto simp: Let_def)
      finally show ?thesis using F Suc.hyps(2) Suc.prems t
        by (auto simp: Let_def take_Suc_conv_app_nth)
    qed
  qed
qed

lemma pad_call_loop:
  assumes "k \<le> 6" and "length buf = 7"
  shows "pad_call buf k = take k buf @ replicate (6 - k) 0x40 @ [buf ! 6]"
  using assms
proof (induction "6 - k" arbitrary: k buf)
  case 0
  then have "k = 6" by simp
  with 0 show ?case
    by (simp add: pad_call.simps) (metis append_take_drop_id id_take_nth_drop drop_all Suc_leI lessI eval_nat_numeral(3) le_refl)
next
  case (Suc m)
  have r: "replicate (6 - k) (0x40::byte) = 0x40 # replicate (6 - Suc k) 0x40"
    using Suc.hyps(2) by (metis replicate_Suc diff_Suc_eq_diff_pred Suc_diff_Suc zero_less_Suc zero_less_diff)
  have "k < 6" using Suc.hyps(2) by simp
  then have "pad_call buf k = pad_call (buf[k := 0x40]) (Suc k)"
    by (subst pad_call.simps) (simp add: shl1_def)
  also have "\<dots> = take (Suc k) (buf[k := 0x40]) @ replicate (6 - Suc k) 0x40 @ [buf ! 6]"
    using Suc.hyps(2) Suc.prems by (subst Suc.hyps(1)) auto
  also have "\<dots> = take k buf @ replicate (6 - k) 0x40 @ [buf ! 6]"
    using Suc.hyps(2) Suc.prems unfolding r by (simp add: take_Suc_conv_app_nth)
  finally show ?case .
qed

lemma ssid_byte_shift:
  assumes "0 \<le> sint v" "sint v \<le> 15"
  shows "ssid_byte v = shl1 (scast v)"
proof -
  have "\<forall>i \<in> set [0..15]. ssid_byte (word_of_int i) = shl1 (word_of_int i)" by code_simp
  moreover have "sint v \<in> set [0..15]" using assms by simp
  ultimately have "ssid_byte (word_of_int (sint v)) = shl1 (word_of_int (sint v))" by (rule bspec)
  then show ?thesis by simp
qed

lemma encode_entry_flat: "encode_entry name = encode_flat name"
proof -
  let ?p = "call_prefix name"
  let ?n = "length ?p"
  have len: "?n \<le> 6" "?n \<le> length name" by (rule length_call_prefix)+
  show ?thesis
  proof (cases "list_all is_ascii_alphanumeric ?p")
    case False
    then show ?thesis
      by (simp add: encode_entry_def encode_flat_def encode_chars_loop call_prefix_def Let_def)
  next
    case True
    have e: "encode_chars name (replicate 7 0) 0 0 =
      Some (map (\<lambda>b. shl1 (to_ascii_uppercase b)) ?p @ replicate (7 - ?n) 0, ?n, ?n)"
      using True by (simp add: encode_chars_loop call_prefix_def Let_def)
    have "pad_call (map (\<lambda>b. shl1 (to_ascii_uppercase b)) ?p @ replicate (7 - ?n) 0) ?n =
      shift_call ?p @ [0]"
      using len by (subst pad_call_loop) (auto simp: shift_call_def nth_append)
    then have pad: "(pad_call (map (\<lambda>b. shl1 (to_ascii_uppercase b)) ?p @ replicate (7 - ?n) 0) ?n)[6 := x] =
      shift_call ?p @ [x]" for x
      using len by (simp add: shift_call_def list_update_append)
    show ?thesis
    proof (cases "?n < length name")
      case False
      then show ?thesis using True len pad [of "ssid_byte 0"]
        by (simp add: encode_entry_def encode_flat_def e ssid_byte_def Let_def)
    next
      case lt: True
      then have "min (?n + 1) (length name) = ?n + 1" by simp
      moreover have "is_char_boundary name (?n + 1) \<longleftrightarrow>
          \<not> (tl (drop ?n name) \<noteq> [] \<and> is_cont_byte (hd (tl (drop ?n name))))"
        using lt by (auto simp: is_char_boundary_def drop_Suc [symmetric] tl_drop hd_drop_conv_nth)
      moreover have "drop (?n + 1) name = tl (drop ?n name)" by (simp add: drop_Suc tl_drop)
      ultimately show ?thesis using True lt
        by (auto simp: encode_entry_def encode_flat_def e pad ssid_byte_shift Let_def str_from_def
            split: option.splits)
    qed
  qed
qed

text \<open>The scan reads the decimal number: both accumulators wrap around, so only its value in 32 bits is left.\<close>

lemma decimal_Nil [simp]: "decimal [] = 0"
  by (simp add: decimal_def)

lemma decimal_Cons: "decimal (b # ds) = (int (unat b) - 48) * 10 ^ length ds + decimal ds"
  by (simp add: decimal_def sum.lessThan_Suc_shift del: sum.lessThan_Suc)

lemma digit_value: "is_ascii_digit b \<Longrightarrow> (ucast (b - 0x30) :: 64 word) = word_of_int (int (unat b) - 48)"
proof -
  assume "is_ascii_digit b"
  then have "uint (b - 0x30) = uint b - 48" unfolding is_ascii_digit_def by uint_arith
  then show ?thesis by (metis of_int_uint uint_nat word_of_int_uint)
qed

lemma scan_digits_decimal:
  "scan_digits (word_of_int a) bs =
     (word_of_int (a * 10 ^ length (takeWhile is_ascii_digit bs) + decimal (takeWhile is_ascii_digit bs)), dropWhile is_ascii_digit bs)"
proof (induction bs arbitrary: a)
  case (Cons b bs)
  show ?case
  proof (cases "is_ascii_digit b")
    case True
    let ?ds = "takeWhile is_ascii_digit bs" and ?x = "int (unat b) - 48"
    have "(a * 10 + ?x) * 10 ^ length ?ds + decimal ?ds = a * 10 ^ length (b # ?ds) + decimal (b # ?ds)"
      by (simp add: decimal_Cons algebra_simps)
    moreover have "word_of_int a * 10 + ucast (b - 0x30) = (word_of_int (a * 10 + ?x) :: 64 word)"
      by (simp add: digit_value [OF True])
    ultimately show ?thesis using Cons.IH [of "a * 10 + ?x"] True by simp
  qed simp
qed simp

lemma sint_low_word: "sint (ucast (word_of_int x :: 64 word) :: 32 word) = wrap32 x"
  "sint (- ucast (word_of_int x :: 64 word) :: 32 word) = wrap32 (- x)"
proof -
  have w: "sint (word_of_int y :: 32 word) = wrap32 y" for y
    by (simp add: sint_uint wrap32_def signed_take_bit_eq_take_bit_shift take_bit_eq_mod uint_word_of_int mod_simps)
  have u: "(ucast (word_of_int x :: 64 word) :: 32 word) = word_of_int x"
    by (simp add: unsigned_of_int word_of_int_eq_iff)
  show "sint (ucast (word_of_int x :: 64 word) :: 32 word) = wrap32 x" by (simp add: u w)
  show "sint (- ucast (word_of_int x :: 64 word) :: 32 word) = wrap32 (- x)" by (metis u w of_int_minus)
qed

lemma scan_int_text: "map_option sint (scan_int s) = int_text s"
proof -
  have len: "length (dropWhile is_ascii_digit u) = length u \<longleftrightarrow> takeWhile is_ascii_digit u = []" for u :: rstr
    by (metis length_append takeWhile_dropWhile_id add_cancel_left_left length_0_conv)
  have d: "scan_digits 0 u = (word_of_int (decimal (takeWhile is_ascii_digit u)), dropWhile is_ascii_digit u)" for u
    using scan_digits_decimal [of 0 u] by simp
  define t where "t = dropWhile (\<lambda>b :: byte. b = 0x20 \<or> b = 0x09) s"
  show ?thesis unfolding scan_int_def int_text_def Let_def t_def [symmetric]
    by (cases t) (auto simp: d len sint_low_word simp del: takeWhile.simps dropWhile.simps)
qed
lemma encode_flat_ref: "encode_flat name = encode_ref name"
proof -
  have shl: "shl1 (scast v) = (word_of_int (2 * sint v) :: byte)" for v :: "32 word"
    by (simp add: shl1_def push_bit_eq_mult mult.commute)
  show ?thesis
    by (auto simp: encode_flat_def encode_ref_def scan_int_text [symmetric] Let_def shl split: option.splits)
qed

section \<open>Round trips\<close>

lemma upper_or_digit_byte:
  assumes "is_ascii_uppercase b \<or> is_ascii_digit b"
  shows "b < 0x80" "b \<noteq> 0x20" "b \<noteq> 0x2D" "to_ascii_uppercase b = b" "is_ascii_alphanumeric b"
proof -
  show "b < 0x80" "b \<noteq> 0x20" "b \<noteq> 0x2D" "to_ascii_uppercase b = b"
    using assms unfolding ascii_class_defs by (uint_arith; simp)+
  show "is_ascii_alphanumeric b" using assms by (auto simp: is_ascii_alphanumeric_def)
qed

lemma scan_digits_all:
  "list_all is_ascii_digit ds \<Longrightarrow> scan_digits v ds =
     (foldl (\<lambda>v b. v * 10 + ucast (b - 0x30)) v ds, [])"
  by (induction ds arbitrary: v) auto

lemma dec_digit_byte: "n < 10 \<Longrightarrow> is_ascii_digit (word_of_nat (48 + n))"
  "n < 10 \<Longrightarrow> (ucast (word_of_nat (48 + n) - 0x30 :: byte) :: 64 word) = word_of_nat n"
proof -
  have a: "\<forall>n \<in> set [0..<10]. is_ascii_digit (word_of_nat (48 + n)) \<and>
     (ucast (word_of_nat (48 + n) - 0x30 :: byte) :: 64 word) = word_of_nat n" by code_simp
  assume "n < 10"
  then have "n \<in> set [0..<10]" by simp
  with a show "is_ascii_digit (word_of_nat (48 + n))"
    "(ucast (word_of_nat (48 + n) - 0x30 :: byte) :: 64 word) = word_of_nat n" by blast+
qed

lemma dec_digits_digits: "list_all is_ascii_digit (dec_digits n)" "dec_digits n \<noteq> []"
proof (induction n rule: dec_digits.induct)
  case (1 n)
  { case 1 then show ?case using "1.IH" dec_digit_byte(1) [of n] dec_digit_byte(1) [of "n mod 10"]
      by (subst dec_digits.simps) auto
  next case 2 then show ?case by (subst dec_digits.simps) auto }
qed

lemma scan_dec_digits: "foldl (\<lambda>v b. v * 10 + ucast (b - 0x30)) 0 (dec_digits n) = (word_of_nat n :: 64 word)"
proof (induction n rule: dec_digits.induct)
  case (1 n)
  show ?case
  proof (cases "n < 10")
    case True
    then show ?thesis using dec_digit_byte(2) [of n] by (subst dec_digits.simps) simp
  next
    case False
    have "word_of_nat n = (word_of_nat (n div 10 * 10 + n mod 10) :: 64 word)" by simp
    also have "\<dots> = word_of_nat (n div 10) * 10 + word_of_nat (n mod 10)"
      by (simp only: of_nat_add of_nat_mult) simp
    finally show ?thesis using False "1.IH" [OF False] dec_digit_byte(2) [of "n mod 10"]
      by (subst dec_digits.simps) simp
  qed
qed

lemma digit_not_special:
  assumes "is_ascii_digit b"
  shows "b \<noteq> 0x20" "b \<noteq> 0x09" "b \<noteq> 0x2B" "b \<noteq> 0x2D" "b < 0x80"
proof -
  show "b \<noteq> 0x20" "b \<noteq> 0x09" "b \<noteq> 0x2B" "b \<noteq> 0x2D" using assms by (auto simp: is_ascii_digit_def)
  have "b \<le> 0x39" using assms by (simp add: is_ascii_digit_def)
  then show "b < 0x80" by (rule order.strict_trans1) simp
qed

lemma scan_int_dec_digits: "scan_int (dec_digits n) = Some (word_of_nat n)"
proof -
  obtain d ds where d: "dec_digits n = d # ds" using dec_digits_digits(2) by (cases "dec_digits n") auto
  then have s: "is_ascii_digit d" using dec_digits_digits(1) [of n] by simp
  have "scan_digits 0 (d # ds) = (word_of_nat n, [])"
    using scan_digits_all [OF dec_digits_digits(1)] scan_dec_digits d by metis
  moreover have "ucast (word_of_nat n :: 64 word) = (word_of_nat n :: 32 word)"
    by (simp add: unsigned_of_nat word_of_nat_eq_iff)
  ultimately show ?thesis unfolding scan_int_def using digit_not_special [OF s] d
    by (simp add: Let_def)
qed

lemma ssid_value:
  assumes "n < 16"
  shows "sint (word_of_nat n :: 32 word) = int n" "scast (word_of_nat n :: 32 word) = (word_of_nat n :: byte)"
    "(shl1 (word_of_nat n) AND 0x1E = 0) \<longleftrightarrow> n = 0" "unat (shr1 (shl1 (word_of_nat n)) AND 0x0F) = n"
proof -
  have "\<forall>n \<in> set [0..<16]. sint (word_of_nat n :: 32 word) = int n \<and>
     scast (word_of_nat n :: 32 word) = (word_of_nat n :: byte) \<and>
     ((shl1 (word_of_nat n) AND 0x1E = 0) \<longleftrightarrow> n = 0) \<and> unat (shr1 (shl1 (word_of_nat n)) AND 0x0F) = n"
    by code_simp
  moreover have "n \<in> set [0..<16]" using assms by simp
  ultimately show "sint (word_of_nat n :: 32 word) = int n" "scast (word_of_nat n :: 32 word) = (word_of_nat n :: byte)"
    "(shl1 (word_of_nat n) AND 0x1E = 0) \<longleftrightarrow> n = 0" "unat (shr1 (shl1 (word_of_nat n)) AND 0x0F) = n"
    by blast+
qed

lemma hd_dec_digits: "\<not> is_cont_byte (hd (dec_digits n))"
  using dec_digits_digits [of n] by (cases "dec_digits n") (auto simp: cont_byte_not_ascii digit_not_special)

lemma call_prefix_call_text:
  assumes "valid_base p"
  shows "call_prefix (call_text p n) = p"
proof -
  have nd: "takeWhile (\<lambda>b. b \<noteq> 0x2D) (p @ 0x2D # ds) = p" for ds
    using assms by (subst takeWhile_append2) (auto simp: valid_base_def list_all_iff upper_or_digit_byte)
  have "takeWhile (\<lambda>b. b \<noteq> 0x2D) p = p"
    using assms by (auto simp: takeWhile_eq_all_conv valid_base_def list_all_iff upper_or_digit_byte)
  with nd show ?thesis
    using assms by (simp add: call_prefix_def call_text_def take_takeWhile valid_base_def)
qed

lemma encode_call_text:
  assumes "valid_base p" and "n < 16"
  shows "encode_entry (call_text p n) = Ret (Some (addr_of p n))"
proof -
  have al: "list_all is_ascii_alphanumeric p"
    using assms(1) by (auto simp: valid_base_def list_all_iff upper_or_digit_byte)
  show ?thesis
  proof (cases "n = 0")
    case True
    then show ?thesis
      using assms al by (simp add: encode_entry_flat encode_flat_def call_prefix_call_text Let_def)
        (simp add: call_text_def addr_of_def shl1_def)
  next
    case False
    then have "drop (length p) (call_text p n) = 0x2D # dec_digits n" by (simp add: call_text_def)
    then show ?thesis using assms al ssid_value [OF assms(2)] dec_digits_digits(2) [of n] hd_dec_digits [of n]
        scan_int_dec_digits [of n]
      by (simp add: encode_entry_flat encode_flat_def call_prefix_call_text Let_def addr_of_def)
  qed
qed

lemma decode_shifted_base:
  assumes "valid_base p"
  shows "filter (\<lambda>c. c \<noteq> 0x20) (map (\<lambda>b. shr1 b AND 0x7F) (shift_call p)) = p"
proof -
  have "map (\<lambda>b. shr1 (shl1 (to_ascii_uppercase b)) AND 0x7F) p = p"
    using assms by (intro map_idI) (auto simp: valid_base_def list_all_iff upper_or_digit_byte shift_round_trip)
  moreover have "filter (\<lambda>c. c \<noteq> 0x20) p = p"
    using assms by (auto simp: filter_id_conv valid_base_def list_all_iff upper_or_digit_byte)
  ultimately show ?thesis by (simp add: shift_call_def o_def shr1_def)
qed

lemma length_shift_call: "length p \<le> 6 \<Longrightarrow> length (shift_call p) = 6"
  by (simp add: shift_call_def)

lemma decode_addr_of:
  assumes "valid_base p" and "n < 16"
  shows "decode_entry (addr_of p n) = call_text p n"
proof -
  have len: "length (shift_call p) = 6" using assms by (simp add: valid_base_def length_shift_call)
  have "map (\<lambda>n. shr1 (addr_of p n' ! n) AND 0x7F) [0..<6] = map (\<lambda>b. shr1 b AND 0x7F) (shift_call p)" for n'
    using len by (subst map_nth_take) (auto simp: addr_of_def)
  moreover have "addr_of p n ! 6 = shl1 (word_of_nat n)"
    using len by (simp add: addr_of_def nth_append)
  ultimately show ?thesis
    using decode_shifted_base [OF assms(1)] ssid_value [OF assms(2)]
    by (simp add: decode_entry_def call_text_def Let_def)
qed

lemma shift_call_upper: "shift_call (str_to_uppercase p) = shift_call p"
  by (simp add: shift_call_def str_to_uppercase_def)

lemma encode_entry_wf:
  assumes "encode_entry name = Ret (Some a)"
  obtains p n where "valid_base p" "n < 16" "a = addr_of p n"
proof -
  let ?p = "str_to_uppercase (call_prefix name)"
  have a: "list_all is_ascii_alphanumeric (call_prefix name)"
    using assms by (auto simp: encode_entry_flat encode_flat_def Let_def split: if_splits)
  have v: "valid_base ?p"
    using a length_call_prefix [of name] 
    by (auto simp: valid_base_def str_to_uppercase_def list_all_iff) (auto simp: ascii_class_defs; uint_arith)
  show thesis
  proof (cases "drop (length (call_prefix name)) name = []")
    case True
    then have "a = addr_of ?p 0" using assms a
      by (simp add: encode_entry_flat encode_flat_def Let_def shift_call_upper addr_of_def shl1_def)
    with v show thesis by (intro that [of ?p 0]) auto
  next
    case False
    then obtain s :: "32 word" where s: "0 \<le> sint s" "sint s \<le> 15" "a = shift_call ?p @ [shl1 (scast s)]"
      using assms a by (auto simp: encode_entry_flat encode_flat_def Let_def shift_call_upper split: if_splits option.splits)
    then have "a = addr_of ?p (nat (sint s))" by (simp add: addr_of_def)
    with s v show thesis by (intro that [of ?p "nat (sint s)"]) auto
  qed
qed
section \<open>Case is ignored\<close>

lemma is_cont_byte_upper: "is_cont_byte (to_ascii_uppercase b) = is_cont_byte b"
  unfolding is_cont_byte_def to_ascii_uppercase_def by (uint_arith; simp)

lemma upper_fixes:
  "is_ascii_digit (to_ascii_uppercase b) = is_ascii_digit b" "to_ascii_uppercase b = 0x20 \<longleftrightarrow> b = 0x20"
  "to_ascii_uppercase b = 0x09 \<longleftrightarrow> b = 0x09" "to_ascii_uppercase b = 0x2B \<longleftrightarrow> b = 0x2B"
  "is_ascii_digit b \<Longrightarrow> to_ascii_uppercase b = b"
  unfolding ascii_class_defs by (uint_arith; simp)+

lemma scan_digits_upper:
  "scan_digits v (str_to_uppercase ds) = (case scan_digits v ds of (w, r) \<Rightarrow> (w, str_to_uppercase r))"
  unfolding str_to_uppercase_def by (induction ds arbitrary: v) (auto simp: upper_fixes)

lemma scan_int_upper: "scan_int (str_to_uppercase s) = scan_int s"
proof -
  have d: "dropWhile (\<lambda>x. x = 0x20 \<or> x = 0x09) (map to_ascii_uppercase s) =
        map to_ascii_uppercase (dropWhile (\<lambda>x. x = 0x20 \<or> x = 0x09) s)"
    by (simp add: dropWhile_map o_def upper_fixes)
  define b where "b = dropWhile (\<lambda>x. x = 0x20 \<or> x = 0x09) s"
  have sd: "scan_digits v (map to_ascii_uppercase ds) = (case scan_digits v ds of (w, r) \<Rightarrow> (w, map to_ascii_uppercase r))" for v ds
    using scan_digits_upper by (simp add: str_to_uppercase_def)
  show ?thesis
    unfolding scan_int_def str_to_uppercase_def d b_def [symmetric]
    by (cases b) (auto simp: Let_def upper_fixes sd split: prod.splits)
qed

lemma call_prefix_upper: "call_prefix (str_to_uppercase name) = str_to_uppercase (call_prefix name)"
  by (simp add: call_prefix_def str_to_uppercase_def take_map takeWhile_map o_def)

lemma encode_entry_upper: "encode_entry (str_to_uppercase name) = encode_entry name"
proof -
  have "list_all is_ascii_alphanumeric (str_to_uppercase p) = list_all is_ascii_alphanumeric p" for p
    by (simp add: str_to_uppercase_def list_all_iff)
  moreover have "drop k (str_to_uppercase name) = str_to_uppercase (drop k name)" for k
    by (simp add: str_to_uppercase_def drop_map)
  moreover have "tl (str_to_uppercase s) = str_to_uppercase (tl s)" for s
    by (simp add: str_to_uppercase_def map_tl)
  moreover have "(str_to_uppercase s = []) = (s = [])" "length (str_to_uppercase s) = length s" for s
    by (simp_all add: str_to_uppercase_def)
  moreover have "s \<noteq> [] \<Longrightarrow> is_cont_byte (hd (str_to_uppercase s)) = is_cont_byte (hd s)" for s
    by (cases s) (simp_all add: str_to_uppercase_def is_cont_byte_upper)
  ultimately show ?thesis
    by (simp add: encode_entry_flat encode_flat_def call_prefix_upper Let_def shift_call_upper scan_int_upper
        cong: conj_cong split: option.split)
qed
section \<open>Comparison and validation\<close>

lemma cmp_entry_values:
  "cmp_entry a b = 0 \<longleftrightarrow>
     (\<forall>i<6. shr1 (a ! i) = shr1 (b ! i)) \<and> shr1 (a ! 6) AND 0x0F = shr1 (b ! 6) AND 0x0F"
  "cmp_entry a b = 2 \<longleftrightarrow>
     (\<forall>i<6. shr1 (a ! i) = shr1 (b ! i)) \<and> shr1 (a ! 6) AND 0x0F \<noteq> shr1 (b ! 6) AND 0x0F"
  "cmp_entry a b = 1 \<longleftrightarrow> (\<exists>i<6. shr1 (a ! i) \<noteq> shr1 (b ! i))"
proof -
  have six: "x AND 0x1E = y AND 0x1E \<longleftrightarrow> shr1 x AND 0x0F = shr1 y AND 0x0F" for x y :: byte
    unfolding byte_eq_iff by (simp add: bit_simps bit_shifts del: One_nat_def; simp)
  show "cmp_entry a b = 0 \<longleftrightarrow>
     (\<forall>i<6. shr1 (a ! i) = shr1 (b ! i)) \<and> shr1 (a ! 6) AND 0x0F = shr1 (b ! 6) AND 0x0F"
    "cmp_entry a b = 2 \<longleftrightarrow>
     (\<forall>i<6. shr1 (a ! i) = shr1 (b ! i)) \<and> shr1 (a ! 6) AND 0x0F \<noteq> shr1 (b ! 6) AND 0x0F"
    "cmp_entry a b = 1 \<longleftrightarrow> (\<exists>i<6. shr1 (a ! i) \<noteq> shr1 (b ! i))"
    unfolding cmp_entry_def by (auto simp: list_ex_iff and_FE_eq_iff six)
qed

lemma cmp_entry_refl [simp]: "cmp_entry a a = 0"
  by (simp add: cmp_entry_values)

lemma cmp_entry_sym: "cmp_entry a b = cmp_entry b a"
  unfolding cmp_entry_def by (auto simp: list_ex_iff)

lemma cmp_entry_trans: "cmp_entry a b = 0 \<Longrightarrow> cmp_entry b c = 0 \<Longrightarrow> cmp_entry a c = 0"
  by (simp add: cmp_entry_values)

lemma nth_addr_of:
  assumes "valid_base p"
  shows "length (addr_of p n) = 7" and "addr_of p n ! 6 = shl1 (word_of_nat n)"
    and "i < 6 \<Longrightarrow> addr_of p n ! i = shift_call p ! i"
  using assms length_shift_call [of p] by (auto simp: addr_of_def valid_base_def nth_append)

text \<open>Canonical addresses are told apart by \<^verbatim>\<open>ax25_cmp\<close>.\<close>

lemma decode_cmp:
  assumes "cmp_entry a b = 0"
  shows "decode_entry a = decode_entry b"
proof -
  have "shr1 (a ! i) = shr1 (b ! i)" if "i < 6" for i
    using assms that by (simp add: cmp_entry_values)
  then have "map (\<lambda>n. shr1 (a ! n) AND 0x7F) [0..<6] = map (\<lambda>n. shr1 (b ! n) AND 0x7F) [0..<6]"
    by (intro map_cong) auto
  moreover have "shr1 (a ! 6) AND 0x0F = shr1 (b ! 6) AND 0x0F"
    using assms by (simp add: cmp_entry_values)
  ultimately show ?thesis by (simp only: decode_entry_def and_1E_shift)
qed

lemma call_text_inj:
  assumes "valid_base p" "valid_base q" "n < 16" "m < 16" "call_text p n = call_text q m"
  shows "p = q" and "n = m"
proof -
  have "addr_of p n = addr_of q m"
    using encode_call_text [OF assms(1,3)] encode_call_text [OF assms(2,4)] assms(5) by simp
  moreover show pq: "p = q"
    using call_prefix_call_text [OF assms(1)] call_prefix_call_text [OF assms(2)] assms(5) by metis
  ultimately have "(shl1 (word_of_nat n)) = shl1 (word_of_nat m)" by (simp add: addr_of_def)
  then show "n = m" using ssid_value(4) [OF assms(3)] ssid_value(4) [OF assms(4)] by metis
qed

lemma cmp_addr_of:
  assumes "valid_base p" "valid_base q" "n < 16" "m < 16"
  shows "cmp_entry (addr_of p n) (addr_of q m) = (if p \<noteq> q then 1 else if n \<noteq> m then 2 else 0)"
proof -
  have six: "shr1 (addr_of p n ! 6) AND 0x0F = shr1 (addr_of q m ! 6) AND 0x0F \<longleftrightarrow> n = m"
    using ssid_value(4) [OF assms(3)] ssid_value(4) [OF assms(4)] nth_addr_of(2) assms(1,2) by metis
  have base: "(\<forall>i<6. shr1 (addr_of p n ! i) = shr1 (addr_of q m ! i)) \<longleftrightarrow> p = q"
  proof
    assume l: "\<forall>i<6. shr1 (addr_of p n ! i) = shr1 (addr_of q m ! i)"
    have "\<forall>i<6. shr1 (addr_of p 0 ! i) = shr1 (addr_of q 0 ! i)"
      using l assms(1,2) by (simp add: nth_addr_of)
    then have "cmp_entry (addr_of p 0) (addr_of q 0) = 0"
      using assms(1,2) by (simp add: cmp_entry_values nth_addr_of)
    then have "call_text p 0 = call_text q 0"
      using decode_cmp decode_addr_of assms(1,2) by (metis zero_less_numeral)
    then show "p = q" using call_text_inj assms(1,2) by (metis zero_less_numeral)
  qed (use assms nth_addr_of in auto)
  show ?thesis
  proof (cases "p = q")
    case True
    then show ?thesis using base six cmp_entry_values [of "addr_of p n" "addr_of q m"] by auto
  next
    case False
    then show ?thesis using base cmp_entry_values(3) [of "addr_of p n" "addr_of q m"] by auto
  qed
qed

lemma validate_addr_of:
  assumes "valid_base p"
  shows "validate_entry (addr_of p n)"
proof -
  have "is_ascii_uppercase c \<or> is_ascii_digit c \<or> c = 0x20"
    if "c \<in> set (map (\<lambda>b. shr1 b AND 0x7F) (shift_call p))" for c
  proof (cases "c = 0x20")
    case False
    with that have "c \<in> set (filter (\<lambda>c. c \<noteq> 0x20) (map (\<lambda>b. shr1 b AND 0x7F) (shift_call p)))"
      by auto
    then have "c \<in> set p" unfolding decode_shifted_base [OF assms] .
    then show ?thesis using assms by (auto simp: valid_base_def list_all_iff)
  qed simp
  moreover have "shr1 (addr_of p n ! i) AND 0x7F \<in> set (map (\<lambda>b. shr1 b AND 0x7F) (shift_call p))"
    if "i < 6" for i
    using that assms length_shift_call [of p] by (auto simp: nth_addr_of valid_base_def)
  ultimately show ?thesis unfolding validate_entry_def list_all_iff Let_def by auto
qed

lemma length_decode_entry: "length (decode_entry call) \<le> 9"
proof -
  have "length (dec_digits k) \<le> 2" if "k < 16" for k
  proof -
    have "\<forall>k \<in> set [0..<16]. length (dec_digits k) \<le> 2" by code_simp
    then show ?thesis using that by (metis atLeast0LessThan lessThan_iff set_upt)
  qed
  then have "length (dec_digits (unat (shr1 (call ! 6) AND 0x0F))) \<le> 2"
    by (simp add: unat_and_0F)
  moreover have "length (filter (\<lambda>c. c \<noteq> 0x20) (map (\<lambda>n. shr1 (call ! n) AND 0x7F) [0..<6])) \<le> 6"
    by (rule order_trans [OF length_filter_le]) simp
  ultimately show ?thesis
    unfolding decode_entry_def Let_def by (simp only: length_append list.size split: if_split) arith
qed
section \<open>When the encoder panics\<close>

lemma call_prefix_split:
  shows "name = call_prefix name @ drop (length (call_prefix name)) name"
    and "length (call_prefix name) < 6 \<Longrightarrow> drop (length (call_prefix name)) name \<noteq> [] \<Longrightarrow>
      hd (drop (length (call_prefix name)) name) = 0x2D"
proof -
  let ?P = "\<lambda>b. b \<noteq> (0x2D :: byte)"
  have "call_prefix name = take 6 (take (length (takeWhile ?P name)) name)"
    unfolding call_prefix_def take_takeWhile by (subst takeWhile_eq_take) simp
  then have p: "call_prefix name = take (min 6 (length (takeWhile ?P name))) name" by simp
  show "name = call_prefix name @ drop (length (call_prefix name)) name"
    unfolding p using length_takeWhile_le [of ?P name] by (simp add: min_def)
  assume "length (call_prefix name) < 6" and ne: "drop (length (call_prefix name)) name \<noteq> []"
  then have "length (takeWhile ?P name) < 6"
    unfolding p using length_takeWhile_le [of ?P name] by (simp add: min_def split: if_splits)
  then have "call_prefix name = takeWhile ?P name"
    by (simp add: call_prefix_def take_takeWhile)
  then have d: "drop (length (call_prefix name)) name = dropWhile ?P name"
    by (simp add: dropWhile_eq_drop)
  with ne show "hd (drop (length (call_prefix name)) name) = 0x2D"
    using hd_dropWhile [of ?P name] by simp
qed

lemma encode_entry_panic_iff:
  assumes "utf8_valid name"
  shows "encode_entry name = Panic \<longleftrightarrow>
    6 < length name \<and> list_all is_ascii_alphanumeric (take 6 name) \<and> 0x80 \<le> name ! 6"
proof -
  let ?p = "call_prefix name" and ?rest = "drop (length (call_prefix name)) name"
  have panic: "encode_entry name = Panic \<longleftrightarrow> list_all is_ascii_alphanumeric ?p \<and> ?rest \<noteq> [] \<and>
     tl ?rest \<noteq> [] \<and> is_cont_byte (hd (tl ?rest))"
    by (auto simp: encode_entry_flat encode_flat_def Let_def split: option.splits)
  have second: "(tl ?rest \<noteq> [] \<and> is_cont_byte (hd (tl ?rest))) \<longleftrightarrow> 0x80 \<le> hd ?rest"
    if "list_all is_ascii_alphanumeric ?p" "?rest \<noteq> []"
  proof -
    have "ascii_only ?p" using that by (auto simp: ascii_only_def list_all_iff alphanumeric_ascii)
    then have "utf8_valid ?rest"
      using assms call_prefix_split(1) [of name] utf8_valid_drop_ascii by metis
    then show ?thesis
      using that(2) utf8_valid_second_byte [of "hd ?rest" "tl ?rest"] by simp
  qed
  show ?thesis
  proof (cases "length ?p = 6")
    case True
    then have "?p = take 6 name" using call_prefix_split(1) [of name] by (metis append_eq_conv_conj)
    then show ?thesis using panic second True by (auto simp: hd_drop_conv_nth)
  next
    case False
    then have lt: "length ?p < 6" using length_call_prefix(1) [of name] by simp
    have "\<not> list_all is_ascii_alphanumeric (take 6 name)" if "6 < length name"
    proof -
      have "?rest \<noteq> []" using lt that by simp
      then have "hd ?rest = 0x2D" by (rule call_prefix_split(2) [OF lt])
      then have "name ! length ?p = 0x2D" using lt that by (simp add: hd_drop_conv_nth)
      then have "0x2D \<in> set (take 6 name)" using lt that
        by (metis in_set_conv_nth length_take min.absorb2 nth_take less_imp_le)
      moreover have "\<not> is_ascii_alphanumeric 0x2D" by (simp add: ascii_class_defs)
      ultimately show ?thesis by (auto simp: list_all_iff)
    qed
    then show ?thesis using panic second call_prefix_split(2) [OF lt] by auto
  qed
qed

section \<open>Filling a socket address\<close>

abbreviation enc_ok :: "rstr \<Rightarrow> byte list \<Rightarrow> bool" where
  "enc_ok t e \<equiv> encode_entry t = Ret (Some e)"

lemma fill_loop_digis:
  assumes "list_all2 enc_ok ds es" and "1 \<le> n" and "n + length ds \<le> 9"
    and "n = 1 \<Longrightarrow> ds \<noteq> [] \<Longrightarrow> \<not> is_via (hd ds)" and "length (fsa_digipeater sax) = 8"
  shows "fill_loop n ds sax = Ret (Some (n + length ds), sax\<lparr>fsa_digipeater :=
     take (n - 1) (fsa_digipeater sax) @ map ax25_address.make es @
     drop (n - 1 + length ds) (fsa_digipeater sax)\<rparr>)"
  using assms
proof (induction ds es arbitrary: n sax rule: list_all2_induct)
  case Nil
  then show ?case by simp
next
  case (Cons d ds e es)
  let ?sax = "place_entry n e sax"
  let ?D = "fsa_digipeater sax"
  have D: "fsa_digipeater ?sax = ?D[n - 1 := ax25_address.make e]"
    "?sax\<lparr>fsa_digipeater := X\<rparr> = sax\<lparr>fsa_digipeater := X\<rparr>" for X
    using Cons.prems by (simp_all add: place_entry_def ax25_address.make_def)
  have step: "fill_loop n (d # ds) sax =
      (if 8 < n + 1 then Ret (Some (n + 1), ?sax) else fill_loop (n + 1) ds ?sax)"
    using Cons.hyps(1) Cons.prems by (auto simp: AX25_MAX_DIGIS_def)
  have t: "take n (?D[n - 1 := ax25_address.make e]) = take (n - 1) ?D @ [ax25_address.make e]"
    using Cons.prems by (cases n) (simp_all add: take_Suc_conv_app_nth)
  show ?case
  proof (cases "n = 8")
    case True
    then have "ds = []" "es = []" using Cons.prems Cons.hyps(2) by auto
    moreover have "?sax = sax\<lparr>fsa_digipeater := ?D[n - 1 := ax25_address.make e]\<rparr>"
      using Cons.prems by (simp add: place_entry_def ax25_address.make_def)
    ultimately show ?thesis using step True Cons.prems by (simp add: upd_conv_take_nth_drop)
  next
    case False
    then show ?thesis using step Cons.prems Cons.IH [of "n + 1" ?sax] t 
      by (simp add: D)
  qed
qed
lemma fill_loop_bounds:
  "fill_loop n toks sax = Ret (r, s) \<Longrightarrow> n \<le> 8 \<Longrightarrow>
     length (fsa_digipeater s) = length (fsa_digipeater sax) \<and>
     (\<forall>m. r = Some m \<longrightarrow> n \<le> m \<and> m \<le> 9 \<and> (n = 0 \<longrightarrow> toks \<noteq> [] \<longrightarrow> 1 \<le> m))"
proof (induction n toks sax rule: fill_loop.induct)
  case (1 n sax)
  then show ?case by auto
next
  case (2 n tok toks sax)
  have len: "length (fsa_digipeater (place_entry n e sax)) = length (fsa_digipeater sax)" for e
    by (simp add: place_entry_def)
  show ?case
  proof (cases "n = 1 \<and> is_via tok")
    case True
    then show ?thesis using 2 by simp
  next
    case False
    then obtain e where "encode_entry tok = Ret e" using "2.prems"
      by (auto split: outcome.splits)
    then show ?thesis using False 2 len
      by (cases e) (auto simp: AX25_MAX_DIGIS_def split: if_splits)
  qed
qed

section \<open>The callsign codec interface\<close>

text \<open>
  The two libraries have a callsign codec each (the preloaded library keeps its own copy). What
  their clients rely on is the same: canonical callsigns survive encoding and decoding, and
  letter case is ignored.
\<close>

locale callsign_codec =
  fixes enc :: "rstr \<Rightarrow> byte list option" and dec :: "byte list \<Rightarrow> rstr"
  assumes enc_canonical: "valid_base p \<Longrightarrow> n < 16 \<Longrightarrow> enc (call_text p n) = Some (addr_of p n)"
    and dec_canonical: "valid_base p \<Longrightarrow> n < 16 \<Longrightarrow> dec (addr_of p n) = call_text p n"
    and enc_upper: "enc (str_to_uppercase c) = enc c"
begin

lemma round_trip: "valid_base p \<Longrightarrow> n < 16 \<Longrightarrow> map_option dec (enc (call_text p n)) = Some (call_text p n)"
  by (simp add: enc_canonical dec_canonical)

lemma any_case_round_trip:
  assumes "valid_base p" and "n < 16" and "str_to_uppercase c = call_text p n"
  shows "map_option dec (enc c) = Some (call_text p n)"
  using round_trip [OF assms(1,2)] enc_upper [of c] assms(3) by simp

lemma enc_inj:
  assumes "valid_base p" "n < 16" "valid_base q" "m < 16"
    and "enc (call_text p n) = enc (call_text q m)"
  shows "p = q \<and> n = m"
  using assms by (metis dec_canonical enc_canonical option.inject call_text_inj)

lemma path_round_trip:
  "list_all (\<lambda>(p, n). valid_base p \<and> n < 16) path \<Longrightarrow>
     map (\<lambda>(p, n). map_option dec (enc (call_text p n))) path = map (\<lambda>(p, n). Some (call_text p n)) path"
  by (auto simp: list_all_iff enc_canonical dec_canonical)

end

interpretation entry_codec: callsign_codec
  "\<lambda>c. case encode_entry c of Ret r \<Rightarrow> r | Panic \<Rightarrow> None" decode_entry
  by unfold_locales (simp_all add: encode_call_text decode_addr_of encode_entry_upper)

lemma encode_with_ssid:
  assumes "valid_base p"
  shows "encode_entry (p @ 0x2D # dec_digits n) =
    (let v = word_of_nat n :: 32 word in
     if 0 \<le> sint v \<and> sint v \<le> 15 then Ret (Some (shift_call p @ [shl1 (scast v)])) else Ret None)"
proof -
  have al: "list_all is_ascii_alphanumeric p"
    using assms by (auto simp: valid_base_def list_all_iff upper_or_digit_byte)
  have p: "call_prefix (p @ 0x2D # dec_digits n) = p"
  proof -
    have "takeWhile (\<lambda>b. b \<noteq> 0x2D) (p @ 0x2D # dec_digits n) = p"
      using assms by (subst takeWhile_append2) (auto simp: valid_base_def list_all_iff upper_or_digit_byte)
    then show ?thesis using assms unfolding call_prefix_def take_takeWhile by (simp add: valid_base_def)
  qed
  show ?thesis
    using al dec_digits_digits(2) [of n] hd_dec_digits [of n] scan_int_dec_digits [of n]
    by (simp add: encode_entry_flat encode_flat_def p Let_def)
qed

section \<open>Properties\<close>

text \<open>C29 (callsign round trip). A canonical callsign (at most six upper-case letters or digits,
  SSID 0 to 15 printed as \<open>-n\<close> when not zero) encodes to its shifted 7-byte address, and that
  address decodes to the same text.\<close>

theorem callsign_round_trip:
  assumes "valid_base p" and "n < 16"
  shows "encode_entry (call_text p n) = Ret (Some (addr_of p n)) \<and>
    decode_entry (addr_of p n) = call_text p n"
  using assms by (simp add: encode_call_text decode_addr_of)

theorem callsign_round_trip_witness:
  "encode_entry (ascii ''GB7RDG-15'') = Ret (Some [0x8E, 0x84, 0x6E, 0xA4, 0x88, 0x8E, 0x1E]) \<and>
   decode_entry [0x8E, 0x84, 0x6E, 0xA4, 0x88, 0x8E, 0x1E] = ascii ''GB7RDG-15''"
proof -
  have v: "valid_base (ascii ''GB7RDG'')" by code_simp
  have t: "call_text (ascii ''GB7RDG'') 15 = ascii ''GB7RDG-15''"
    and a: "addr_of (ascii ''GB7RDG'') 15 = [0x8E, 0x84, 0x6E, 0xA4, 0x88, 0x8E, 0x1E]"
    by code_simp+
  show ?thesis using callsign_round_trip [OF v, of 15] by (simp add: t a)
qed

text \<open>C30 (encoder specification). The two loops, the index arithmetic and the integer scan of
  \<open>encode_entry\<close> compute, on every input, exactly the specification \<open>encode_ref\<close>, which reads the
  SSID as a decimal number: a sum of digits times powers of ten, reduced to 32 bits.\<close>

theorem encode_entry_meets_spec: "encode_entry name = encode_ref name"
  by (simp add: encode_entry_flat encode_flat_ref)

text \<open>Encoded addresses are canonical. Whatever \<open>encode_entry\<close> accepts becomes a 7-byte
  address that \<open>validate_entry\<close> accepts, whose last byte has only SSID bits set, and that
  decoding and encoding again gives back.\<close>

theorem encode_entry_canonical:
  assumes "encode_entry name = Ret (Some a)"
  shows "length a = 7 \<and> validate_entry a \<and> a ! 6 AND 0xE1 = 0 \<and>
    encode_entry (decode_entry a) = Ret (Some a)"
proof -
  obtain p n where p: "valid_base p" "n < 16" "a = addr_of p n"
    using encode_entry_wf [OF assms] by metis
  moreover have "shl1 (word_of_nat n) AND 0xE1 = (0::byte)"
  proof -
    have "\<forall>n \<in> set [0..<16]. shl1 (word_of_nat n) AND 0xE1 = (0::byte)" by code_simp
    then show ?thesis using p(2) by (metis atLeast0LessThan lessThan_iff set_upt)
  qed
  ultimately show ?thesis
    by (simp add: nth_addr_of validate_addr_of encode_call_text decode_addr_of)
qed

theorem encode_entry_canonical_witness:
  "encode_entry (ascii ''m0lte-1'') = Ret (Some [0x9A, 0x60, 0x98, 0xA8, 0x8A, 0x40, 0x02]) \<and>
   validate_entry [0x9A, 0x60, 0x98, 0xA8, 0x8A, 0x40, 0x02]"
proof -
  have "encode_entry (ascii ''m0lte-1'') = Ret (Some [0x9A, 0x60, 0x98, 0xA8, 0x8A, 0x40, 0x02])"
    by code_simp
  with encode_entry_canonical [OF this] show ?thesis by blast
qed

text \<open>C31 (when the encoder panics). On a well-formed string \<open>encode_entry\<close> panics exactly when
  six alphanumeric bytes are followed by a non-ASCII character: the byte index of the SSID text
  then falls inside that character.\<close>

theorem encode_entry_panics:
  assumes "utf8_valid name"
  shows "encode_entry name = Panic \<longleftrightarrow>
    6 < length name \<and> list_all is_ascii_alphanumeric (take 6 name) \<and> 0x80 \<le> name ! 6"
  using assms by (rule encode_entry_panic_iff)

theorem encode_entry_panics_witness:
  "utf8_valid (ascii ''GB7RDG'' @ [0xC3, 0xA9]) \<and>
   encode_entry (ascii ''GB7RDG'' @ [0xC3, 0xA9]) = Panic"
proof -
  have v: "utf8_valid (ascii ''GB7RDG'' @ [0xC3, 0xA9])" by code_simp
  have "6 < length (ascii ''GB7RDG'' @ [0xC3, 0xA9]) \<and>
    list_all is_ascii_alphanumeric (take 6 (ascii ''GB7RDG'' @ [0xC3, 0xA9])) \<and>
    0x80 \<le> (ascii ''GB7RDG'' @ [0xC3, 0xA9]) ! 6" by code_simp
  with encode_entry_panics [OF v] v show ?thesis by blast
qed

text \<open>SSID truncation. The SSID is scanned into a 64-bit value of which the low 32 bits are
  kept, so an SSID that is out of range by a multiple of \<open>2^32\<close> is accepted as a small one.\<close>

theorem encode_entry_ssid_wraps:
  assumes "valid_base p" and "n < 16"
  shows "encode_entry (p @ 0x2D # dec_digits (n + k * 2 ^ 32)) = Ret (Some (addr_of p n))"
proof -
  have "word_of_nat (n + k * 2 ^ 32) = (word_of_nat n :: 32 word)"
  proof -
    have "(2 ^ 32 :: 32 word) = 0" by simp
    then show ?thesis by (simp only: of_nat_add of_nat_mult of_nat_power of_nat_numeral) simp
  qed
  then show ?thesis
    using encode_with_ssid [OF assms(1), of "n + k * 2 ^ 32"] ssid_value [OF assms(2)] assms(2)
    by (simp add: addr_of_def)
qed

theorem encode_entry_ssid_wraps_witness:
  "encode_entry (ascii ''M0LTE-4294967297'') = Ret (Some (addr_of (ascii ''M0LTE'') 1))"
proof -
  have v: "valid_base (ascii ''M0LTE'')" by code_simp
  have t: "ascii ''M0LTE'' @ 0x2D # dec_digits (1 + 1 * 2 ^ 32) = ascii ''M0LTE-4294967297''"
    by (simp add: dec_digits.simps ascii_def)
  show ?thesis using encode_entry_ssid_wraps [OF v, of 1 1] unfolding t by simp
qed

text \<open>Address comparison. On canonical addresses \<open>cmp_entry\<close> answers 1 for different
  callsigns, 2 for the same callsign with different SSIDs, and 0 for the same address.\<close>

theorem cmp_entry_decides:
  assumes "valid_base p" and "valid_base q" and "n < 16" and "m < 16"
  shows "cmp_entry (addr_of p n) (addr_of q m) = (if p \<noteq> q then 1 else if n \<noteq> m then 2 else 0)"
  using assms by (rule cmp_addr_of)

theorem cmp_entry_decides_witness:
  "cmp_entry (addr_of (ascii ''M0LTE'') 1) (addr_of (ascii ''M0LTE'') 2) = 2"
proof -
  have v: "valid_base (ascii ''M0LTE'')" by code_simp
  show ?thesis using cmp_entry_decides [OF v v, of 1 2] by simp
qed

text \<open>C32 (digipeater path). A callsign and up to eight digipeaters fill the socket address in
  order, set the digipeater count and the family and leave the other slots as they were; one
  \<open>V\<close> or \<open>VIA\<close> after the callsign changes nothing.\<close>

theorem fill_sax_path:
  assumes "encode_entry c = Ret (Some a)" and "list_all2 enc_ok ds es" and "length ds \<le> 8"
    and "ds = [] \<or> \<not> is_via (hd ds)" and "is_via v" and "length (fsa_digipeater sax) = 8"
  shows "fill_sax (c # ds) sax = Ret (72, \<lparr>fsa_ax25 = \<lparr>sax25_family = 3,
      sax25_call = \<lparr>ax25_call = a\<rparr>, sax25_ndigis = int (length ds)\<rparr>,
      fsa_digipeater = map ax25_address.make es @ drop (length ds) (fsa_digipeater sax)\<rparr>) \<and>
    fill_sax (c # v # ds) sax = fill_sax (c # ds) sax"
proof -
  let ?sax = "place_entry 0 a sax"
  have len: "length (fsa_digipeater ?sax) = 8" using assms(6) by (simp add: place_entry_def)
  have "fill_loop 1 ds ?sax = Ret (Some (1 + length ds), ?sax\<lparr>fsa_digipeater :=
      map ax25_address.make es @ drop (length ds) (fsa_digipeater ?sax)\<rparr>)"
    using fill_loop_digis [OF assms(2) _ _ _ len, of 1] assms(3,4) by auto
  moreover have "fill_loop 0 (c # ts) sax = fill_loop 1 ts ?sax" for ts
    using assms(1) by (simp add: AX25_MAX_DIGIS_def)
  moreover have "fill_loop 1 (v # ds) ?sax = fill_loop 1 ds ?sax" using assms(5) by simp
  ultimately show ?thesis
    by (simp add: fill_sax_def place_entry_def size_of_full_sockaddr_ax25_def
        size_of_sockaddr_ax25_def AX25_MAX_DIGIS_def AF_AX25_def)
qed

theorem fill_sax_path_witness:
  "\<exists>s. fill_sax [ascii ''M0LTE'', ascii ''via'', ascii ''G0ABC'', ascii ''GB7RDG-1''] blank_sax = Ret (72, s) \<and>
     sax25_ndigis (fsa_ax25 s) = 2"
proof -
  let ?es = "[addr_of (ascii ''G0ABC'') 0, addr_of (ascii ''GB7RDG'') 1]"
  have c: "encode_entry (ascii ''M0LTE'') = Ret (Some (addr_of (ascii ''M0LTE'') 0))" by code_simp
  have d: "list_all2 enc_ok [ascii ''G0ABC'', ascii ''GB7RDG-1''] ?es" by code_simp
  have n: "[ascii ''G0ABC'', ascii ''GB7RDG-1''] = [] \<or> \<not> is_via (hd [ascii ''G0ABC'', ascii ''GB7RDG-1''])"
    by code_simp
  have v: "is_via (ascii ''via'')" by code_simp
  have l: "length (fsa_digipeater blank_sax) = 8" by code_simp
  show ?thesis using fill_sax_path [OF c d _ n v l] by simp
qed

text \<open>Socket address bounds. Whatever the tokens, \<open>fill_sax\<close> never changes the number of
  digipeater slots, and on success reports between 0 and 8 digipeaters.\<close>

theorem fill_sax_bounded:
  assumes "fill_sax toks sax = Ret (r, s)"
  shows "length (fsa_digipeater s) = length (fsa_digipeater sax) \<and>
    (r = -1 \<or> (r = 72 \<and> sax25_family (fsa_ax25 s) = 3 \<and>
       0 \<le> sax25_ndigis (fsa_ax25 s) \<and> sax25_ndigis (fsa_ax25 s) \<le> 8))"
proof -
  define ts where "ts = (if toks = [] then [[]] else toks)"
  have ne: "ts \<noteq> []" by (simp add: ts_def)
  obtain m s' where m: "fill_loop 0 ts sax = Ret (m, s')"
    using assms unfolding fill_sax_def ts_def [symmetric] Let_def
    by (auto split: outcome.splits prod.splits)
  have "length (fsa_digipeater s') = length (fsa_digipeater sax) \<and>
     (\<forall>k. m = Some k \<longrightarrow> 1 \<le> k \<and> k \<le> 9)"
    using fill_loop_bounds [OF m] ne by auto
  then show ?thesis
    using assms unfolding fill_sax_def ts_def [symmetric] Let_def m
    by (cases m) (auto simp: size_of_full_sockaddr_ax25_def size_of_sockaddr_ax25_def
        AX25_MAX_DIGIS_def AF_AX25_def)
qed

theorem fill_sax_bounded_witness:
  "\<exists>s. fill_sax (replicate 12 (ascii ''M0LTE'')) blank_sax = Ret (72, s) \<and>
     sax25_ndigis (fsa_ax25 s) \<le> 8"
proof -
  have "(case fill_sax (replicate 12 (ascii ''M0LTE'')) blank_sax of Ret (r, s) \<Rightarrow> r = 72 | Panic \<Rightarrow> False)"
    by code_simp
  then obtain s where s: "fill_sax (replicate 12 (ascii ''M0LTE'')) blank_sax = Ret (72, s)"
    by (auto split: outcome.splits prod.splits)
  with fill_sax_bounded [OF s] show ?thesis by auto
qed

text \<open>Printed addresses fit. \<open>ax25_ntoa\<close> never truncates: the text has at most nine bytes,
  and the 16-byte buffer holds it, then a NUL, then its old contents.\<close>

theorem ax25_ntoa_complete:
  "ax25_ntoa (Some adr) buf = decode_entry (ax25_call adr) @ [0] @
     drop (length (decode_entry (ax25_call adr)) + 1) buf \<and> length (decode_entry (ax25_call adr)) \<le> 9"
  using length_decode_entry [of "ax25_call adr"] by (simp add: ax25_ntoa_def Let_def min_def)
end
