(* ===== verification/Ax25_Config.thy ===== *)
theory Ax25_Config
  imports Ax25_Addr
begin

text \<open>
  \<^verbatim>\<open>crates/libax25/src/config.rs\<close>: the \<^verbatim>\<open>axports\<close> and \<^verbatim>\<open>ax25_calls\<close> parsers, the
  process-wide tables they fill and the lookups of the C interface. The tables are a state
  record that every operation takes and returns; the environment variables and the files the
  code reads are a record argument. A returned \<^verbatim>\<open>char *\<close> is the string it points to.
\<close>

section \<open>Definitions\<close>

subsection \<open>Parsing axports\<close>

record parsed_port =
  pp_name :: rstr
  pp_call :: rstr
  pp_baud :: int
  pp_paclen :: int
  pp_window :: int
  pp_description :: rstr

definition pop_token :: "rstr \<Rightarrow> rstr option \<times> rstr" where
  "pop_token rest =
     (let s = trim_start rest in
      if s = [] then (None, s)
      else (let tok = takeWhile (\<lambda>c. c \<noteq> 0x20 \<and> c \<noteq> 0x09) s in (Some tok, drop (length tok) s)))"

text \<open>The callsign of a line: upper-cased and cut at the first \<^verbatim>\<open>"-0"\<close>.\<close>

definition normal_call :: "rstr \<Rightarrow> rstr" where
  "normal_call tok =
     (let call = str_to_uppercase tok in
      case find_sub [0x2D, 0x30] call of Some pos \<Rightarrow> take pos call | None \<Rightarrow> call)"

text \<open>The five fields and the description of a line, before any of them is checked.\<close>

definition line_fields :: "rstr \<Rightarrow> rstr option \<times> rstr option \<times> rstr option \<times> rstr option \<times>
    rstr option \<times> rstr" where
  "line_fields trimmed =
     (case pop_token trimmed of (nm, r1) \<Rightarrow>
      case pop_token r1 of (cl, r2) \<Rightarrow>
      case pop_token r2 of (bd, r3) \<Rightarrow>
      case pop_token r3 of (pl, r4) \<Rightarrow>
      case pop_token r4 of (wd, r5) \<Rightarrow> (nm, cl, bd, pl, wd, trim r5))"

text \<open>One line of the loop: \<open>Some\<close> of the port that is pushed, \<open>None\<close> for a skipped line.\<close>

definition parse_axports_line :: "parsed_port list \<Rightarrow> rstr \<Rightarrow> parsed_port option outcome" where
  "parse_axports_line out raw =
     (let line = trim_end_matches 0x0D raw; trimmed = trim_start line in
      if trimmed = [] \<or> hd trimmed = 0x23 then Ret None
      else (case line_fields trimmed of
          (Some n, Some c, Some b, Some p, Some w, desc) \<Rightarrow>
            if desc = [] then Ret None
            else (let baud = unwrap_or (-1) (parse_i32 b);
                      paclen = unwrap_or 0 (parse_i32 p);
                      window = unwrap_or 0 (parse_i32 w) in
              if baud < 0 \<or> paclen \<le> 0 \<or> window \<le> 0 then Ret None
              else (let call = normal_call c in
                case encode_entry call of
                  Panic \<Rightarrow> Panic
                | Ret None \<Rightarrow> Ret None
                | Ret (Some _) \<Rightarrow>
                    if list_ex (\<lambda>q. eq_ignore_ascii_case (pp_name q) n \<or> pp_call q = call) out
                    then Ret None
                    else Ret (Some \<lparr>pp_name = n, pp_call = call, pp_baud = baud, pp_paclen = paclen,
                                    pp_window = window, pp_description = desc\<rparr>)))
        | _ \<Rightarrow> Ret None))"

fun parse_axports_lines :: "parsed_port list \<Rightarrow> rstr list \<Rightarrow> parsed_port list outcome" where
  "parse_axports_lines out [] = Ret out"
| "parse_axports_lines out (raw # raws) =
     (case parse_axports_line out raw of
        Panic \<Rightarrow> Panic
      | Ret None \<Rightarrow> parse_axports_lines out raws
      | Ret (Some p) \<Rightarrow> parse_axports_lines (out @ [p]) raws)"

definition parse_axports :: "rstr \<Rightarrow> parsed_port list outcome" where
  "parse_axports content = parse_axports_lines [] (str_lines content)"

subsection \<open>The port table\<close>

record cport =
  cp_name :: rstr
  cp_call :: rstr
  cp_device :: rstr
  cp_description :: rstr
  cp_name_s :: rstr
  cp_call_s :: rstr
  cp_device_s :: rstr
  cp_baud :: int
  cp_window :: int
  cp_paclen :: int

record ccall_entry =
  cc_uid :: int
  cc_call :: rstr

record config_state =
  cfg_ports :: "cport list"
  cfg_calls :: "ccall_entry list"
  cfg_env_call :: "rstr option"

text \<open>What the process environment and the file system answer.\<close>

record config_env =
  env_var :: "string \<Rightarrow> rstr option"
  read_to_string :: "rstr \<Rightarrow> rstr option"

definition axports_path :: "config_env \<Rightarrow> rstr" where
  "axports_path e = unwrap_or (ascii ''/etc/ax25/axports'') (env_var e ''AX25_AXPORTS'')"

definition cport_of :: "parsed_port \<Rightarrow> cport" where
  "cport_of p = (let device = pp_name p in
     \<lparr>cp_name = unwrap_or [] (cstring_new (pp_name p)),
      cp_call = unwrap_or [] (cstring_new (pp_call p)),
      cp_device = unwrap_or [] (cstring_new device),
      cp_description = unwrap_or [] (cstring_new (pp_description p)),
      cp_name_s = pp_name p, cp_call_s = pp_call p, cp_device_s = device,
      cp_baud = pp_baud p, cp_window = pp_window p, cp_paclen = pp_paclen p\<rparr>)"

definition ax25_config_load_ports :: "config_env \<Rightarrow> config_state \<Rightarrow> (int \<times> config_state) outcome" where
  "ax25_config_load_ports e st =
     (if cfg_ports st \<noteq> [] then Ret (int (length (cfg_ports st)), st)
      else (case read_to_string e (axports_path e) of
          None \<Rightarrow> Ret (0, st)
        | Some content \<Rightarrow>
            (case parse_axports content of
               Panic \<Rightarrow> Panic
             | Ret ps \<Rightarrow>
                 (let guard = cfg_ports st @ map cport_of ps
                  in Ret (int (length guard), st\<lparr>cfg_ports := guard\<rparr>)))))"

subsection \<open>Lookups\<close>

definition norm_call :: "rstr \<Rightarrow> rstr" where
  "norm_call s =
     (let s = str_to_uppercase s in
      case split_once 0x2D s of
        Some (base, ssid) \<Rightarrow> if ssid = [0x30] then base else s
      | None \<Rightarrow> s)"

definition is_same_call :: "rstr \<Rightarrow> rstr \<Rightarrow> bool" where
  "is_same_call a b \<longleftrightarrow> norm_call a = norm_call b"

definition port_matches :: "rstr \<Rightarrow> cport \<Rightarrow> bool" where
  "port_matches query p \<longleftrightarrow>
     eq_ignore_ascii_case (cp_name_s p) query \<or> is_same_call (cp_call_s p) query"

definition find_index :: "cport list \<Rightarrow> rstr \<Rightarrow> nat option" where
  "find_index guard query = position (port_matches query) guard"

definition cstr_arg :: "byte list option \<Rightarrow> rstr option" where
  "cstr_arg p = (case p of None \<Rightarrow> None | Some q \<Rightarrow> cstr_to_str q)"

definition ax25_config_get_next :: "config_state \<Rightarrow> byte list option \<Rightarrow> rstr option" where
  "ax25_config_get_next st name =
     (let guard = cfg_ports st in
      if guard = [] then None
      else (case name of
          None \<Rightarrow> Some (cp_name (guard ! 0))
        | Some _ \<Rightarrow>
            (case cstr_arg name of
               None \<Rightarrow> None
             | Some q \<Rightarrow>
                 (case find_index guard q of
                    Some i \<Rightarrow> if i + 1 < length guard then Some (cp_name (guard ! (i + 1))) else None
                  | None \<Rightarrow> None))))"

definition ax25_config_get_name :: "config_state \<Rightarrow> byte list option \<Rightarrow> rstr option" where
  "ax25_config_get_name st device =
     (case cstr_arg device of
        None \<Rightarrow> None
      | Some dev \<Rightarrow> map_option cp_name (List.find (\<lambda>p. cp_device_s p = dev) (cfg_ports st)))"

text \<open>The shape the other name lookups share: a field of the port that matches, or a default.\<close>

definition port_field :: "config_state \<Rightarrow> (cport \<Rightarrow> 'a) \<Rightarrow> byte list option \<Rightarrow> 'a option" where
  "port_field st f name =
     (case cstr_arg name of
        None \<Rightarrow> None
      | Some q \<Rightarrow> map_option (\<lambda>i. f (cfg_ports st ! i)) (find_index (cfg_ports st) q))"

definition ax25_config_get_addr :: "config_state \<Rightarrow> byte list option \<Rightarrow> rstr option" where
  "ax25_config_get_addr st name = port_field st cp_call name"

definition ax25_config_get_dev :: "config_state \<Rightarrow> byte list option \<Rightarrow> rstr option" where
  "ax25_config_get_dev st name = port_field st cp_device name"

definition ax25_config_get_desc :: "config_state \<Rightarrow> byte list option \<Rightarrow> rstr option" where
  "ax25_config_get_desc st name = port_field st cp_description name"

definition ax25_config_get_window :: "config_state \<Rightarrow> byte list option \<Rightarrow> int" where
  "ax25_config_get_window st name = unwrap_or 0 (port_field st cp_window name)"

definition ax25_config_get_paclen :: "config_state \<Rightarrow> byte list option \<Rightarrow> int" where
  "ax25_config_get_paclen st name = unwrap_or 0 (port_field st cp_paclen name)"

definition ax25_config_get_baud :: "config_state \<Rightarrow> byte list option \<Rightarrow> int" where
  "ax25_config_get_baud st name = unwrap_or 0 (port_field st cp_baud name)"

fun port_with_addr :: "ax25_address \<Rightarrow> cport list \<Rightarrow> rstr option outcome" where
  "port_with_addr callsign [] = Ret None"
| "port_with_addr callsign (p # ps) =
     (case encode_entry (cp_call_s p) of
        Panic \<Rightarrow> Panic
      | Ret None \<Rightarrow> port_with_addr callsign ps
      | Ret (Some entry) \<Rightarrow>
          if ax25_cmp (Some callsign) (Some \<lparr>ax25_call = entry\<rparr>) = 0 then Ret (Some (cp_name p))
          else port_with_addr callsign ps)"

definition ax25_config_get_port :: "config_state \<Rightarrow> ax25_address option \<Rightarrow> rstr option outcome" where
  "ax25_config_get_port st callsign =
     (case callsign of
        None \<Rightarrow> Ret None
      | Some c \<Rightarrow>
          if ax25_cmp callsign (Some null_ax25_address) = 0 then Ret (Some (ascii ''*''))
          else port_with_addr c (cfg_ports st))"

subsection \<open>The uid table and get_call\<close>

record call_entry =
  ce_uid :: int
  ce_call :: rstr

definition parse_calls_line :: "call_entry list \<Rightarrow> rstr \<Rightarrow> call_entry option outcome" where
  "parse_calls_line out raw =
     (let line = trim_end_matches 0x0D raw; trimmed = trim_start line in
      if trimmed = [] \<or> hd trimmed = 0x23 then Ret None
      else (case pop_token trimmed of (uid_tok, r1) \<Rightarrow>
            case pop_token r1 of (call_tok, r2) \<Rightarrow>
            case (uid_tok, call_tok) of
              (Some u, Some c) \<Rightarrow>
                (case parse_i32 u of
                   None \<Rightarrow> Ret None
                 | Some uid \<Rightarrow>
                     (let call = str_to_uppercase c in
                      case encode_entry call of
                        Panic \<Rightarrow> Panic
                      | Ret None \<Rightarrow> Ret None
                      | Ret (Some _) \<Rightarrow>
                          if list_ex (\<lambda>e. ce_uid e = uid) out then Ret None
                          else Ret (Some \<lparr>ce_uid = uid, ce_call = call\<rparr>)))
            | _ \<Rightarrow> Ret None))"

fun parse_calls_lines :: "call_entry list \<Rightarrow> rstr list \<Rightarrow> call_entry list outcome" where
  "parse_calls_lines out [] = Ret out"
| "parse_calls_lines out (raw # raws) =
     (case parse_calls_line out raw of
        Panic \<Rightarrow> Panic
      | Ret None \<Rightarrow> parse_calls_lines out raws
      | Ret (Some p) \<Rightarrow> parse_calls_lines (out @ [p]) raws)"

definition parse_calls :: "rstr \<Rightarrow> call_entry list outcome" where
  "parse_calls content = parse_calls_lines [] (str_lines content)"

definition calls_path :: "config_env \<Rightarrow> rstr" where
  "calls_path e = unwrap_or (ascii ''/etc/ax25/ax25_calls'') (env_var e ''AX25_CALLS'')"

definition ccall_of :: "call_entry \<Rightarrow> ccall_entry" where
  "ccall_of e = \<lparr>cc_uid = ce_uid e, cc_call = unwrap_or [] (cstring_new (ce_call e))\<rparr>"

definition load_calls :: "config_env \<Rightarrow> config_state \<Rightarrow> config_state outcome" where
  "load_calls e st =
     (if cfg_calls st \<noteq> [] then Ret st
      else (case read_to_string e (calls_path e) of
          None \<Rightarrow> Ret st
        | Some content \<Rightarrow>
            (case parse_calls content of
               Panic \<Rightarrow> Panic
             | Ret es \<Rightarrow> Ret (st\<lparr>cfg_calls := cfg_calls st @ map ccall_of es\<rparr>))))"

text \<open>
  \<^verbatim>\<open>get_call\<close>: the environment override (cached at its first use), then the uid table, then
  the first port.
\<close>

definition env_override :: "config_env \<Rightarrow> config_state \<Rightarrow> rstr option \<times> config_state" where
  "env_override e st =
     (case env_var e ''AX25_CALLSIGN'' of
        None \<Rightarrow> (None, st)
      | Some call \<Rightarrow>
          if call = [] then (None, st)
          else (let slot = (case cfg_env_call st of None \<Rightarrow> cstring_new call | Some c \<Rightarrow> Some c)
                in (slot, st\<lparr>cfg_env_call := slot\<rparr>)))"

definition get_call :: "config_env \<Rightarrow> int \<Rightarrow> config_state \<Rightarrow> (rstr option \<times> config_state) outcome" where
  "get_call e uid st =
     (case env_override e st of
        (Some c, st1) \<Rightarrow> Ret (Some c, st1)
      | (None, st1) \<Rightarrow>
          (case load_calls e st1 of
             Panic \<Rightarrow> Panic
           | Ret st2 \<Rightarrow>
               (case List.find (\<lambda>x. cc_uid x = uid) (cfg_calls st2) of
                  Some x \<Rightarrow> Ret (Some (cc_call x), st2)
                | None \<Rightarrow>
                    (case cfg_ports st2 of
                       p # _ \<Rightarrow> Ret (Some (cp_call p), st2)
                     | [] \<Rightarrow> Ret (None, st2)))))"

subsection \<open>A sample configuration\<close>

text \<open>A sample file, its ports and a fresh process that can read it.\<close>

definition sample_axports :: rstr where
  "sample_axports = ascii ''# axports\<newline>radio M0LTE-1 9600 255 4 2m packet\<newline>hf gb7rdg-0 1200 128 2 HF\<newline>RADIO G0ABC 9600 255 4 dup\<newline>''"

definition sample_ports :: "parsed_port list" where
  "sample_ports =
    [\<lparr>pp_name = ascii ''radio'', pp_call = ascii ''M0LTE-1'', pp_baud = 9600, pp_paclen = 255,
      pp_window = 4, pp_description = ascii ''2m packet''\<rparr>,
     \<lparr>pp_name = ascii ''hf'', pp_call = ascii ''GB7RDG'', pp_baud = 1200, pp_paclen = 128,
      pp_window = 2, pp_description = ascii ''HF''\<rparr>]"

definition fresh_config :: config_state where
  "fresh_config = \<lparr>cfg_ports = [], cfg_calls = [], cfg_env_call = None\<rparr>"

definition sample_env :: config_env where
  "sample_env = \<lparr>env_var = (\<lambda>v. None),
     read_to_string = (\<lambda>f. if f = ascii ''/etc/ax25/axports'' then Some sample_axports else None)\<rparr>"

abbreviation sample_config :: config_state where
  "sample_config \<equiv> fresh_config\<lparr>cfg_ports := map cport_of sample_ports\<rparr>"

section \<open>Line-oriented tables\<close>

text \<open>
  Both files are read by the same scheme: a line is skipped or adds an entry that is well formed
  and does not clash with the entries before it. What follows for the whole table is proved once.
\<close>

locale line_table =
  fixes line :: "'e list \<Rightarrow> rstr \<Rightarrow> 'e option outcome"
    and lines :: "'e list \<Rightarrow> rstr list \<Rightarrow> 'e list outcome"
    and ok :: "'e \<Rightarrow> bool" and clash :: "'e \<Rightarrow> 'e \<Rightarrow> bool"
  assumes lines_Nil: "lines out [] = Ret out"
    and lines_Cons: "lines out (raw # raws) = (case line out raw of Panic \<Rightarrow> Panic
        | Ret None \<Rightarrow> lines out raws | Ret (Some p) \<Rightarrow> lines (out @ [p]) raws)"
    and line_ok: "line out raw = Ret (Some p) \<Longrightarrow> ok p"
    and line_fresh: "line out raw = Ret (Some p) \<Longrightarrow> q \<in> set out \<Longrightarrow> \<not> clash q p"
begin

definition table_ok :: "'e list \<Rightarrow> bool" where
  "table_ok ps \<longleftrightarrow> list_all ok ps \<and> sorted_wrt (\<lambda>q p. \<not> clash q p) ps"

lemma table_ok_Nil: "table_ok []"
  by (simp add: table_ok_def)

lemma table_ok_snoc: "table_ok out \<Longrightarrow> line out raw = Ret (Some p) \<Longrightarrow> table_ok (out @ [p])"
  by (auto simp: table_ok_def sorted_wrt_append line_ok line_fresh)

lemma lines_table_ok: "lines out raws = Ret ps \<Longrightarrow> table_ok out \<Longrightarrow> table_ok ps"
proof (induction raws arbitrary: out)
  case Nil
  then show ?case by (simp add: lines_Nil)
next
  case (Cons raw raws)
  then obtain r where r: "line out raw = Ret r" by (cases "line out raw") (auto simp: lines_Cons)
  then show ?case using Cons table_ok_snoc by (cases r) (auto simp: lines_Cons)
qed

lemma lines_append: "lines out (xs @ ys) = bind_out (lines out xs) (\<lambda>o1. lines o1 ys)"
proof (induction xs arbitrary: out)
  case (Cons x xs)
  then show ?case by (auto simp: lines_Cons split: outcome.splits option.splits)
qed (simp add: lines_Nil)

lemma lines_extend: "lines out raws = Ret ps \<Longrightarrow> \<exists>ms. ps = out @ ms"
proof (induction raws arbitrary: out)
  case (Cons raw raws)
  then show ?case by (fastforce simp: lines_Cons split: outcome.splits option.splits)
qed (simp add: lines_Nil)

end

definition port_ok :: "parsed_port \<Rightarrow> bool" where
  "port_ok p \<longleftrightarrow> 0 \<le> pp_baud p \<and> 0 < pp_paclen p \<and> 0 < pp_window p \<and> pp_description p \<noteq> [] \<and>
     str_to_uppercase (pp_call p) = pp_call p \<and> (\<exists>a. encode_entry (pp_call p) = Ret (Some a))"

definition port_clash :: "parsed_port \<Rightarrow> parsed_port \<Rightarrow> bool" where
  "port_clash q p \<longleftrightarrow> eq_ignore_ascii_case (pp_name q) (pp_name p) \<or> pp_call q = pp_call p"

definition call_ok :: "call_entry \<Rightarrow> bool" where
  "call_ok e \<longleftrightarrow> str_to_uppercase (ce_call e) = ce_call e \<and>
     - (2 ^ 31) \<le> ce_uid e \<and> ce_uid e < 2 ^ 31 \<and> (\<exists>a. encode_entry (ce_call e) = Ret (Some a))"

lemma normal_call_upper: "str_to_uppercase (normal_call c) = normal_call c"
  by (auto simp: normal_call_def str_to_uppercase_def Let_def take_map o_def split: option.splits)

lemma upper_upper: "str_to_uppercase (str_to_uppercase c) = str_to_uppercase c"
  by (simp add: str_to_uppercase_def)

lemma axports_line_pushes:
  assumes "parse_axports_line out raw = Ret (Some p)"
  shows "port_ok p" and "q \<in> set out \<Longrightarrow> \<not> port_clash q p"
  using assms
  by (auto simp: parse_axports_line_def Let_def port_ok_def port_clash_def normal_call_upper list_ex_iff
      split: if_splits prod.splits option.splits outcome.splits)

lemma calls_line_pushes:
  assumes "parse_calls_line out raw = Ret (Some p)"
  shows "call_ok p" and "q \<in> set out \<Longrightarrow> ce_uid q \<noteq> ce_uid p"
  using assms
  by (auto simp: parse_calls_line_def Let_def call_ok_def upper_upper list_ex_iff parse_i32_def
      split: if_splits prod.splits option.splits outcome.splits)

interpretation axports: line_table parse_axports_line parse_axports_lines port_ok port_clash
  by unfold_locales (auto dest: axports_line_pushes)

interpretation calls: line_table parse_calls_line parse_calls_lines call_ok "\<lambda>q p. ce_uid q = ce_uid p"
  by unfold_locales (auto dest: calls_line_pushes)

section \<open>Lookups in a loaded table\<close>

lemma find_index_first:
  assumes "i < length ports" and "port_matches q (ports ! i)"
    and "\<And>j. j < i \<Longrightarrow> \<not> port_matches q (ports ! j)"
  shows "find_index ports q = Some i"
  using assms by (auto simp: find_index_def position_Some_iff)

lemma find_index_sound: "find_index ports q = Some i \<Longrightarrow> i < length ports \<and> port_matches q (ports ! i)"
  by (auto simp: find_index_def position_Some_iff)

lemma cstr_arg_Some [simp]: "utf8_valid q \<Longrightarrow> cstr_arg (Some q) = Some q"
  by (simp add: cstr_arg_def cstr_to_str_def)

text \<open>A port name is reached by its own name when no earlier port answers to it.\<close>

definition name_reaches :: "cport list \<Rightarrow> nat \<Rightarrow> bool" where
  "name_reaches ports i \<longleftrightarrow> utf8_valid (cp_name_s (ports ! i)) \<and> cp_name (ports ! i) = cp_name_s (ports ! i) \<and>
     (\<forall>j<i. \<not> port_matches (cp_name_s (ports ! i)) (ports ! j))"

lemma name_reaches_index:
  "name_reaches ports i \<Longrightarrow> i < length ports \<Longrightarrow> find_index ports (cp_name (ports ! i)) = Some i"
  by (rule find_index_first) (auto simp: name_reaches_def port_matches_def)

text \<open>The loop an application writes over the ports, cut off after \<open>k\<close> calls.\<close>

fun port_walk :: "nat \<Rightarrow> config_state \<Rightarrow> byte list option \<Rightarrow> rstr list" where
  "port_walk 0 st name = []"
| "port_walk (Suc k) st name =
     (case ax25_config_get_next st name of None \<Rightarrow> [] | Some n \<Rightarrow> n # port_walk k st (Some n))"

text \<open>No port is named like the callsign of an earlier one.\<close>

definition names_clear :: "cport list \<Rightarrow> bool" where
  "names_clear ports \<longleftrightarrow> (\<forall>i < length ports. \<forall>j < i. \<not> is_same_call (cp_call_s (ports ! j)) (cp_name_s (ports ! i)))"

lemma get_next_at:
  assumes "name_reaches (cfg_ports st) i" and "i < length (cfg_ports st)"
  shows "ax25_config_get_next st (Some (cp_name (cfg_ports st ! i))) =
    (if i + 1 < length (cfg_ports st) then Some (cp_name (cfg_ports st ! (i + 1))) else None)"
proof -
  have "cstr_arg (Some (cp_name (cfg_ports st ! i))) = Some (cp_name (cfg_ports st ! i))"
    using assms(1) by (auto simp: name_reaches_def intro!: cstr_arg_Some)
  then show ?thesis
    using name_reaches_index [OF assms] assms(2) by (auto simp: ax25_config_get_next_def Let_def)
qed

lemma port_walk_from:
  assumes "\<forall>i < length (cfg_ports st). name_reaches (cfg_ports st) i"
    and "i < length (cfg_ports st)" and "length (cfg_ports st) - i \<le> k"
  shows "port_walk k st (Some (cp_name (cfg_ports st ! i))) =
    map cp_name (drop (Suc i) (cfg_ports st))"
  using assms(2,3)
proof (induction k arbitrary: i)
  case (Suc k)
  have n: "ax25_config_get_next st (Some (cp_name (cfg_ports st ! i))) =
    (if i + 1 < length (cfg_ports st) then Some (cp_name (cfg_ports st ! (i + 1))) else None)"
    using assms(1) Suc.prems(1) by (intro get_next_at) auto
  show ?case
  proof (cases "i + 1 < length (cfg_ports st)")
    case True
    then have "port_walk k st (Some (cp_name (cfg_ports st ! (i + 1)))) =
        map cp_name (drop (Suc (i + 1)) (cfg_ports st))"
      using Suc.prems by (intro Suc.IH) auto
    then show ?thesis using True n by (simp add: Cons_nth_drop_Suc [symmetric])
  next
    case False
    then show ?thesis using n Suc.prems by simp
  qed
qed simp

lemma port_with_addr_total:
  assumes "list_all (\<lambda>p. \<exists>a. encode_entry (cp_call_s p) = Ret (Some a)) ports"
  shows "\<exists>r. port_with_addr c ports = Ret r"
  using assms by (induction ports) auto

lemma port_with_addr_found:
  assumes "list_all (\<lambda>p. \<exists>a. encode_entry (cp_call_s p) = Ret (Some a)) ports"
    and "p \<in> set ports" and "encode_entry (cp_call_s p) = Ret (Some a)"
    and "cmp_entry (ax25_call c) a = 0"
  shows "\<exists>q \<in> set ports. port_with_addr c ports = Ret (Some (cp_name q)) \<and>
    (\<exists>b. encode_entry (cp_call_s q) = Ret (Some b) \<and> cmp_entry (ax25_call c) b = 0)"
  using assms(1,2)
proof (induction ports)
  case (Cons x ports)
  then obtain b where b: "encode_entry (cp_call_s x) = Ret (Some b)" by auto
  show ?case
  proof (cases "cmp_entry (ax25_call c) b = 0")
    case True
    with b show ?thesis by (auto simp: ax25_cmp_def)
  next
    case False
    with b assms(3,4) have "p \<noteq> x" by auto
    with Cons have "\<exists>q \<in> set ports. port_with_addr c ports = Ret (Some (cp_name q)) \<and>
      (\<exists>b. encode_entry (cp_call_s q) = Ret (Some b) \<and> cmp_entry (ax25_call c) b = 0)" by simp
    then show ?thesis using False b by (auto simp: ax25_cmp_def)
  qed
qed simp

lemma load_ports_entries:
  assumes "ax25_config_load_ports e st = Ret (n, st')" and "cfg_ports st = []"
  obtains ps where "axports.table_ok ps" and "cfg_ports st' = map cport_of ps" and "n = int (length ps)"
proof -
  show thesis
  proof (cases "read_to_string e (axports_path e)")
    case None
    then show thesis using assms that [of "[]"] axports.table_ok_Nil
      by (auto simp: ax25_config_load_ports_def)
  next
    case (Some content)
    then obtain ps where "parse_axports content = Ret ps" "cfg_ports st' = map cport_of ps" "n = int (length ps)"
      using assms by (auto simp: ax25_config_load_ports_def Let_def split: outcome.splits)
    then show thesis
      using that axports.lines_table_ok axports.table_ok_Nil by (auto simp: parse_axports_def)
  qed
qed
text \<open>Every step of a walk that ends by itself.\<close>

lemma port_walk_links:
  assumes "port_walk k st nm = xs" and "length xs < k" and "i < length xs"
  shows "ax25_config_get_next st (Some (xs ! i)) = (if Suc i < length xs then Some (xs ! Suc i) else None)"
  using assms
proof (induction k arbitrary: nm xs i)
  case (Suc k)
  obtain x ys where x: "ax25_config_get_next st nm = Some x" "xs = x # ys" "port_walk k st (Some x) = ys"
    using Suc.prems by (auto split: option.splits)
  show ?case
  proof (cases i)
    case 0
    obtain m where "k = Suc m" using Suc.prems(2) x(2) by (cases k) auto
    then show ?thesis using 0 x by (auto split: option.splits)
  next
    case (Suc j)
    then show ?thesis using Suc.IH [OF x(3), of j] Suc.prems x(2) by simp
  qed
qed simp

text \<open>What a file gives: names that differ also up to case, kept as C strings when they hold no NUL.\<close>

lemma loaded_names:
  assumes "ax25_config_load_ports e st = Ret (n, st')" and "cfg_ports st = []" and "i < length (cfg_ports st')"
  shows "j < i \<Longrightarrow> \<not> eq_ignore_ascii_case (cp_name_s (cfg_ports st' ! j)) (cp_name_s (cfg_ports st' ! i))"
    and "0 \<notin> set (cp_name_s (cfg_ports st' ! i)) \<Longrightarrow> cp_name (cfg_ports st' ! i) = cp_name_s (cfg_ports st' ! i)"
proof -
  obtain ps where ps: "axports.table_ok ps" "cfg_ports st' = map cport_of ps"
    using load_ports_entries [OF assms(1,2)] by metis
  show "\<not> eq_ignore_ascii_case (cp_name_s (cfg_ports st' ! j)) (cp_name_s (cfg_ports st' ! i))" if "j < i"
    using ps that assms(3) sorted_wrt_nth_less [of _ ps j i] by (auto simp: axports.table_ok_def port_clash_def cport_of_def Let_def)
  show "cp_name (cfg_ports st' ! i) = cp_name_s (cfg_ports st' ! i)" if "0 \<notin> set (cp_name_s (cfg_ports st' ! i))"
    using ps that assms(3) by (simp add: cport_of_def Let_def cstring_new_def)
qed

lemma find_index_up_to:
  assumes "j < length ports" and "port_matches q (ports ! j)"
  obtains m where "find_index ports q = Some m" and "m \<le> j"
proof -
  have "position (port_matches q) ports \<noteq> None" using assms by (auto simp: position_None_iff)
  then obtain m where "position (port_matches q) ports = Some m" by blast
  moreover from this have "m \<le> j" using assms(2) by (simp add: position_Some_iff) (meson not_le_imp_less)
  ultimately show thesis using that by (simp add: find_index_def)
qed

section \<open>Properties\<close>

text \<open>Axports invariant. Every port of a parsed axports file has a non-negative speed, positive
  packet length and window, a description and an upper-case callsign that encodes; no two
  ports have names equal up to case or the same callsign.\<close>

theorem parse_axports_table:
  assumes "parse_axports content = Ret ps"
  shows "list_all port_ok ps \<and> sorted_wrt (\<lambda>q p. \<not> port_clash q p) ps"
  using axports.lines_table_ok [of "[]"] axports.table_ok_Nil assms
  by (auto simp: parse_axports_def axports.table_ok_def)

lemma sample_parses: "parse_axports sample_axports = Ret sample_ports"
  by code_simp

theorem parse_axports_table_witness:
  "parse_axports sample_axports = Ret sample_ports \<and> list_all port_ok sample_ports"
  using parse_axports_table [OF sample_parses] sample_parses by blast

text \<open>Loading is idempotent. Once the port table holds a port, loading again returns its size
  and changes nothing, whatever the file now says; so pointers into the table stay valid.\<close>

theorem load_ports_idempotent:
  assumes "ax25_config_load_ports e st = Ret (n, st')" and "cfg_ports st' \<noteq> []"
  shows "n = int (length (cfg_ports st')) \<and>
    ax25_config_load_ports e' st' = Ret (int (length (cfg_ports st')), st')"
  using assms
  by (auto simp: ax25_config_load_ports_def Let_def split: if_splits option.splits outcome.splits)

lemma sample_loads:
  "ax25_config_load_ports sample_env fresh_config =
     Ret (2, fresh_config\<lparr>cfg_ports := map cport_of sample_ports\<rparr>)"
  by (simp add: ax25_config_load_ports_def sample_env_def fresh_config_def axports_path_def sample_parses)
     (simp add: sample_ports_def)

theorem load_ports_idempotent_witness:
  "ax25_config_load_ports sample_env fresh_config = Ret (2, sample_config) \<and>
   ax25_config_load_ports (sample_env\<lparr>read_to_string := \<lambda>f. None\<rparr>) sample_config = Ret (2, sample_config)"
  using load_ports_idempotent [OF sample_loads, of "sample_env\<lparr>read_to_string := \<lambda>f. None\<rparr>"] sample_loads
  by (simp add: sample_ports_def)

text \<open>C34 (port enumeration). After a load, with port names that are text without NUL bytes: the
  loop over \<open>ax25_config_get_next\<close> started with NULL visits every port once, in file order, and
  ends, exactly when no port is named like the callsign of an earlier one. Otherwise the lookup of
  such a name goes back to the earlier port.\<close>

theorem get_next_enumerates:
  assumes "ax25_config_load_ports e st = Ret (n, st')" and "cfg_ports st = []" and "length (cfg_ports st') < k"
    and "\<forall>p \<in> set (cfg_ports st'). utf8_valid (cp_name_s p) \<and> 0 \<notin> set (cp_name_s p)"
  shows "port_walk k st' None = map cp_name (cfg_ports st') \<longleftrightarrow> names_clear (cfg_ports st')"
proof
  let ?ps = "cfg_ports st'"
  note names = loaded_names [OF assms(1,2)]
  have name: "cp_name (?ps ! i) = cp_name_s (?ps ! i)" "utf8_valid (cp_name_s (?ps ! i))" if "i < length ?ps" for i
    using names(2) [OF that] assms(4) nth_mem [OF that] by blast+
  show "names_clear ?ps" if walk: "port_walk k st' None = map cp_name ?ps"
    unfolding names_clear_def
  proof (intro allI impI notI)
    fix i j assume i: "i < length ?ps" and "j < i" and "is_same_call (cp_call_s (?ps ! j)) (cp_name_s (?ps ! i))"
    then have "port_matches (cp_name_s (?ps ! i)) (?ps ! j)" by (simp add: port_matches_def)
    then obtain m where m: "find_index ?ps (cp_name_s (?ps ! i)) = Some m" "m \<le> j"
      using find_index_up_to [of j ?ps] i \<open>j < i\<close> by auto
    then have "ax25_config_get_next st' (Some (cp_name (?ps ! i))) = Some (cp_name (?ps ! Suc m))"
      using i \<open>j < i\<close> name [OF i] by (auto simp: ax25_config_get_next_def Let_def cstr_arg_def cstr_to_str_def)
    moreover have "ax25_config_get_next st' (Some (cp_name (?ps ! i))) = (if Suc i < length ?ps then Some (cp_name (?ps ! Suc i)) else None)"
      using port_walk_links [OF walk, of i] i assms(3) by simp
    ultimately have si: "Suc i < length ?ps" "cp_name_s (?ps ! Suc m) = cp_name_s (?ps ! Suc i)"
      using name(1) [of "Suc i"] name(1) [of "Suc m"] m(2) \<open>j < i\<close> i by (auto split: if_splits)
    then show False using names(1) [OF si(1), of "Suc m"] m(2) \<open>j < i\<close> by (simp add: eq_ignore_ascii_case_refl)
  qed
  show "port_walk k st' None = map cp_name ?ps" if "names_clear ?ps"
  proof (cases "?ps = []")
    case True
    then show ?thesis by (cases k) (simp_all add: ax25_config_get_next_def)
  next
    case False
    obtain k' where k: "k = Suc k'" using assms(3) by (cases k) auto
    have "name_reaches ?ps i" if "i < length ?ps" for i
      using names(1) [OF that] name [OF that] \<open>names_clear ?ps\<close> that by (simp add: name_reaches_def port_matches_def names_clear_def)
    then have "port_walk k' st' (Some (cp_name (?ps ! 0))) = map cp_name (drop (Suc 0) ?ps)"
      using assms(3) False k by (intro port_walk_from) auto
    then show ?thesis using False k by (cases ?ps) (simp_all add: ax25_config_get_next_def)
  qed
qed
theorem get_next_enumerates_witness:
  "port_walk 5 sample_config None = [ascii ''radio'', ascii ''hf'']"
proof -
  have "list_all (\<lambda>p. utf8_valid (cp_name_s p) \<and> 0 \<notin> set (cp_name_s p)) (cfg_ports sample_config)"
    and c: "names_clear (cfg_ports sample_config)" by code_simp+
  then have "\<forall>p \<in> set (cfg_ports sample_config). utf8_valid (cp_name_s p) \<and> 0 \<notin> set (cp_name_s p)"
    by (simp only: list_all_iff)
  from get_next_enumerates [OF sample_loads _ _ this, of 5] c
  have "port_walk 5 sample_config None = map cp_name (cfg_ports sample_config)"
    by (simp add: fresh_config_def sample_ports_def)
  then show ?thesis by (simp add: sample_ports_def cport_of_def Let_def cstring_new_def ascii_def)
qed

text \<open>Enumeration can stall. Lookups match callsigns as well as names: when a port's callsign is
  the name of the next port, \<open>ax25_config_get_next\<close> on that name returns the same name again.\<close>

theorem get_next_stalls:
  assumes "i + 1 < length (cfg_ports st)" and "q = cp_name (cfg_ports st ! (i + 1))" and "utf8_valid q"
    and "is_same_call (cp_call_s (cfg_ports st ! i)) q"
    and "\<forall>j<i. \<not> port_matches q (cfg_ports st ! j)"
  shows "ax25_config_get_next st (Some q) = Some q \<and> port_walk k st (Some q) = replicate k q"
proof -
  have "find_index (cfg_ports st) q = Some i"
    using assms by (intro find_index_first) (auto simp: port_matches_def)
  then have n: "ax25_config_get_next st (Some q) = Some q"
    using assms(1-3) by (auto simp: ax25_config_get_next_def Let_def)
  moreover have "port_walk k st (Some q) = replicate k q"
    using n by (induction k) auto
  ultimately show ?thesis by blast
qed

theorem get_next_stalls_witness:
  "\<exists>st. ax25_config_load_ports
     (sample_env\<lparr>read_to_string := \<lambda>f. Some (ascii ''a M0LTE 9600 255 4 x\<newline>m0lte G0ABC 9600 255 4 y\<newline>'')\<rparr>)
     fresh_config = Ret (2, st) \<and> port_walk 3 st None = [ascii ''a'', ascii ''m0lte'', ascii ''m0lte'']"
proof -
  let ?e = "sample_env\<lparr>read_to_string := \<lambda>f. Some (ascii ''a M0LTE 9600 255 4 x\<newline>m0lte G0ABC 9600 255 4 y\<newline>'')\<rparr>"
  let ?ps = "map cport_of [\<lparr>pp_name = ascii ''a'', pp_call = ascii ''M0LTE'', pp_baud = 9600, pp_paclen = 255,
      pp_window = 4, pp_description = ascii ''x''\<rparr>, \<lparr>pp_name = ascii ''m0lte'', pp_call = ascii ''G0ABC'',
      pp_baud = 9600, pp_paclen = 255, pp_window = 4, pp_description = ascii ''y''\<rparr>]"
  let ?st = "fresh_config\<lparr>cfg_ports := ?ps\<rparr>"
  have l: "ax25_config_load_ports ?e fresh_config = Ret (2, ?st)" by code_simp
  have "ax25_config_get_next ?st None = Some (ascii ''a'')"
    and "ax25_config_get_next ?st (Some (ascii ''a'')) = Some (ascii ''m0lte'')" by code_simp+
  moreover have "ax25_config_get_next ?st (Some (ascii ''m0lte'')) = Some (ascii ''m0lte'')"
    using get_next_stalls [of 0 ?st "ascii ''m0lte''" 1] by (rule conjunct1) code_simp+
  ultimately have "port_walk 3 ?st None = [ascii ''a'', ascii ''m0lte'', ascii ''m0lte'']"
    by (simp add: numeral_3_eq_3)
  with l show ?thesis by blast
qed

text \<open>Address to port. After a load, \<open>ax25_config_get_port\<close> never panics; the address of a
  loaded port finds a loaded port with that address, and the null address answers \<open>*\<close>.\<close>

theorem get_port_total:
  assumes "ax25_config_load_ports e st = Ret (n, st')" and "cfg_ports st = []"
  shows "ax25_config_get_port st' (Some null_ax25_address) = Ret (Some (ascii ''*'')) \<and>
    (\<exists>r. ax25_config_get_port st' c = Ret r) \<and>
    (\<forall>p \<in> set (cfg_ports st'). \<forall>a. encode_entry (cp_call_s p) = Ret (Some a) \<longrightarrow>
       cmp_entry a (ax25_call null_ax25_address) \<noteq> 0 \<longrightarrow>
       (\<exists>q \<in> set (cfg_ports st'). ax25_config_get_port st' (Some \<lparr>ax25_call = a\<rparr>) = Ret (Some (cp_name q)) \<and>
          (\<exists>b. encode_entry (cp_call_s q) = Ret (Some b) \<and> cmp_entry a b = 0)))"
proof -
  obtain ps where ps: "axports.table_ok ps" "cfg_ports st' = map cport_of ps"
    using load_ports_entries [OF assms] by metis
  have all: "list_all (\<lambda>p. \<exists>a. encode_entry (cp_call_s p) = Ret (Some a)) (cfg_ports st')"
    using ps by (auto simp: axports.table_ok_def list_all_iff port_ok_def cport_of_def Let_def)
  have "\<exists>r. ax25_config_get_port st' c = Ret r"
    using port_with_addr_total [OF all] by (auto simp: ax25_config_get_port_def split: option.splits)
  moreover have "ax25_config_get_port st' (Some null_ax25_address) = Ret (Some (ascii ''*''))"
    by (simp add: ax25_config_get_port_def ax25_cmp_def)
  moreover have "\<exists>q \<in> set (cfg_ports st'). ax25_config_get_port st' (Some \<lparr>ax25_call = a\<rparr>) = Ret (Some (cp_name q)) \<and>
          (\<exists>b. encode_entry (cp_call_s q) = Ret (Some b) \<and> cmp_entry a b = 0)"
    if "p \<in> set (cfg_ports st')" "encode_entry (cp_call_s p) = Ret (Some a)"
      "cmp_entry a (ax25_call null_ax25_address) \<noteq> 0" for p a
    using port_with_addr_found [OF all that(1,2), of "\<lparr>ax25_call = a\<rparr>"] that(3)
    by (auto simp: ax25_config_get_port_def ax25_cmp_def)
  ultimately show ?thesis by blast
qed

theorem get_port_total_witness:
  "ax25_config_get_port sample_config (Some null_ax25_address) = Ret (Some (ascii ''*''))"
  using get_port_total [OF sample_loads, of None] by (simp add: fresh_config_def)

text \<open>Loaded ports answer. After a load, a port whose name no earlier port answers to is found by
  its name in any case, and its packet length and window are positive.\<close>

theorem loaded_port_lookup:
  assumes "ax25_config_load_ports e st = Ret (n, st')" and "cfg_ports st = []"
    and "i < length (cfg_ports st')" and "utf8_valid q"
    and "eq_ignore_ascii_case (cp_name_s (cfg_ports st' ! i)) q"
    and "\<forall>j<i. \<not> is_same_call (cp_call_s (cfg_ports st' ! j)) q"
  shows "ax25_config_get_addr st' (Some q) = Some (cp_call (cfg_ports st' ! i)) \<and>
    ax25_config_get_window st' (Some q) = cp_window (cfg_ports st' ! i) \<and>
    0 < ax25_config_get_window st' (Some q) \<and> 0 < ax25_config_get_paclen st' (Some q) \<and>
    0 \<le> ax25_config_get_baud st' (Some q)"
proof -
  obtain ps where ps: "axports.table_ok ps" "cfg_ports st' = map cport_of ps"
    using load_ports_entries [OF assms(1,2)] by metis
  have "\<not> eq_ignore_ascii_case (cp_name_s (cfg_ports st' ! j)) q" if "j < i" for j
  proof -
    have "\<not> port_clash (ps ! j) (ps ! i)"
      using ps that assms(3) sorted_wrt_nth_less [of _ ps j i] by (auto simp: axports.table_ok_def)
    then have "\<not> eq_ignore_ascii_case (cp_name_s (cfg_ports st' ! j)) (cp_name_s (cfg_ports st' ! i))"
      using ps that assms(3) by (auto simp: port_clash_def cport_of_def Let_def)
    then show ?thesis using assms(5) eq_ignore_ascii_case_sym eq_ignore_ascii_case_trans by blast
  qed
  then have f: "find_index (cfg_ports st') q = Some i"
    using assms(3,5,6) by (intro find_index_first) (auto simp: port_matches_def)
  have "port_ok (ps ! i)" using ps assms(3) by (auto simp: axports.table_ok_def list_all_length)
  then have "0 < cp_window (cfg_ports st' ! i)" "0 < cp_paclen (cfg_ports st' ! i)" "0 \<le> cp_baud (cfg_ports st' ! i)"
    using ps assms(3) by (auto simp: port_ok_def cport_of_def Let_def)
  with f show ?thesis using assms(4)
    by (simp add: ax25_config_get_addr_def ax25_config_get_window_def ax25_config_get_paclen_def
        ax25_config_get_baud_def port_field_def)
qed

theorem loaded_port_lookup_witness:
  "ax25_config_get_addr sample_config (Some (ascii ''Hf'')) = Some (ascii ''GB7RDG'') \<and>
   ax25_config_get_window sample_config (Some (ascii ''Hf'')) = 2"
proof -
  have h: "utf8_valid (ascii ''Hf'')" "eq_ignore_ascii_case (cp_name_s (cfg_ports sample_config ! 1)) (ascii ''Hf'')"
    "\<not> is_same_call (cp_call_s (cfg_ports sample_config ! 0)) (ascii ''Hf'')" by code_simp+
  have "cp_call (cfg_ports sample_config ! 1) = ascii ''GB7RDG''" "cp_window (cfg_ports sample_config ! 1) = 2"
    by code_simp+
  then show ?thesis
    using loaded_port_lookup [OF sample_loads, of 1 "ascii ''Hf''"] h
    by (simp add: fresh_config_def sample_ports_def)
qed

lemma env_override_ports: "cfg_ports (snd (env_override e st)) = cfg_ports st"
  by (simp add: env_override_def Let_def split: option.splits)

lemma env_override_hit:
  assumes "env_var e ''AX25_CALLSIGN'' = Some c" and "c \<noteq> []" and "0 \<notin> set c" and "cfg_env_call st = None"
  shows "fst (env_override e st) = Some c"
  using assms by (simp add: env_override_def Let_def cstring_new_def)

lemma load_calls_ports: "load_calls e st = Ret st' \<Longrightarrow> cfg_ports st' = cfg_ports st"
  by (auto simp: load_calls_def split: if_splits option.splits outcome.splits)

text \<open>Get_call resolution. \<open>get_call\<close> answers NULL only when there is no environment
  override, the uid table (as loaded) has no entry for the uid and no port has been loaded; a
  non-empty override wins for every uid.\<close>

theorem get_call_resolution:
  assumes "get_call e uid st = Ret (r, st')"
  shows "(r = None \<longrightarrow> cfg_ports st' = [] \<and> uid \<notin> cc_uid ` set (cfg_calls st')) \<and>
    (\<forall>c. env_var e ''AX25_CALLSIGN'' = Some c \<and> c \<noteq> [] \<and> 0 \<notin> set c \<and> cfg_env_call st = None \<longrightarrow> r = Some c) \<and>
    cfg_ports st' = cfg_ports st"
proof (cases "env_override e st")
  case (Pair o1 st1)
  show ?thesis
  proof (cases o1)
    case None
    then obtain st2 where l: "load_calls e st1 = Ret st2"
      using assms Pair by (auto simp: get_call_def split: outcome.splits)
    have "cfg_ports st2 = cfg_ports st"
      using load_calls_ports [OF l] env_override_ports [of e st] Pair by simp
    moreover have "fst (env_override e st) = None" using None Pair by simp
    ultimately show ?thesis
      using assms None Pair l env_override_hit [of e _ st]
      by (auto simp: get_call_def find_None_iff split: option.splits list.splits)
  next
    case (Some c)
    then show ?thesis
      using assms Pair env_override_ports [of e st] env_override_hit [of e _ st]
      by (auto simp: get_call_def)
  qed
qed

theorem get_call_resolution_witness:
  "get_call (sample_env\<lparr>env_var := \<lambda>v. if v = ''AX25_CALLSIGN'' then Some (ascii ''G0ABC'') else None\<rparr>) 1000 sample_config =
     Ret (Some (ascii ''G0ABC''), sample_config\<lparr>cfg_env_call := Some (ascii ''G0ABC'')\<rparr>) \<and>
   cfg_ports (sample_config\<lparr>cfg_env_call := Some (ascii ''G0ABC'')\<rparr>) = cfg_ports sample_config"
proof -
  have "get_call (sample_env\<lparr>env_var := \<lambda>v. if v = ''AX25_CALLSIGN'' then Some (ascii ''G0ABC'') else None\<rparr>) 1000 sample_config =
     Ret (Some (ascii ''G0ABC''), sample_config\<lparr>cfg_env_call := Some (ascii ''G0ABC'')\<rparr>)"
    by (simp add: get_call_def env_override_def cstring_new_def fresh_config_def ascii_def Let_def)
  from get_call_resolution [OF this] this show ?thesis by blast
qed

text \<open>Get_call does not load axports. The documented last resort, the first port of axports, is
  taken from the table in memory only: with no override, no uid entry and no port loaded yet the
  answer is NULL, whatever the axports file holds.\<close>

theorem get_call_needs_loaded_ports:
  assumes "env_var e ''AX25_CALLSIGN'' = None" and "cfg_ports st = []" and "cfg_calls st = []"
    and "read_to_string e (calls_path e) = None"
  shows "get_call e uid st = Ret (None, st)"
  using assms by (simp add: get_call_def env_override_def load_calls_def)

theorem get_call_needs_loaded_ports_witness:
  "get_call sample_env 1000 fresh_config = Ret (None, fresh_config) \<and>
   parse_axports sample_axports = Ret sample_ports"
proof -
  have "get_call sample_env 1000 fresh_config = Ret (None, fresh_config)"
    by (rule get_call_needs_loaded_ports)
       (simp_all add: sample_env_def fresh_config_def calls_path_def ascii_def)
  then show ?thesis using sample_parses by blast
qed

text \<open>Callsigns are cut at the first "-0". The normalised callsign of a line is the part before
  the first \<open>-0\<close>, so an SSID written with a leading zero is lost, not only a trailing
  \<open>-0\<close>.\<close>

theorem normal_call_cuts:
  assumes "0x2D \<notin> set base"
  shows "normal_call (base @ [0x2D, 0x30] @ rest) = str_to_uppercase base"
proof -
  have "find_sub [0x2D, 0x30] (xs @ [0x2D, 0x30] @ ys) = Some (length xs)" if "0x2D \<notin> set xs" for xs ys :: rstr
    using that by (induction xs) auto
  moreover have "0x2D \<notin> set (map to_ascii_uppercase base)"
    using assms by (auto simp: image_iff)
  ultimately show ?thesis
    by (simp add: normal_call_def str_to_uppercase_def Let_def to_ascii_uppercase_def [of "0x2D"]
        to_ascii_uppercase_def [of "0x30"])
qed

theorem normal_call_cuts_witness: "normal_call (ascii ''M0LTE-01'') = ascii ''M0LTE''"
  using normal_call_cuts [of "ascii ''M0LTE''" "[0x31]"] by code_simp
end
