(* ===== verification/Ax25_Stubs.thy ===== *)
theory Ax25_Stubs
  imports Prelude
begin

text \<open>
  \<^verbatim>\<open>crates/libax25/src/stubs.rs\<close>: the Rose address helpers (ten decimal digits packed as
  five BCD bytes) and the entry points that only keep the C interface complete, which answer a
  constant. A C string argument is \<open>None\<close> for NULL; a written buffer is passed and returned.
\<close>

section \<open>Definitions\<close>

record rose_address =
  rose_addr :: "byte list"

definition bcd_byte :: "byte \<Rightarrow> byte \<Rightarrow> byte" where
  "bcd_byte h l = push_bit 4 (h - 0x30) OR (l - 0x30)"

definition rose_aton :: "byte list option \<Rightarrow> byte list option \<Rightarrow> int \<times> byte list option" where
  "rose_aton addr buf =
     (case (addr, buf) of
        (Some b, Some dst) \<Rightarrow>
          if \<not> utf8_valid b then (-1, buf)
          else if length b \<noteq> 10 \<or> \<not> list_all is_ascii_digit b then (-1, buf)
          else (0, Some (map (\<lambda>i. bcd_byte (b ! (i * 2)) (b ! (i * 2 + 1))) [0..<5] @ drop 5 dst))
      | _ \<Rightarrow> (-1, buf))"

definition bcd_digits :: "byte \<Rightarrow> byte list" where
  "bcd_digits b = [0x30 + (drop_bit 4 b AND 0x0F), 0x30 + (b AND 0x0F)]"

text \<open>\<^verbatim>\<open>rose_ntoa\<close> writes the thread's 12-byte buffer and returns a pointer to it.\<close>

definition rose_ntoa :: "rose_address option \<Rightarrow> byte list \<Rightarrow> byte list" where
  "rose_ntoa a buf =
     (case a of
        None \<Rightarrow> buf[0 := 0]
      | Some src \<Rightarrow> concat (map (\<lambda>i. bcd_digits (rose_addr src ! i)) [0..<5]) @ [0] @ drop 11 buf)"

definition rose_cmp :: "rose_address option \<Rightarrow> rose_address option \<Rightarrow> int" where
  "rose_cmp a b =
     (case (a, b) of
        (Some x, Some y) \<Rightarrow>
          if list_ex (\<lambda>i. rose_addr x ! i \<noteq> rose_addr y ! i) [0..<5] then 1 else 0
      | _ \<Rightarrow> 1)"

subsection \<open>Entry points without a kernel stack behind them\<close>

definition nr_config_load_ports :: int where "nr_config_load_ports = 0"

definition nr_config_get_next :: "byte list option \<Rightarrow> rstr option" where
  "nr_config_get_next name = None"

definition nr_config_get_name :: "byte list option \<Rightarrow> rstr option" where
  "nr_config_get_name dev = None"

definition nr_config_get_addr :: "byte list option \<Rightarrow> rstr option" where
  "nr_config_get_addr name = None"

definition nr_config_get_dev :: "byte list option \<Rightarrow> rstr option" where
  "nr_config_get_dev name = None"

definition nr_config_get_port :: "byte list option \<Rightarrow> rstr option" where
  "nr_config_get_port call = None"

definition nr_config_get_alias :: "byte list option \<Rightarrow> rstr option" where
  "nr_config_get_alias name = None"

definition nr_config_get_paclen :: "byte list option \<Rightarrow> int" where
  "nr_config_get_paclen name = 0"

definition nr_config_get_desc :: "byte list option \<Rightarrow> rstr option" where
  "nr_config_get_desc name = None"

definition rs_config_load_ports :: int where "rs_config_load_ports = 0"

definition rs_config_get_next :: "byte list option \<Rightarrow> rstr option" where
  "rs_config_get_next name = None"

definition rs_config_get_name :: "byte list option \<Rightarrow> rstr option" where
  "rs_config_get_name dev = None"

definition rs_config_get_addr :: "byte list option \<Rightarrow> rstr option" where
  "rs_config_get_addr name = None"

definition rs_config_get_dev :: "byte list option \<Rightarrow> rstr option" where
  "rs_config_get_dev name = None"

definition rs_config_get_port :: "rose_address option \<Rightarrow> rstr option" where
  "rs_config_get_port addr = None"

definition rs_config_get_paclen :: "byte list option \<Rightarrow> int" where
  "rs_config_get_paclen name = 0"

definition rs_config_get_desc :: "byte list option \<Rightarrow> rstr option" where
  "rs_config_get_desc name = None"

definition tty_raw :: "int \<Rightarrow> int \<Rightarrow> int" where "tty_raw fd hwflag = 1"

definition tty_speed :: "int \<Rightarrow> int \<Rightarrow> int" where "tty_speed fd speed = 1"

definition tty_is_locked :: "byte list option \<Rightarrow> int" where "tty_is_locked tty = 0"

definition tty_lock :: "byte list option \<Rightarrow> int" where "tty_lock tty = 1"

definition tty_unlock :: "byte list option \<Rightarrow> int" where "tty_unlock tty = 1"

definition daemon_start :: "int \<Rightarrow> int" where "daemon_start ignsigcld = 1"

text \<open>The parsers of \<^verbatim>\<open>/proc/net\<close>: readers with the functions that free what they return, as the two macros make them, and
  the searches. A pointer is \<open>None\<close> when it is NULL; freeing leaves the heap as it is.\<close>

definition null_reader :: "nat option" where "null_reader = None"

definition noop_free :: "nat option \<Rightarrow> (nat \<rightharpoonup> byte list) \<Rightarrow> (nat \<rightharpoonup> byte list)" where
  "noop_free p heap = heap"

definition proc_readers :: "(string \<times> string) list" where
  "proc_readers =
     [(''read_proc_ax25'', ''free_proc_ax25''), (''read_proc_ax25_route'', ''free_proc_ax25_route''),
      (''read_proc_nr'', ''free_proc_nr''), (''read_proc_nr_neigh'', ''free_proc_nr_neigh''),
      (''read_proc_nr_nodes'', ''free_proc_nr_nodes''), (''read_proc_rs'', ''free_proc_rs''),
      (''read_proc_rs_neigh'', ''free_proc_rs_neigh''), (''read_proc_rs_nodes'', ''free_proc_rs_nodes''),
      (''read_proc_rs_routes'', ''free_proc_rs_route'')]"

definition find_link :: "byte list option \<Rightarrow> byte list option \<Rightarrow> byte list option \<Rightarrow> nat option" where
  "find_link src dest dev = None"

definition find_neigh :: "int \<Rightarrow> nat option \<Rightarrow> nat option" where
  "find_neigh addr neigh = None"

definition find_node :: "byte list option \<Rightarrow> nat option \<Rightarrow> nat option" where
  "find_node addr nodes = None"

text \<open>The packed form as the loop of \<^verbatim>\<open>rose_aton\<close> builds it.\<close>

definition pack_digits :: "byte list \<Rightarrow> byte list" where
  "pack_digits b = map (\<lambda>i. bcd_byte (b ! (i * 2)) (b ! (i * 2 + 1))) [0..<5]"

section \<open>Packing digits\<close>

lemma bcd_round_trip:
  assumes "is_ascii_digit h" and "is_ascii_digit l"
  shows "bcd_digits (bcd_byte h l) = [h, l]"
proof -
  have small: "x < 0x10 \<Longrightarrow> \<not> bit x 4 \<and> \<not> bit x 5 \<and> \<not> bit x 6 \<and> \<not> bit x 7" for x :: byte
  proof -
    assume "x < 0x10"
    then have "unat x < 2 ^ 4" by (simp add: word_less_nat_alt)
    then have "unat x = unat (take_bit 4 x)" by (simp only: unsigned_take_bit_eq take_bit_nat_eq_self)
    then have "x = take_bit 4 x" by (simp only: word_unat_eq_iff)
    then have "bit x n \<Longrightarrow> n < 4" for n by (metis bit_take_bit_iff)
    from this [of 4] this [of 5] this [of 6] this [of 7] show ?thesis by auto
  qed
  define a b where "a = h - 0x30" and "b = l - 0x30"
  have lt: "a < 0x10" "b < 0x10" and eq: "h = 0x30 + a" "l = 0x30 + b"
    using assms unfolding a_def b_def is_ascii_digit_def by (uint_arith; simp)+
  have "drop_bit 4 (push_bit 4 a OR b) AND 0x0F = a"
    unfolding byte_eq_iff using small [OF lt(1)] small [OF lt(2)]
    by (simp add: bit_simps del: One_nat_def; simp)
  moreover have "(push_bit 4 a OR b) AND 0x0F = b"
    unfolding byte_eq_iff using small [OF lt(1)] small [OF lt(2)]
    by (simp add: bit_simps del: One_nat_def; simp)
  ultimately show ?thesis by (simp add: bcd_digits_def bcd_byte_def eq a_def [symmetric] b_def [symmetric])
qed

lemma digits_10:
  assumes "length b = 10"
  shows "concat (map (\<lambda>i. [b ! (i * 2), b ! (i * 2 + 1)]) [0..<5]) = b"
  using assms by (auto simp: numeral_eq_Suc length_Suc_conv upt_rec)

section \<open>Properties\<close>

lemma length_pack_digits [simp]: "length (pack_digits b) = 5"
  by (simp add: pack_digits_def)

lemma rose_aton_digits:
  assumes "length b = 10" and "list_all is_ascii_digit b"
  shows "rose_aton (Some b) (Some dst) =
    (0, Some (pack_digits b @ drop 5 dst))"
proof -
  have "is_ascii_digit c \<Longrightarrow> c < 0x80" for c unfolding is_ascii_digit_def by uint_arith
  then have "ascii_only b" using assms(2) by (auto simp: ascii_only_def list_all_iff)
  then show ?thesis using assms by (simp add: rose_aton_def utf8_valid_ascii pack_digits_def)
qed

lemma rose_ntoa_packed:
  assumes "length b = 10" and "list_all is_ascii_digit b"
  shows "take 10 (rose_ntoa (Some \<lparr>rose_addr = pack_digits b\<rparr>) buf) = b"
proof -
  have "bcd_digits (pack_digits b ! i) = [b ! (i * 2), b ! (i * 2 + 1)]" if "i < 5" for i
    using that assms by (simp add: pack_digits_def bcd_round_trip list_all_length)
  then have "map (\<lambda>i. bcd_digits (pack_digits b ! i)) [0..<5] = map (\<lambda>i. [b ! (i * 2), b ! (i * 2 + 1)]) [0..<5]"
    by (intro map_cong) auto
  with digits_10 [OF assms(1)] have "concat (map (\<lambda>i. bcd_digits (pack_digits b ! i)) [0..<5]) = b" by metis
  then show ?thesis using assms by (simp add: rose_ntoa_def)
qed

text \<open>Rose addresses. \<open>rose_aton\<close> accepts exactly the texts of ten decimal digits and leaves
  the buffer alone otherwise; the packed address prints as the same digits, so two texts that
  pack to addresses that compare equal are the same.\<close>

theorem rose_round_trip:
  assumes "rose_aton (Some b) (Some dst) = (r, Some p)" and "rose_aton (Some c) (Some dst) = (r', Some q)"
    and "length dst = 5"
  shows "(r = 0 \<longleftrightarrow> length b = 10 \<and> list_all is_ascii_digit b) \<and> (r \<noteq> 0 \<longrightarrow> p = dst) \<and>
    (r = 0 \<longrightarrow> take 10 (rose_ntoa (Some \<lparr>rose_addr = p\<rparr>) buf) = b) \<and>
    (r = 0 \<and> r' = 0 \<and> rose_cmp (Some \<lparr>rose_addr = p\<rparr>) (Some \<lparr>rose_addr = q\<rparr>) = 0 \<longrightarrow> b = c)"
proof -
  have ok: "length x = 10 \<and> list_all is_ascii_digit x \<and> take 10 (rose_ntoa (Some \<lparr>rose_addr = y\<rparr>) buf) = x \<and> length y = 5"
    if "rose_aton (Some x) (Some dst) = (0, Some y)" for x y
  proof -
    have d: "length x = 10" "list_all is_ascii_digit x" using that by (auto simp: rose_aton_def split: if_splits)
    moreover have "y = pack_digits x" using that rose_aton_digits [OF d, of dst] assms(3) by simp
    ultimately show ?thesis using rose_ntoa_packed [OF d, of buf] by simp
  qed
  have eq: "p = q" if "rose_cmp (Some \<lparr>rose_addr = p\<rparr>) (Some \<lparr>rose_addr = q\<rparr>) = 0" "length p = 5" "length q = 5"
    using that by (auto simp: rose_cmp_def list_ex_iff intro!: nth_equalityI split: if_splits)
  have "r = 0 \<longleftrightarrow> length b = 10 \<and> list_all is_ascii_digit b"
    using ok [of b p] assms(1) rose_aton_digits [of b dst] by (cases "r = 0") auto
  moreover have "r \<noteq> 0 \<longrightarrow> p = dst" using assms(1) by (simp add: rose_aton_def split: if_splits)
  moreover have "take 10 (rose_ntoa (Some \<lparr>rose_addr = p\<rparr>) buf) = b" if "r = 0"
    using ok [of b p] assms(1) that by simp
  moreover have "b = c" if "r = 0" "r' = 0" "rose_cmp (Some \<lparr>rose_addr = p\<rparr>) (Some \<lparr>rose_addr = q\<rparr>) = 0"
  proof -
    have "length p = 5" "length q = 5" using ok [of b p] ok [of c q] assms(1,2) that(1,2) by simp_all
    then have "p = q" using eq that(3) by simp
    then show ?thesis using ok [of b p] ok [of c q] assms(1,2) that(1,2) by simp
  qed
  ultimately show ?thesis by blast
qed

theorem rose_round_trip_witness:
  "take 10 (rose_ntoa (Some \<lparr>rose_addr = [0x50, 0x50, 0x12, 0x34, 0x56]\<rparr>) (replicate 12 0)) = ascii ''5050123456''"
proof -
  have "rose_aton (Some (ascii ''5050123456'')) (Some [0, 0, 0, 0, 0]) = (0, Some [0x50, 0x50, 0x12, 0x34, 0x56])"
    by code_simp
  from rose_round_trip [OF this this, of "replicate 12 0"] show ?thesis by simp
qed

text \<open>The stubbed tables are empty: a load that reports no port agrees with an enumeration that ends
  at once, a terminal that is never locked can always be locked and unlocked, and a search finds nothing in what the
  readers return.\<close>

lemma stub_tables_empty:
  "nr_config_load_ports = 0 \<and> nr_config_get_next name = None \<and> nr_config_get_addr name = None \<and>
   rs_config_load_ports = 0 \<and> rs_config_get_next name = None \<and> rs_config_get_addr name = None \<and>
   tty_is_locked tty = 0 \<and> tty_lock tty = 1 \<and> tty_unlock tty = 1 \<and>
   find_link src dest dev = null_reader \<and> find_neigh a null_reader = null_reader \<and> find_node c null_reader = null_reader"
  by (simp add: nr_config_load_ports_def nr_config_get_next_def nr_config_get_addr_def
      rs_config_load_ports_def rs_config_get_next_def rs_config_get_addr_def
      tty_is_locked_def tty_lock_def tty_unlock_def null_reader_def find_link_def find_neigh_def find_node_def)

end
