(* ===== verification/Ipose_Recv.thy ===== *)
theory Ipose_Recv
  imports Prelude
begin

text \<open>
  The receive pump of \<^verbatim>\<open>crates/ax25-interpose/src/state.rs\<close>: recv bytes of the engine are written into
  the socketpair of their handle, what the socketpair does not take is kept in order, and what
  arrives before the handle is registered is staged.

  The kernel is not part of the sources. The calls the pump and its neighbours make are the
  record \<open>kernel\<close> over a kernel state, a parameter of the definitions; what is relied on is
  the locale \<open>stream_kernel\<close>, and \<open>unix_kernel\<close> is an instance: socketpairs with bounded
  buffers. The iteration order of a \<^verbatim>\<open>HashMap\<close> is an argument where effects depend on it.
\<close>

section \<open>Definitions\<close>

subsection \<open>Kernel calls\<close>

definition EINTR :: int where "EINTR = 4"

definition EAGAIN :: int where "EAGAIN = 11"

definition EPIPE :: int where "EPIPE = 32"

text \<open>
  Non-blocking \<^verbatim>\<open>send\<close> (result, errno), non-blocking \<^verbatim>\<open>recv\<close> (result, data),
  \<^verbatim>\<open>shutdown(SHUT_WR)\<close>, \<^verbatim>\<open>SO_SNDBUF\<close>, \<^verbatim>\<open>socketpair\<close>, \<^verbatim>\<open>close\<close>, the \<^verbatim>\<open>O_NONBLOCK\<close> flag, and a
  bound on the iterations of the loops that run until the kernel says stop.
\<close>

record 'k kernel =
  k_send :: "int \<Rightarrow> byte list \<Rightarrow> 'k \<Rightarrow> int \<times> int \<times> 'k"
  k_recv :: "int \<Rightarrow> nat \<Rightarrow> 'k \<Rightarrow> int \<times> byte list \<times> 'k"
  k_shutdown_wr :: "int \<Rightarrow> 'k \<Rightarrow> 'k"
  k_set_sndbuf :: "int \<Rightarrow> nat \<Rightarrow> 'k \<Rightarrow> 'k"
  k_socketpair :: "'k \<Rightarrow> (int \<times> int) option \<times> 'k"
  k_close :: "int \<Rightarrow> 'k \<Rightarrow> 'k"
  k_nonblocking :: "'k \<Rightarrow> int \<Rightarrow> bool"
  k_fuel :: nat

datatype write_outcome = Wrote nat | WouldBlock | Fatal

definition nb_write :: "'k kernel \<Rightarrow> int \<Rightarrow> byte list \<Rightarrow> 'k \<Rightarrow> write_outcome \<times> 'k" where
  "nb_write ops inner_fd data k =
     (if data = [] then (Wrote 0, k)
      else (case k_send ops inner_fd data k of (n, err, k') \<Rightarrow>
        if n > 0 then (Wrote (nat n), k')
        else if err = EAGAIN \<or> err = EINTR then (WouldBlock, k')
        else (Fatal, k')))"

subsection \<open>The pump\<close>

record pending_recv =
  pr_inner_fd :: int
  pr_buf :: "byte list"
  pr_eof :: bool
  pr_eof_done :: bool

definition EARLY_STAGE_CAP :: nat where "EARLY_STAGE_CAP = 256 * 1024"

record pump_state =
  ps_handles :: "u64 \<rightharpoonup> pending_recv"
  ps_early :: "u64 \<rightharpoonup> byte list"

definition new_pump :: pump_state where
  "new_pump = \<lparr>ps_handles = Map.empty, ps_early = Map.empty\<rparr>"

definition pump_register :: "u64 \<Rightarrow> int \<Rightarrow> pump_state \<Rightarrow> pump_state" where
  "pump_register h inner_fd st =
     (let staged = unwrap_or [] (ps_early st h) in
      st\<lparr>ps_early := (ps_early st)(h := None),
         ps_handles := (ps_handles st)(h \<mapsto>
           \<lparr>pr_inner_fd = inner_fd, pr_buf = staged, pr_eof = False, pr_eof_done = False\<rparr>)\<rparr>)"

definition pump_unregister :: "u64 \<Rightarrow> pump_state \<Rightarrow> pump_state" where
  "pump_unregister h st =
     st\<lparr>ps_handles := (ps_handles st)(h := None), ps_early := (ps_early st)(h := None)\<rparr>"

definition stage_early :: "u64 \<Rightarrow> byte list \<Rightarrow> pump_state \<Rightarrow> pump_state" where
  "stage_early h data st =
     (let q = unwrap_or [] (ps_early st h); room = EARLY_STAGE_CAP - length q in
      st\<lparr>ps_early := (ps_early st)(h \<mapsto> (if room > 0 then q @ take room data else q))\<rparr>)"

definition pump_push :: "'k kernel \<Rightarrow> u64 \<Rightarrow> byte list \<Rightarrow> pump_state \<times> 'k \<Rightarrow> pump_state \<times> 'k" where
  "pump_push ops h data s =
     (case s of (st, k) \<Rightarrow>
      if data = [] then (st, k)
      else (case ps_handles st h of
          None \<Rightarrow> (stage_early h data st, k)
        | Some e \<Rightarrow>
            if pr_buf e = []
            then (case nb_write ops (pr_inner_fd e) data k of
                (Wrote n, k') \<Rightarrow>
                  if n < length data
                  then (st\<lparr>ps_handles := (ps_handles st)(h \<mapsto> e\<lparr>pr_buf := drop n data\<rparr>)\<rparr>, k')
                  else (st, k')
              | (WouldBlock, k') \<Rightarrow> (st\<lparr>ps_handles := (ps_handles st)(h \<mapsto> e\<lparr>pr_buf := data\<rparr>)\<rparr>, k')
              | (Fatal, k') \<Rightarrow> (st\<lparr>ps_handles := (ps_handles st)(h := None)\<rparr>, k'))
            else (st\<lparr>ps_handles := (ps_handles st)(h \<mapsto> e\<lparr>pr_buf := pr_buf e @ data\<rparr>)\<rparr>, k)))"

definition pump_mark_eof :: "u64 \<Rightarrow> pump_state \<Rightarrow> pump_state" where
  "pump_mark_eof h st =
     (case ps_handles st h of
        Some e \<Rightarrow> st\<lparr>ps_handles := (ps_handles st)(h \<mapsto> e\<lparr>pr_eof := True\<rparr>)\<rparr>
      | None \<Rightarrow> st)"

definition pump_shutdown_all :: "pump_state \<Rightarrow> pump_state" where
  "pump_shutdown_all st =
     st\<lparr>ps_handles := (\<lambda>h. map_option (\<lambda>e. e\<lparr>pr_eof := True\<rparr>) (ps_handles st h))\<rparr>"

lemma nb_write_progress: "data \<noteq> [] \<Longrightarrow> nb_write ops fd data k = (Wrote n, k') \<Longrightarrow> 0 < n"
  by (auto simp: nb_write_def split: prod.splits if_splits)

text \<open>The write loop of a drain: what is left of the buffer, and whether the other end is gone.\<close>

function drain_buf :: "'k kernel \<Rightarrow> int \<Rightarrow> byte list \<Rightarrow> 'k \<Rightarrow> byte list \<times> bool \<times> 'k" where
  "drain_buf ops fd buf k =
     (if buf = [] then ([], False, k)
      else (case nb_write ops fd buf k of
          (Wrote n, k') \<Rightarrow> drain_buf ops fd (drop n buf) k'
        | (WouldBlock, k') \<Rightarrow> (buf, False, k')
        | (Fatal, k') \<Rightarrow> (buf, True, k')))"
  by pat_completeness auto
termination
  by (relation "measure (\<lambda>(ops, fd, buf, k). length buf)") (auto intro!: diff_less dest: nb_write_progress [OF _ sym])

declare drain_buf.simps [simp del]

definition drain_entry :: "'k kernel \<Rightarrow> u64 \<Rightarrow> pump_state \<times> 'k \<Rightarrow> int list \<times> pump_state \<times> 'k" where
  "drain_entry ops h s =
     (case s of (st, k) \<Rightarrow>
      case ps_handles st h of
        None \<Rightarrow> ([], st, k)
      | Some e \<Rightarrow>
          (case drain_buf ops (pr_inner_fd e) (pr_buf e) k of (buf, fatal, k') \<Rightarrow>
           let e' = e\<lparr>pr_buf := buf\<rparr> in
           if fatal then ([], st\<lparr>ps_handles := (ps_handles st)(h := None)\<rparr>, k')
           else if buf \<noteq> [] then ([pr_inner_fd e], st\<lparr>ps_handles := (ps_handles st)(h \<mapsto> e')\<rparr>, k')
           else if pr_eof e \<and> \<not> pr_eof_done e
           then ([], st\<lparr>ps_handles := (ps_handles st)(h \<mapsto> e'\<lparr>pr_eof_done := True\<rparr>)\<rparr>,
                 k_shutdown_wr ops (pr_inner_fd e) k')
           else ([], st\<lparr>ps_handles := (ps_handles st)(h \<mapsto> e')\<rparr>, k')))"

text \<open>\<^verbatim>\<open>drain_pass\<close> over the handles in iteration order: the blocked descriptors and the new state.\<close>

fun drain_pass :: "'k kernel \<Rightarrow> u64 list \<Rightarrow> pump_state \<times> 'k \<Rightarrow> int list \<times> pump_state \<times> 'k" where
  "drain_pass ops [] s = ([], s)"
| "drain_pass ops (h # hs) s =
     (case drain_entry ops h s of (b, s1) \<Rightarrow> case drain_pass ops hs s1 of (bs, s2) \<Rightarrow> (b @ bs, s2))"

definition entry_work :: "pending_recv \<Rightarrow> bool" where
  "entry_work e \<longleftrightarrow> pr_buf e \<noteq> [] \<or> (pr_eof e \<and> \<not> pr_eof_done e)"

definition has_work :: "u64 list \<Rightarrow> pump_state \<Rightarrow> bool" where
  "has_work hs st \<longleftrightarrow> list_ex (\<lambda>h. case ps_handles st h of Some e \<Rightarrow> entry_work e | None \<Rightarrow> False) hs"

subsection \<open>What a pump promises\<close>

text \<open>The stream of a handle, in terms of what the kernel has accepted from a descriptor: what has gone
  into its socketpair and what is kept for it.\<close>

definition recv_stream :: "('k \<Rightarrow> int \<Rightarrow> byte list) \<Rightarrow> pump_state \<times> 'k \<Rightarrow> u64 \<Rightarrow> byte list" where
  "recv_stream wrote s h = (case s of (st, k) \<Rightarrow>
     case ps_handles st h of Some e \<Rightarrow> wrote k (pr_inner_fd e) @ pr_buf e | None \<Rightarrow> unwrap_or [] (ps_early st h))"

text \<open>Every handle has its own descriptor; a descriptor is shut exactly when its handle's EOF was
  delivered, which is after its close was seen and with nothing left to deliver.\<close>

definition pump_ok :: "('k \<Rightarrow> int \<Rightarrow> bool) \<Rightarrow> pump_state \<times> 'k \<Rightarrow> bool" where
  "pump_ok shut s \<longleftrightarrow> (case s of (st, k) \<Rightarrow>
     (\<forall>h g e f. ps_handles st h = Some e \<and> ps_handles st g = Some f \<and> pr_inner_fd e = pr_inner_fd f \<longrightarrow> h = g) \<and>
     (\<forall>h e. ps_handles st h = Some e \<longrightarrow>
        (shut k (pr_inner_fd e) \<longleftrightarrow> pr_eof_done e) \<and> (pr_eof_done e \<longrightarrow> pr_eof e \<and> pr_buf e = [])))"

text \<open>The operations of the reader thread, the flusher thread and the transport on a pump.\<close>

datatype pump_op = Push u64 "byte list" | MarkEof u64 | ShutdownAll | DrainPass "u64 list"

fun pump_exec :: "'k kernel \<Rightarrow> pump_op \<Rightarrow> pump_state \<times> 'k \<Rightarrow> pump_state \<times> 'k" where
  "pump_exec ops (Push h d) s = pump_push ops h d s"
| "pump_exec ops (MarkEof h) s = (pump_mark_eof h (fst s), snd s)"
| "pump_exec ops ShutdownAll s = (pump_shutdown_all (fst s), snd s)"
| "pump_exec ops (DrainPass hs) s = snd (drain_pass ops hs s)"

fun pushed :: "u64 \<Rightarrow> pump_op list \<Rightarrow> byte list" where
  "pushed h [] = []"
| "pushed h (Push g d # xs) = (if g = h then d else []) @ pushed h xs"
| "pushed h (_ # xs) = pushed h xs"

subsection \<open>Socketpairs\<close>

text \<open>An instance of the kernel: each descriptor has a peer, a queue of unread bytes, a capacity for
  what it sends and a shutdown flag; \<open>ux_wrote\<close> records what was ever accepted from it.\<close>

record unix =
  ux_peer :: "int \<Rightarrow> int option"
  ux_queue :: "int \<Rightarrow> byte list"
  ux_cap :: "int \<Rightarrow> nat"
  ux_shut :: "int \<Rightarrow> bool"
  ux_wrote :: "int \<Rightarrow> byte list"
  ux_nonblock :: "int \<Rightarrow> bool"
  ux_next :: int
  ux_bufsize :: nat

text \<open>The other end of an open socketpair.\<close>

definition ux_pair :: "unix \<Rightarrow> int \<Rightarrow> int option" where
  "ux_pair k fd = (case ux_peer k fd of Some p \<Rightarrow> if ux_peer k p = Some fd \<and> 0 < ux_cap k fd then Some p else None | None \<Rightarrow> None)"

definition ux_send :: "int \<Rightarrow> byte list \<Rightarrow> unix \<Rightarrow> int \<times> int \<times> unix" where
  "ux_send fd d k =
     (case ux_pair k fd of
        None \<Rightarrow> (-1, EPIPE, k)
      | Some p \<Rightarrow>
          if ux_shut k fd then (-1, EPIPE, k)
          else (let room = ux_cap k fd - length (ux_queue k p) in
            if room = 0 \<or> d = [] then (-1, EAGAIN, k)
            else (int (min room (length d)), 0,
                  k\<lparr>ux_queue := (ux_queue k)(p := ux_queue k p @ take room d),
                    ux_wrote := (ux_wrote k)(fd := ux_wrote k fd @ take room d)\<rparr>)))"

definition ux_recv :: "int \<Rightarrow> nat \<Rightarrow> unix \<Rightarrow> int \<times> byte list \<times> unix" where
  "ux_recv fd n k =
     (if ux_queue k fd = [] then (case ux_peer k fd of
          Some p \<Rightarrow> if ux_shut k p then (0, [], k) else (-1, [], k)
        | None \<Rightarrow> (0, [], k))
      else (int (min n (length (ux_queue k fd))), take n (ux_queue k fd),
            k\<lparr>ux_queue := (ux_queue k)(fd := drop n (ux_queue k fd))\<rparr>))"

definition ux_socketpair :: "unix \<Rightarrow> (int \<times> int) option \<times> unix" where
  "ux_socketpair k =
     (let a = ux_next k; b = ux_next k + 1 in
      (Some (a, b),
       k\<lparr>ux_peer := (ux_peer k)(a := Some b, b := Some a), ux_queue := (ux_queue k)(a := [], b := []),
         ux_cap := (ux_cap k)(a := ux_bufsize k, b := ux_bufsize k), ux_shut := (ux_shut k)(a := False, b := False),
         ux_wrote := (ux_wrote k)(a := [], b := []), ux_nonblock := (ux_nonblock k)(a := False, b := False),
         ux_next := ux_next k + 2\<rparr>))"

definition ux_close :: "int \<Rightarrow> unix \<Rightarrow> unix" where
  "ux_close fd k =
     (case ux_peer k fd of
        None \<Rightarrow> k
      | Some p \<Rightarrow> k\<lparr>ux_peer := (ux_peer k)(fd := None, p := None)\<rparr>)"

definition unix_kernel :: "nat \<Rightarrow> unix kernel" where
  "unix_kernel fuel =
     \<lparr>k_send = ux_send, k_recv = ux_recv, k_shutdown_wr = (\<lambda>fd k. k\<lparr>ux_shut := (ux_shut k)(fd := True)\<rparr>),
      k_set_sndbuf = (\<lambda>fd n k. k\<lparr>ux_cap := (ux_cap k)(fd := n)\<rparr>), k_socketpair = ux_socketpair,
      k_close = ux_close, k_nonblocking = ux_nonblock, k_fuel = fuel\<rparr>"

definition empty_unix :: "nat \<Rightarrow> unix" where
  "empty_unix bufsize = \<lparr>ux_peer = (\<lambda>fd. None), ux_queue = (\<lambda>fd. []), ux_cap = (\<lambda>fd. 0), ux_shut = (\<lambda>fd. False),
     ux_wrote = (\<lambda>fd. []), ux_nonblock = (\<lambda>fd. False), ux_next = 100, ux_bufsize = bufsize\<rparr>"

text \<open>A pump with one registered handle over a socketpair whose buffer takes three bytes.\<close>

definition small_pump :: "pump_state \<times> unix" where
  "small_pump = (pump_register 7 101 new_pump, snd (ux_socketpair (empty_unix 3)))"

section \<open>What is relied on of the kernel\<close>

lemma take_min_length [simp]: "take (min n (length xs)) xs = take n xs"
  by (simp add: min_def)

text \<open>
  A successful \<^verbatim>\<open>send\<close> of \<open>n\<close> bytes has appended exactly the first \<open>n\<close> to what was ever written
  through the descriptor and a failed one nothing; \<^verbatim>\<open>shutdown\<close> ends the descriptor's output, after
  which \<^verbatim>\<open>send\<close> fails with an error other than \<^verbatim>\<open>EAGAIN\<close> and \<^verbatim>\<open>EINTR\<close>.
\<close>

locale stream_kernel =
  fixes ops :: "'k kernel" and wrote :: "'k \<Rightarrow> int \<Rightarrow> byte list" and shut :: "'k \<Rightarrow> int \<Rightarrow> bool"
  assumes send_len: "k_send ops fd d k = (n, err, k') \<Longrightarrow> n \<le> int (length d)"
    and send_wrote: "k_send ops fd d k = (n, err, k') \<Longrightarrow> wrote k' = (wrote k)(fd := wrote k fd @ take (nat n) d)"
    and send_shut: "k_send ops fd d k = (n, err, k') \<Longrightarrow> shut k' = shut k"
    and send_after_shut: "k_send ops fd d k = (n, err, k') \<Longrightarrow> shut k fd \<Longrightarrow> n \<le> 0 \<and> err \<noteq> EAGAIN \<and> err \<noteq> EINTR"
    and shutdown_wrote: "wrote (k_shutdown_wr ops fd k) = wrote k"
    and shutdown_shut: "shut (k_shutdown_wr ops fd k) = (shut k)(fd := True)"
begin

lemma nb_write_wrote:
  assumes "nb_write ops fd d k = (r, k')"
  shows "shut k' = shut k"
    and "r = Wrote n \<Longrightarrow> n \<le> length d \<and> wrote k' = (wrote k)(fd := wrote k fd @ take n d)"
    and "r \<noteq> Wrote n \<Longrightarrow> (\<forall>m. r \<noteq> Wrote m) \<Longrightarrow> wrote k' = wrote k"
    and "d \<noteq> [] \<Longrightarrow> shut k fd \<Longrightarrow> r = Fatal"
  using assms send_len [of fd d k] send_wrote [of fd d k] send_shut [of fd d k] send_after_shut [of fd d k]
  by (auto simp: nb_write_def split: prod.splits if_splits)

lemma drain_buf_wrote:
  "drain_buf ops fd buf k = (buf', fatal, k') \<Longrightarrow>
     shut k' = shut k \<and> (\<forall>g. g \<noteq> fd \<longrightarrow> wrote k' g = wrote k g) \<and> wrote k' fd @ buf' = wrote k fd @ buf"
proof (induction "length buf" arbitrary: buf k rule: less_induct)
  case less
  show ?case
  proof (cases "buf = []")
    case True
    then show ?thesis using less.prems by (simp add: drain_buf.simps)
  next
    case False
    obtain r k1 where w: "nb_write ops fd buf k = (r, k1)" by fastforce
    show ?thesis
    proof (cases r)
      case (Wrote n)
      then have n: "0 < n" "n \<le> length buf" "wrote k1 = (wrote k)(fd := wrote k fd @ take n buf)" "shut k1 = shut k"
        using nb_write_progress [OF False] nb_write_wrote [OF w] w by auto
      moreover have "drain_buf ops fd (drop n buf) k1 = (buf', fatal, k')"
        using less.prems False w Wrote by (simp add: drain_buf.simps)
      ultimately show ?thesis using less.hyps [of "drop n buf" k1] False by simp
    next
      case WouldBlock
      then show ?thesis using less.prems False w nb_write_wrote [OF w] by (simp add: drain_buf.simps)
    next
      case Fatal
      then show ?thesis using less.prems False w nb_write_wrote [OF w] by (simp add: drain_buf.simps)
    qed
  qed
qed

text \<open>
  An operation appends \<open>f g\<close> to the stream of every registered handle \<open>g\<close> that it leaves registered,
  keeps the invariant, and registers nothing.
\<close>

definition pump_effect :: "(u64 \<Rightarrow> byte list) \<Rightarrow> pump_state \<times> 'k \<Rightarrow> pump_state \<times> 'k \<Rightarrow> bool" where
  "pump_effect f s s' \<longleftrightarrow> pump_ok shut s \<longrightarrow> pump_ok shut s' \<and>
     (\<forall>g. ps_handles (fst s') g \<noteq> None \<longrightarrow> ps_handles (fst s) g \<noteq> None \<and>
        recv_stream wrote s' g = recv_stream wrote s g @ f g)"

lemma effect_refl [simp]: "pump_effect (\<lambda>g. []) s s"
  by (simp add: pump_effect_def)

lemma effect_trans: "pump_effect f s s1 \<Longrightarrow> pump_effect f' s1 s2 \<Longrightarrow> pump_effect (\<lambda>g. f g @ f' g) s s2"
  by (auto simp: pump_effect_def)

text \<open>The shape of every operation on one handle: it touches that entry and its descriptor only.\<close>

lemma effect_at:
  assumes "ps_handles st h = Some e"
    and "ps_handles st' = (ps_handles st)(h := x)" and "ps_early st' = ps_early st"
    and "\<And>g. g \<noteq> pr_inner_fd e \<Longrightarrow> wrote k' g = wrote k g \<and> shut k' g = shut k g"
    and "\<And>e'. pump_ok shut (st, k) \<Longrightarrow> x = Some e' \<Longrightarrow> pr_inner_fd e' = pr_inner_fd e \<and>
      wrote k' (pr_inner_fd e) @ pr_buf e' = wrote k (pr_inner_fd e) @ pr_buf e @ d \<and>
      (shut k' (pr_inner_fd e) \<longleftrightarrow> pr_eof_done e') \<and> (pr_eof_done e' \<longrightarrow> pr_eof e' \<and> pr_buf e' = [])"
  shows "pump_effect (\<lambda>g. if g = h then d else []) (st, k) (st', k')"
  unfolding pump_effect_def
proof (intro impI conjI allI)
  assume ok: "pump_ok shut (st, k)"
  have own: "f = g" if "ps_handles st f = Some a" "ps_handles st g = Some b" "pr_inner_fd a = pr_inner_fd b" for f g a b
    using ok that unfolding pump_ok_def by blast
  have eof: "(shut k (pr_inner_fd a) \<longleftrightarrow> pr_eof_done a) \<and> (pr_eof_done a \<longrightarrow> pr_eof a \<and> pr_buf a = [])"
    if "ps_handles st g = Some a" for g a
    using ok that unfolding pump_ok_def by blast
  have at: "ps_handles st' g = (if g = h then x else ps_handles st g)" for g using assms(2) by simp
  have other: "wrote k' (pr_inner_fd a) = wrote k (pr_inner_fd a) \<and> shut k' (pr_inner_fd a) = shut k (pr_inner_fd a)"
    if "g \<noteq> h" "ps_handles st g = Some a" for g a
    using assms(4) own [OF that(2) assms(1)] that(1) by blast
  have new: "pr_inner_fd e' = pr_inner_fd e \<and> wrote k' (pr_inner_fd e) @ pr_buf e' = wrote k (pr_inner_fd e) @ pr_buf e @ d \<and>
      (shut k' (pr_inner_fd e) \<longleftrightarrow> pr_eof_done e') \<and> (pr_eof_done e' \<longrightarrow> pr_eof e' \<and> pr_buf e' = [])" if "x = Some e'" for e'
    using assms(5) [OF ok that] .
  have src: "\<exists>b. ps_handles st g = Some b \<and> pr_inner_fd b = pr_inner_fd a" if "ps_handles st' g = Some a" for g a
    using that at [of g] new [of a] assms(1) by (cases "g = h") auto
  show "pump_ok shut (st', k')"
    unfolding pump_ok_def prod.case
  proof (intro conjI allI impI)
    fix f g a b
    assume "ps_handles st' f = Some a \<and> ps_handles st' g = Some b \<and> pr_inner_fd a = pr_inner_fd b"
    then show "f = g" using src own by metis
  next
    fix g a assume g: "ps_handles st' g = Some a"
    have "(shut k' (pr_inner_fd a) \<longleftrightarrow> pr_eof_done a) \<and> (pr_eof_done a \<longrightarrow> pr_eof a \<and> pr_buf a = [])"
      using g at [of g] new [of a] other [of g a] eof [of g a] by (cases "g = h") simp_all
    then show "shut k' (pr_inner_fd a) \<longleftrightarrow> pr_eof_done a" "pr_eof_done a \<Longrightarrow> pr_eof a" "pr_eof_done a \<Longrightarrow> pr_buf a = []"
      by blast+
  qed
  fix g assume "ps_handles (fst (st', k')) g \<noteq> None"
  then obtain a where g: "ps_handles st' g = Some a" by auto
  then show "ps_handles (fst (st, k)) g \<noteq> None" using src by fastforce
  show "recv_stream wrote (st', k') g = recv_stream wrote (st, k) g @ (if g = h then d else [])"
  proof (cases "g = h")
    case True
    have "x = Some a" using g at [of g] True by simp
    from new [OF this] show ?thesis using g True assms(1) by (simp add: recv_stream_def)
  next
    case False
    then have "ps_handles st g = Some a" using g at [of g] by simp
    then show ?thesis using g other [OF False] False by (simp add: recv_stream_def)
  qed
qed

lemma push_effect: "pump_effect (\<lambda>g. if g = h then d else []) (st, k) (pump_push ops h d (st, k))"
proof (cases "d = [] \<or> ps_handles st h = None")
  case True
  then show ?thesis
  proof
    assume "ps_handles st h = None"
    then show ?thesis
      by (auto simp: pump_push_def stage_early_def Let_def pump_effect_def pump_ok_def recv_stream_def split: option.splits)
  qed (simp add: pump_push_def pump_effect_def)
next
  case False
  then obtain e where e: "ps_handles st h = Some e" and d: "d \<noteq> []" by auto
  obtain r k1 where w: "nb_write ops (pr_inner_fd e) d k = (r, k1)" by fastforce
  note facts = nb_write_wrote [OF w]
  show ?thesis
  proof (cases "pr_buf e = []")
    case False
    then show ?thesis using e d
      by (auto simp: pump_push_def pump_ok_def intro!: effect_at [OF e])
  next
    case buf: True
    have ok: "\<not> pr_eof_done e" if "pump_ok shut (st, k)" "r \<noteq> Fatal"
      using that e d facts(4) unfolding pump_ok_def by blast
    have shut: "shut k1 = shut k" by (rule facts(1))
    show ?thesis
    proof (cases r)
      case (Wrote n)
      then have n: "wrote k1 = (wrote k)(pr_inner_fd e := wrote k (pr_inner_fd e) @ take n d)" using facts(2) by blast
      let ?x = "if n < length d then Some (e\<lparr>pr_buf := drop n d\<rparr>) else Some e"
      let ?st = "if n < length d then st\<lparr>ps_handles := (ps_handles st)(h \<mapsto> e\<lparr>pr_buf := drop n d\<rparr>)\<rparr> else st"
      have "pump_push ops h d (st, k) = (?st, k1)" using e d buf w Wrote by (simp add: pump_push_def)
      moreover have "pump_effect (\<lambda>g. if g = h then d else []) (st, k) (?st, k1)"
      proof (rule effect_at [OF e, where x = ?x])
        show "ps_handles ?st = (ps_handles st)(h := ?x)" using e by (auto simp: fun_eq_iff)
        show "wrote k1 g = wrote k g \<and> shut k1 g = shut k g" if "g \<noteq> pr_inner_fd e" for g using n shut that by simp
        fix e' assume p: "pump_ok shut (st, k)" "?x = Some e'"
        have "shut k (pr_inner_fd e) = pr_eof_done e" using p(1) e unfolding pump_ok_def by blast
        then show "pr_inner_fd e' = pr_inner_fd e \<and> wrote k1 (pr_inner_fd e) @ pr_buf e' = wrote k (pr_inner_fd e) @ pr_buf e @ d \<and>
            (shut k1 (pr_inner_fd e) \<longleftrightarrow> pr_eof_done e') \<and> (pr_eof_done e' \<longrightarrow> pr_eof e' \<and> pr_buf e' = [])"
          using p ok Wrote n shut buf by (auto split: if_splits)
      qed simp
      ultimately show ?thesis by simp
    next
      case WouldBlock
      have "wrote k1 = wrote k" using facts(3) WouldBlock by blast
      then show ?thesis using e d buf w WouldBlock shut ok
        by (auto simp: pump_push_def pump_ok_def intro!: effect_at [OF e])
    next
      case Fatal
      have "wrote k1 = wrote k" using facts(3) Fatal by blast
      then show ?thesis using e d buf w Fatal shut
        by (auto simp: pump_push_def intro!: effect_at [OF e])
    qed
  qed
qed

lemma drain_entry_effect:
  assumes "drain_entry ops h (st, k) = (b, s')"
  shows "pump_effect (\<lambda>g. []) (st, k) s'"
proof (cases "ps_handles st h")
  case None
  then show ?thesis using assms by (simp add: drain_entry_def)
next
  case (Some e)
  obtain buf fatal k1 where d: "drain_buf ops (pr_inner_fd e) (pr_buf e) k = (buf, fatal, k1)"
    using prod_cases3 by blast
  have w: "shut k1 = shut k" "\<And>g. g \<noteq> pr_inner_fd e \<Longrightarrow> wrote k1 g = wrote k g"
    "wrote k1 (pr_inner_fd e) @ buf = wrote k (pr_inner_fd e) @ pr_buf e"
    using drain_buf_wrote [OF d] by auto
  have empty: "pr_buf e = [] \<Longrightarrow> buf = []" using d by (simp add: drain_buf.simps)
  let ?fin = "buf = [] \<and> pr_eof e \<and> \<not> pr_eof_done e"
  let ?x = "if fatal then None else if ?fin then Some (e\<lparr>pr_buf := buf, pr_eof_done := True\<rparr>) else Some (e\<lparr>pr_buf := buf\<rparr>)"
  let ?k = "if \<not> fatal \<and> ?fin then k_shutdown_wr ops (pr_inner_fd e) k1 else k1"
  have "s' = (st\<lparr>ps_handles := (ps_handles st)(h := ?x)\<rparr>, ?k)"
    using assms Some d by (auto simp: drain_entry_def Let_def split: if_splits)
  moreover have "pump_effect (\<lambda>g. if g = h then [] else []) (st, k) (st\<lparr>ps_handles := (ps_handles st)(h := ?x)\<rparr>, ?k)"
  proof (rule effect_at [OF Some, where x = ?x])
    show "wrote ?k g = wrote k g \<and> shut ?k g = shut k g" if "g \<noteq> pr_inner_fd e" for g
      using that w by (simp add: shutdown_wrote shutdown_shut)
    fix e' assume ok: "pump_ok shut (st, k)" and x: "?x = Some e'"
    have "shut k (pr_inner_fd e) \<longleftrightarrow> pr_eof_done e" "pr_eof_done e \<Longrightarrow> pr_eof e \<and> pr_buf e = []"
      using ok Some unfolding pump_ok_def by blast+
    then show "pr_inner_fd e' = pr_inner_fd e \<and> wrote ?k (pr_inner_fd e) @ pr_buf e' = wrote k (pr_inner_fd e) @ pr_buf e @ [] \<and>
        (shut ?k (pr_inner_fd e) \<longleftrightarrow> pr_eof_done e') \<and> (pr_eof_done e' \<longrightarrow> pr_eof e' \<and> pr_buf e' = [])"
      using x w empty by (auto simp: shutdown_wrote shutdown_shut split: if_splits)
  qed simp_all
  ultimately show ?thesis by simp
qed

lemma drain_pass_effect: "pump_effect (\<lambda>g. []) s (snd (drain_pass ops hs s))"
proof (induction hs arbitrary: s)
  case (Cons h hs)
  obtain b s1 where d: "drain_entry ops h s = (b, s1)" by (cases "drain_entry ops h s")
  then have "pump_effect (\<lambda>g. []) s s1" using drain_entry_effect by (cases s) blast
  from effect_trans [OF this Cons] show ?case using d by (simp add: prod.case_eq_if)
qed simp

lemma mark_eof_effect: "pump_effect (\<lambda>g. []) (st, k) (pump_mark_eof h st, k)"
  by (auto simp: pump_mark_eof_def pump_effect_def pump_ok_def recv_stream_def split: option.splits if_splits)

lemma shutdown_all_effect: "pump_effect (\<lambda>g. []) (st, k) (pump_shutdown_all st, k)"
  by (auto simp: pump_shutdown_all_def pump_effect_def pump_ok_def recv_stream_def split: option.splits)

lemma exec_effect: "pump_effect (\<lambda>g. pushed g [op]) s (pump_exec ops op s)"
proof (cases op)
  case (Push h d)
  have "(\<lambda>g. pushed g [op]) = (\<lambda>g. if g = h then d else [])" using Push by auto
  then show ?thesis using push_effect [of h d "fst s" "snd s"] Push by simp
qed (use mark_eof_effect [of "fst s" "snd s"] shutdown_all_effect [of "fst s" "snd s"] drain_pass_effect in simp_all)

lemma run_effect: "pump_effect (\<lambda>g. pushed g xs) s (fold (pump_exec ops) xs s)"
proof (induction xs arbitrary: s)
  case (Cons x xs)
  have "pushed g (x # xs) = pushed g [x] @ pushed g xs" for g by (cases x) auto
  then show ?case using effect_trans [OF exec_effect Cons] by simp
qed simp

text \<open>The first inbound bytes may come before the descriptor: registering keeps the stream.\<close>

lemma register_stream:
  assumes "wrote k fd = []"
  shows "ps_handles st h = None \<Longrightarrow> recv_stream wrote (pump_register h fd st, k) h = recv_stream wrote (st, k) h"
    and "g \<noteq> h \<Longrightarrow> recv_stream wrote (pump_register h fd st, k) g = recv_stream wrote (st, k) g"
  using assms by (auto simp: pump_register_def recv_stream_def Let_def split: option.splits)

lemma register_ok:
  assumes "pump_ok shut (st, k)" and "\<not> shut k fd" and "\<And>g e. ps_handles st g = Some e \<Longrightarrow> g \<noteq> h \<Longrightarrow> pr_inner_fd e \<noteq> fd"
  shows "pump_ok shut (pump_register h fd st, k)"
  using assms by (auto simp: pump_ok_def pump_register_def Let_def split: if_splits)

end

lemma drain_buf_left: "drain_buf ops fd buf k = (buf', fatal, k') \<Longrightarrow> \<not> fatal \<Longrightarrow> buf' = [] \<or> buf \<noteq> []"
  by (auto simp: drain_buf.simps)

text \<open>A drain pass that leaves no descriptor blocked leaves no work.\<close>

lemma drain_entry_work:
  assumes "drain_entry ops h s = (b, s')"
  shows "ps_handles (fst s') h = Some e \<Longrightarrow> b = [] \<Longrightarrow> \<not> entry_work e"
    and "g \<noteq> h \<Longrightarrow> ps_handles (fst s') g = ps_handles (fst s) g"
  using assms by (auto simp: drain_entry_def entry_work_def Let_def split: prod.splits option.splits if_splits)

lemma drain_pass_other: "g \<notin> set hs \<Longrightarrow> ps_handles (fst (snd (drain_pass ops hs s))) g = ps_handles (fst s) g"
proof (induction hs arbitrary: s)
  case (Cons h hs)
  obtain b s1 where d: "drain_entry ops h s = (b, s1)" by (cases "drain_entry ops h s")
  then show ?case using Cons drain_entry_work(2) [OF d, of g] by (simp add: prod.case_eq_if)
qed simp

lemma drain_pass_work:
  assumes "drain_pass ops hs s = ([], s')" and "distinct hs"
  shows "\<not> has_work hs (fst s')"
  using assms
proof (induction hs arbitrary: s)
  case Nil
  then show ?case by (simp add: has_work_def)
next
  case (Cons h hs)
  obtain b s1 where d: "drain_entry ops h s = (b, s1)" by (cases "drain_entry ops h s")
  then have p: "drain_pass ops hs s1 = ([], s')" "b = []" using Cons.prems by (auto split: prod.splits)
  have "ps_handles (fst s') h = ps_handles (fst s1) h" using drain_pass_other [of h hs ops s1] p Cons.prems(2) by simp
  then show ?case using Cons.IH [OF p(1)] Cons.prems(2) drain_entry_work(1) [OF d _ p(2)]
    by (auto simp: has_work_def split: option.splits)
qed

interpretation unix: stream_kernel "unix_kernel fuel" ux_wrote ux_shut for fuel
  by unfold_locales
     (auto simp: unix_kernel_def ux_send_def Let_def EAGAIN_def EPIPE_def EINTR_def split: option.splits if_splits)

section \<open>Early data\<close>

lemma stage_early_fold:
  assumes "ps_handles st h = None" and "length (unwrap_or [] (ps_early st h)) + length (concat ds) \<le> EARLY_STAGE_CAP"
  shows "\<exists>st'. fold (\<lambda>d. pump_push ops h d) ds (st, k) = (st', k) \<and> ps_handles st' = ps_handles st \<and>
    unwrap_or [] (ps_early st' h) = unwrap_or [] (ps_early st h) @ concat ds"
  using assms
proof (induction ds arbitrary: st)
  case (Cons d ds)
  let ?st = "if d = [] then st else stage_early h d st"
  have p: "pump_push ops h d (st, k) = (?st, k)" using Cons.prems(1) by (simp add: pump_push_def)
  have e: "ps_handles ?st = ps_handles st" "unwrap_or [] (ps_early ?st h) = unwrap_or [] (ps_early st h) @ d"
    using Cons.prems(2) by (cases d; auto simp: stage_early_def Let_def)+
  from Cons.IH [of ?st] Cons.prems e p show ?case by (simp split: if_splits)
qed simp

section \<open>Properties\<close>

text \<open>C10 (no received byte is lost or reordered). Whatever the reader thread pushes, the flusher drains and
  the transport shuts down, in any order, a handle that is still registered has had exactly its
  pushed bytes, in order, written into its socketpair or kept for it; and its end of stream is
  signalled only after its close was seen and all of them were written.\<close>

theorem recv_never_lost:
  assumes "stream_kernel ops wrote shut" and "pump_ok shut (st, k)"
    and "fold (pump_exec ops) xs (st, k) = (st', k')" and "ps_handles st' h = Some e"
  shows "pump_ok shut (st', k') \<and>
    wrote k' (pr_inner_fd e) @ pr_buf e = recv_stream wrote (st, k) h @ pushed h xs \<and>
    (shut k' (pr_inner_fd e) \<longrightarrow> pr_eof e \<and> wrote k' (pr_inner_fd e) = recv_stream wrote (st, k) h @ pushed h xs)"
proof -
  have "stream_kernel.pump_effect wrote shut (\<lambda>g. pushed g xs) (st, k) (st', k')"
    using stream_kernel.run_effect [OF assms(1), of xs "(st, k)"] assms(3) by simp
  then have ok: "pump_ok shut (st', k')" "recv_stream wrote (st', k') h = recv_stream wrote (st, k) h @ pushed h xs"
    using assms(2,4) by (auto simp: stream_kernel.pump_effect_def [OF assms(1)])
  then have "wrote k' (pr_inner_fd e) @ pr_buf e = recv_stream wrote (st, k) h @ pushed h xs"
    using assms(4) by (simp add: recv_stream_def)
  moreover have "shut k' (pr_inner_fd e) \<Longrightarrow> pr_eof e \<and> pr_buf e = []"
    using ok(1) assms(4) unfolding pump_ok_def by blast
  ultimately show ?thesis using ok(1) by auto
qed

theorem recv_never_lost_witness:
  "\<exists>e. ps_handles (fst (fold (pump_exec (unix_kernel 0)) [Push 7 [1, 2, 3, 4], MarkEof 7, Push 7 [5], DrainPass [7]] small_pump)) 7 = Some e \<and>
     ux_wrote (snd (fold (pump_exec (unix_kernel 0)) [Push 7 [1, 2, 3, 4], MarkEof 7, Push 7 [5], DrainPass [7]] small_pump)) (pr_inner_fd e) @ pr_buf e
       = [1, 2, 3, 4, 5]"
proof -
  let ?xs = "[Push 7 [1, 2, 3, 4], MarkEof 7, Push 7 [5], DrainPass [7]]"
  let ?s = "fold (pump_exec (unix_kernel 0)) ?xs small_pump"
  have ok: "pump_ok ux_shut small_pump"
    by (simp add: pump_ok_def small_pump_def pump_register_def new_pump_def ux_socketpair_def Let_def empty_unix_def)
  have "ps_handles (fst ?s) 7 \<noteq> None" by code_simp
  then obtain e where e: "ps_handles (fst ?s) 7 = Some e" by blast
  have st: "recv_stream ux_wrote small_pump 7 = []"
    by (simp add: recv_stream_def small_pump_def pump_register_def new_pump_def ux_socketpair_def Let_def empty_unix_def)
  have "ux_wrote (snd ?s) (pr_inner_fd e) @ pr_buf e = recv_stream ux_wrote small_pump 7 @ pushed 7 ?xs"
    using recv_never_lost [OF unix.stream_kernel_axioms [of 0], of "fst small_pump" "snd small_pump" ?xs "fst ?s" "snd ?s" 7 e] ok e
    by (simp only: prod.collapse)
  with e st show ?thesis by simp
qed

text \<open>The flusher is done when it says so. A drain pass over the registered handles that reports no
  blocked descriptor leaves no handle with undelivered bytes or an undelivered end of stream.\<close>

theorem drain_pass_complete:
  assumes "drain_pass ops hs (st, k) = ([], st', k')" and "distinct hs" and "dom (ps_handles st) \<subseteq> set hs"
  shows "ps_handles st' h = Some e \<Longrightarrow> pr_buf e = [] \<and> (pr_eof e \<longrightarrow> pr_eof_done e)"
proof -
  assume e: "ps_handles st' h = Some e"
  have "h \<in> set hs"
  proof (rule ccontr)
    assume "h \<notin> set hs"
    then have "ps_handles st' h = ps_handles st h" using drain_pass_other [of h hs ops "(st, k)"] assms(1) by simp
    with e assms(3) \<open>h \<notin> set hs\<close> show False by auto
  qed
  moreover have "\<not> has_work hs st'" using drain_pass_work [OF assms(1,2)] by simp
  ultimately show ?thesis using e by (auto simp: has_work_def list_ex_iff entry_work_def)
qed

theorem drain_pass_complete_witness:
  "\<exists>e. ps_handles (fst (snd (drain_pass (unix_kernel 0) [7] (pump_exec (unix_kernel 0) (MarkEof 7) small_pump)))) 7 = Some e \<and> pr_eof_done e"
proof -
  let ?s = "pump_exec (unix_kernel 0) (MarkEof 7) small_pump"
  let ?d = "drain_pass (unix_kernel 0) [7] ?s"
  have b: "fst ?d = []" "ps_handles (fst (snd ?d)) 7 \<noteq> None" by code_simp+
  obtain e where e: "ps_handles (fst (snd ?d)) 7 = Some e" using b(2) by blast
  have eof: "(case ps_handles (fst (snd ?d)) 7 of Some e \<Rightarrow> pr_eof e | None \<Rightarrow> False)" by code_simp
  have d: "drain_pass (unix_kernel 0) [7] (fst ?s, snd ?s) = ([], fst (snd ?d), snd (snd ?d))"
    using b(1) by (metis prod.collapse)
  have "dom (ps_handles (fst ?s)) \<subseteq> set [7]"
    by (auto simp: small_pump_def pump_register_def new_pump_def pump_mark_eof_def Let_def split: if_splits option.splits)
  from drain_pass_complete [OF d _ this e] e eof show ?thesis by simp
qed

text \<open>Early data. Bytes that arrive before their handle is registered, up to 256 KiB, are the first
  bytes of its backlog once it is.\<close>

theorem early_data_kept:
  assumes "ps_handles st h = None" and "ps_early st h = None" and "length (concat ds) \<le> EARLY_STAGE_CAP"
  shows "\<exists>st'. fold (\<lambda>d. pump_push ops h d) ds (st, k) = (st', k) \<and>
    map_option pr_buf (ps_handles (pump_register h fd st') h) = Some (concat ds)"
  using stage_early_fold [of st h ds ops k] assms by (auto simp: pump_register_def Let_def)

theorem early_data_kept_witness:
  "\<exists>st'. fold (\<lambda>d. pump_push (unix_kernel 0) 9 d) [[1, 2], [3]] (new_pump, empty_unix 3) = (st', empty_unix 3) \<and>
     map_option pr_buf (ps_handles (pump_register 9 101 st') 9) = Some [1, 2, 3]"
  using early_data_kept [of new_pump 9 "[[1, 2], [3]]" "unix_kernel 0" "empty_unix 3" 101]
  by (simp add: new_pump_def EARLY_STAGE_CAP_def)

text \<open>An early end of stream is lost. A close that arrives before the handle is registered leaves no
  trace: after registering, the entry is the same as without it, and no later drain signals the
  end of stream.\<close>

theorem early_eof_lost:
  assumes "ps_handles st h = None"
  shows "pump_register h fd (pump_mark_eof h st) = pump_register h fd st \<and>
    map_option pr_eof (ps_handles (pump_register h fd (pump_mark_eof h st)) h) = Some False"
  using assms by (simp add: pump_mark_eof_def pump_register_def Let_def)

theorem early_eof_lost_witness:
  "map_option pr_eof (ps_handles (pump_register 9 101 (pump_mark_eof 9 new_pump)) 9) = Some False"
  by (rule early_eof_lost [THEN conjunct2]) (simp add: new_pump_def)

end
