(* ===== verification/Ipose_Dgram.thy ===== *)
theory Ipose_Dgram
  imports Ipose_Recv
begin

text \<open>
  The datagram pump of \<^verbatim>\<open>crates/ax25-interpose/src/state.rs\<close>: received UI frames are queued per handle
  and the socketpair carries a readiness signal only, one byte while there is something to
  receive.
\<close>

section \<open>Definitions\<close>

record datagram =
  dg_source :: "rstr option"
  dg_data :: "byte list"

datatype dgram_outcome = Got datagram | Empty | Eof | NoHandle

definition DGRAM_QUEUE_CAP :: nat where "DGRAM_QUEUE_CAP = 4096"

record dgram_entry =
  de_app_fd :: int
  de_inner_fd :: int
  de_queue :: "datagram list"
  de_signaled :: bool
  de_eof :: bool

type_synonym dgram_state = "u64 \<rightharpoonup> dgram_entry"

definition dgram_register :: "u64 \<Rightarrow> int \<Rightarrow> int \<Rightarrow> dgram_state \<Rightarrow> dgram_state" where
  "dgram_register h app_fd inner_fd st =
     st(h \<mapsto> \<lparr>de_app_fd = app_fd, de_inner_fd = inner_fd, de_queue = [], de_signaled = False, de_eof = False\<rparr>)"

definition dgram_unregister :: "u64 \<Rightarrow> dgram_state \<Rightarrow> dgram_state" where
  "dgram_unregister h st = st(h := None)"

definition dgram_raise :: "'k kernel \<Rightarrow> dgram_entry \<Rightarrow> 'k \<Rightarrow> dgram_entry \<times> 'k" where
  "dgram_raise ops e k =
     (if de_signaled e then (e, k)
      else (case k_send ops (de_inner_fd e) [0] k of (n, _, k') \<Rightarrow>
        (if n = 1 then e\<lparr>de_signaled := True\<rparr> else e, k')))"

definition dgram_push :: "'k kernel \<Rightarrow> u64 \<Rightarrow> datagram \<Rightarrow> dgram_state \<times> 'k \<Rightarrow> dgram_state \<times> 'k" where
  "dgram_push ops h dg s =
     (case s of (st, k) \<Rightarrow>
      case st h of
        None \<Rightarrow> (st, k)
      | Some e \<Rightarrow>
          if length (de_queue e) \<ge> DGRAM_QUEUE_CAP then (st, k)
          else (case dgram_raise ops (e\<lparr>de_queue := de_queue e @ [dg]\<rparr>) k of (e', k') \<Rightarrow> (st(h \<mapsto> e'), k')))"

definition dgram_recv_one :: "'k kernel \<Rightarrow> u64 \<Rightarrow> dgram_state \<times> 'k \<Rightarrow> dgram_outcome \<times> dgram_state \<times> 'k" where
  "dgram_recv_one ops h s =
     (case s of (st, k) \<Rightarrow>
      case st h of
        None \<Rightarrow> (NoHandle, st, k)
      | Some e \<Rightarrow>
          (case de_queue e of
             dg # q \<Rightarrow>
               (let e1 = e\<lparr>de_queue := q\<rparr> in
                if q = [] \<and> de_signaled e
                then (case k_recv ops (de_app_fd e) 1 k of (_, _, k') \<Rightarrow>
                       (Got dg, st(h \<mapsto> e1\<lparr>de_signaled := False\<rparr>), k'))
                else (Got dg, st(h \<mapsto> e1), k))
           | [] \<Rightarrow> (if de_eof e then Eof else Empty, st, k)))"

fun dgram_shutdown_all :: "'k kernel \<Rightarrow> u64 list \<Rightarrow> dgram_state \<times> 'k \<Rightarrow> dgram_state \<times> 'k" where
  "dgram_shutdown_all ops [] s = s"
| "dgram_shutdown_all ops (h # hs) s =
     (case s of (st, k) \<Rightarrow>
      case st h of
        None \<Rightarrow> dgram_shutdown_all ops hs (st, k)
      | Some e \<Rightarrow>
          (case dgram_raise ops (e\<lparr>de_eof := True\<rparr>) k of (e', k') \<Rightarrow>
             dgram_shutdown_all ops hs (st(h \<mapsto> e'), k')))"

subsection \<open>What the pump promises\<close>

text \<open>The signal: \<open>pipe k fd\<close> are the bytes sent through a descriptor that its peer has not received.
  It holds one byte exactly when the entry says so, which is whenever a datagram is queued, and
  otherwise only to announce the end.\<close>

definition entry_ok :: "('k \<Rightarrow> int \<Rightarrow> byte list) \<Rightarrow> ('k \<Rightarrow> int \<Rightarrow> int option) \<Rightarrow> ('k \<Rightarrow> int \<Rightarrow> bool) \<Rightarrow> 'k \<Rightarrow> dgram_entry \<Rightarrow> bool" where
  "entry_ok pipe pair shut k e \<longleftrightarrow>
     pair k (de_inner_fd e) = Some (de_app_fd e) \<and> \<not> shut k (de_inner_fd e) \<and>
     pipe k (de_inner_fd e) = (if de_signaled e then [0] else []) \<and>
     (de_queue e \<noteq> [] \<longrightarrow> de_signaled e) \<and> (\<not> de_eof e \<and> de_signaled e \<longrightarrow> de_queue e \<noteq> []) \<and>
     length (de_queue e) \<le> DGRAM_QUEUE_CAP"

definition dgram_ok :: "('k \<Rightarrow> int \<Rightarrow> byte list) \<Rightarrow> ('k \<Rightarrow> int \<Rightarrow> int option) \<Rightarrow> ('k \<Rightarrow> int \<Rightarrow> bool) \<Rightarrow> dgram_state \<times> 'k \<Rightarrow> bool" where
  "dgram_ok pipe pair shut s \<longleftrightarrow> (case s of (st, k) \<Rightarrow>
     (\<forall>h g e f. st h = Some e \<and> st g = Some f \<and> de_inner_fd e = de_inner_fd f \<longrightarrow> h = g) \<and>
     (\<forall>h e. st h = Some e \<longrightarrow> entry_ok pipe pair shut k e))"

datatype dgram_op = DPush u64 datagram | DRecv u64 | DShutdown "u64 list"

fun dgram_exec :: "'k kernel \<Rightarrow> dgram_op \<Rightarrow> dgram_state \<times> 'k \<Rightarrow> (u64 \<times> dgram_outcome) list \<times> dgram_state \<times> 'k" where
  "dgram_exec ops (DPush h dg) s = ([], dgram_push ops h dg s)"
| "dgram_exec ops (DRecv h) s = (case dgram_recv_one ops h s of (r, s') \<Rightarrow> ([(h, r)], s'))"
| "dgram_exec ops (DShutdown hs) s = ([], dgram_shutdown_all ops hs s)"

fun dgram_run :: "'k kernel \<Rightarrow> dgram_op list \<Rightarrow> dgram_state \<times> 'k \<Rightarrow> (u64 \<times> dgram_outcome) list \<times> dgram_state \<times> 'k" where
  "dgram_run ops [] s = ([], s)"
| "dgram_run ops (x # xs) s =
     (case dgram_exec ops x s of (r, s1) \<Rightarrow> case dgram_run ops xs s1 of (rs, s2) \<Rightarrow> (r @ rs, s2))"

definition outcomes_of :: "u64 \<Rightarrow> (u64 \<times> dgram_outcome) list \<Rightarrow> dgram_outcome list" where
  "outcomes_of h rs = map snd (filter (\<lambda>r. fst r = h) rs)"

text \<open>The abstract socket of a handle: a queue that takes datagrams while it has room and gives them
  back in order; the end is reported when it is empty.\<close>

type_synonym dgram_spec = "datagram list \<times> bool"

fun spec_step :: "u64 \<Rightarrow> dgram_op \<Rightarrow> dgram_spec \<Rightarrow> dgram_outcome list \<times> dgram_spec" where
  "spec_step h (DPush g dg) (q, eof) = ([], if g = h \<and> length q < DGRAM_QUEUE_CAP then q @ [dg] else q, eof)"
| "spec_step h (DRecv g) (q, eof) =
     (if g = h then (case q of dg # q' \<Rightarrow> ([Got dg], q', eof) | [] \<Rightarrow> ([if eof then Eof else Empty], [], eof))
      else ([], q, eof))"
| "spec_step h (DShutdown hs) (q, eof) = ([], q, eof \<or> h \<in> set hs)"

fun spec_run :: "u64 \<Rightarrow> dgram_op list \<Rightarrow> dgram_spec \<Rightarrow> dgram_outcome list \<times> dgram_spec" where
  "spec_run h [] a = ([], a)"
| "spec_run h (x # xs) a =
     (case spec_step h x a of (r, a1) \<Rightarrow> case spec_run h xs a1 of (rs, a2) \<Rightarrow> (r @ rs, a2))"

definition dgram_view :: "dgram_state \<Rightarrow> u64 \<Rightarrow> dgram_spec option" where
  "dgram_view st h = map_option (\<lambda>e. (de_queue e, de_eof e)) (st h)"

text \<open>The bytes in a socketpair of the instance.\<close>

definition ux_pipe :: "unix \<Rightarrow> int \<Rightarrow> byte list" where
  "ux_pipe k fd = (case ux_pair k fd of Some p \<Rightarrow> ux_queue k p | None \<Rightarrow> [])"

definition small_dgram :: "dgram_state \<times> unix" where
  "small_dgram = (dgram_register 7 100 101 Map.empty, snd (ux_socketpair (empty_unix 3)))"

section \<open>Refinement of the abstract socket\<close>

lemma raise_view:
  assumes "dgram_raise ops e k = (e', k')"
  shows "de_queue e' = de_queue e \<and> de_eof e' = de_eof e"
  using assms by (auto simp: dgram_raise_def split: if_splits prod.splits)

lemma shutdown_view:
  "dgram_view (fst (dgram_shutdown_all ops hs s)) h = map_option (\<lambda>(q, eof). (q, eof \<or> h \<in> set hs)) (dgram_view (fst s) h)"
proof (induction ops hs s rule: dgram_shutdown_all.induct)
  case (2 ops g hs s)
  obtain st k where s: "s = (st, k)" by (cases s)
  show ?case
  proof (cases "st g")
    case None
    then show ?thesis using 2 s by (cases "g = h") (auto simp: dgram_view_def)
  next
    case (Some e)
    obtain e' k' where r: "dgram_raise ops (e\<lparr>de_eof := True\<rparr>) k = (e', k')" by (cases "dgram_raise ops (e\<lparr>de_eof := True\<rparr>) k")
    have "dgram_view (fst (dgram_shutdown_all ops hs (st(g \<mapsto> e'), k'))) h =
        map_option (\<lambda>(q, eof). (q, eof \<or> h \<in> set hs)) (dgram_view (st(g \<mapsto> e')) h)"
      using 2(2) [OF s [symmetric] Some r [symmetric]] by (simp only: fst_conv)
    then show ?thesis using s Some r raise_view [OF r] by (auto simp: dgram_view_def)
  qed
qed (auto simp: dgram_view_def option.map_ident_strong)

lemma exec_view:
  assumes "dgram_exec ops x s = (r, s')" and "dgram_view (fst s) h = Some a"
  shows "spec_step h x a = (outcomes_of h r, the (dgram_view (fst s') h))" and "dgram_view (fst s') h \<noteq> None"
proof -
  obtain st k q eof where s: "s = (st, k)" "a = (q, eof)" by (metis prod.exhaust)
  obtain e where e: "st h = Some e" "de_queue e = q" "de_eof e = eof" using assms(2) s by (auto simp: dgram_view_def)
  have "spec_step h x a = (outcomes_of h r, the (dgram_view (fst s') h)) \<and> dgram_view (fst s') h \<noteq> None"
  proof (cases x)
    case (DPush g dg)
    show ?thesis using assms(1) s e DPush
      by (cases "g = h") (auto simp: dgram_push_def dgram_view_def outcomes_of_def dest: raise_view split: option.splits if_splits prod.splits)
  next
    case (DRecv g)
    show ?thesis using assms(1) s e DRecv
      by (cases "g = h") (auto simp: dgram_recv_one_def dgram_view_def outcomes_of_def Let_def split: option.splits list.splits if_splits prod.splits)
  next
    case (DShutdown hs)
    then show ?thesis using assms shutdown_view [of ops hs s h] s by (auto simp: outcomes_of_def)
  qed
  then show "spec_step h x a = (outcomes_of h r, the (dgram_view (fst s') h))" "dgram_view (fst s') h \<noteq> None" by blast+
qed

lemma run_view:
  assumes "dgram_run ops xs s = (rs, s')" and "dgram_view (fst s) h = Some a"
  shows "spec_run h xs a = (outcomes_of h rs, the (dgram_view (fst s') h))"
  using assms
proof (induction xs arbitrary: s a rs)
  case (Cons x xs)
  obtain r s1 where x: "dgram_exec ops x s = (r, s1)" by (cases "dgram_exec ops x s")
  obtain rs1 where xs: "dgram_run ops xs s1 = (rs1, s')" "rs = r @ rs1" using Cons.prems(1) x by (auto split: prod.splits)
  from exec_view [OF x Cons.prems(2)] Cons.IH [OF xs(1)] xs(2) show ?case by (auto simp: outcomes_of_def)
qed (simp add: outcomes_of_def)

lemma run_view_some:
  assumes "dgram_run ops xs s = (rs, s')" and "dgram_view (fst s) h \<noteq> None"
  shows "dgram_view (fst s') h \<noteq> None"
  using assms
proof (induction xs arbitrary: s rs)
  case (Cons x xs)
  obtain r s1 where x: "dgram_exec ops x s = (r, s1)" by (cases "dgram_exec ops x s")
  obtain a where "dgram_view (fst s) h = Some a" using Cons.prems(2) by blast
  from exec_view(2) [OF x this] Cons.IH Cons.prems(1) x show ?case by (auto split: prod.splits)
qed simp

section \<open>What is relied on of the kernel\<close>

text \<open>
  For a connected pair: sending appends to the pipe, an empty pipe takes a byte, and receiving at
  the other end takes from the front. Only the pipe of that direction changes.
\<close>

locale signal_kernel = stream_kernel ops wrote shut
  for ops :: "'k kernel" and wrote :: "'k \<Rightarrow> int \<Rightarrow> byte list" and shut :: "'k \<Rightarrow> int \<Rightarrow> bool" +
  fixes pipe :: "'k \<Rightarrow> int \<Rightarrow> byte list" and pair :: "'k \<Rightarrow> int \<Rightarrow> int option"
  assumes send_pipe: "pair k fd = Some a \<Longrightarrow> k_send ops fd d k = (n, err, k') \<Longrightarrow>
      pipe k' = (pipe k)(fd := pipe k fd @ take (nat n) d) \<and> pair k' = pair k"
    and send_room: "pair k fd = Some a \<Longrightarrow> \<not> shut k fd \<Longrightarrow> pipe k fd = [] \<Longrightarrow> d \<noteq> [] \<Longrightarrow>
      k_send ops fd d k = (n, err, k') \<Longrightarrow> 0 < n"
    and recv_pipe: "pair k fd = Some a \<Longrightarrow> k_recv ops a m k = (n, d, k') \<Longrightarrow>
      pipe k' = (pipe k)(fd := drop m (pipe k fd)) \<and> pair k' = pair k \<and> shut k' = shut k"
begin

text \<open>An operation that changes one entry and its pipe keeps the invariant.\<close>

lemma ok_at:
  assumes "dgram_ok pipe pair shut (st, k)" and "st h = Some e" and "de_inner_fd e' = de_inner_fd e"
    and "\<And>fd. fd \<noteq> de_inner_fd e \<Longrightarrow> pipe k' fd = pipe k fd" and "pair k' = pair k" and "shut k' = shut k"
    and "entry_ok pipe pair shut k' e'"
  shows "dgram_ok pipe pair shut (st(h \<mapsto> e'), k')"
proof -
  have own: "f = g" if "st f = Some a" "st g = Some b" "de_inner_fd a = de_inner_fd b" for f g a b
    using assms(1) that unfolding dgram_ok_def by blast
  have "entry_ok pipe pair shut k' a" if "st g = Some a" "g \<noteq> h" for g a
  proof -
    have "de_inner_fd a \<noteq> de_inner_fd e" using own [OF that(1) assms(2)] that(2) by blast
    moreover have "entry_ok pipe pair shut k a" using assms(1) that(1) unfolding dgram_ok_def by blast
    ultimately show ?thesis using assms(4-6) by (simp add: entry_ok_def)
  qed
  then show ?thesis using assms(7) own assms(2,3) unfolding dgram_ok_def by (auto split: if_splits)
qed

lemma raise_ok:
  assumes "pair k (de_inner_fd e) = Some a" and "\<not> shut k (de_inner_fd e)"
    and "pipe k (de_inner_fd e) = (if de_signaled e then [0] else [])" and "dgram_raise ops e k = (e', k')"
  shows "e' = e\<lparr>de_signaled := True\<rparr>" and "pipe k' = (pipe k)(de_inner_fd e := [0])"
    and "pair k' = pair k" and "shut k' = shut k"
proof -
  obtain n err k1 where s: "k_send ops (de_inner_fd e) [0] k = (n, err, k1)" using prod_cases3 by blast
  have "n \<le> 1" using send_len [OF s] by simp
  moreover have "0 < n" if "\<not> de_signaled e" using send_room [OF assms(1,2) _ _ s] assms(3) that by simp
  ultimately have n: "n = 1" if "\<not> de_signaled e" using that by fastforce
  note p = send_pipe [OF assms(1) s] send_shut [OF s]
  show "e' = e\<lparr>de_signaled := True\<rparr>" using assms(4) s n by (cases "de_signaled e") (auto simp: dgram_raise_def)
  show "pipe k' = (pipe k)(de_inner_fd e := [0])" "pair k' = pair k" "shut k' = shut k"
    using assms(3,4) s n p by (cases "de_signaled e"; simp add: dgram_raise_def fun_upd_idem)+
qed

lemma push_ok:
  assumes "dgram_ok pipe pair shut (st, k)"
  shows "dgram_ok pipe pair shut (dgram_push ops h dg (st, k))"
proof (cases "st h")
  case None
  then show ?thesis using assms by (simp add: dgram_push_def)
next
  case (Some e)
  have e: "entry_ok pipe pair shut k e" using assms Some unfolding dgram_ok_def by blast
  show ?thesis
  proof (cases "length (de_queue e) < DGRAM_QUEUE_CAP")
    case False
    then show ?thesis using assms Some by (simp add: dgram_push_def)
  next
    case True
    let ?e = "e\<lparr>de_queue := de_queue e @ [dg]\<rparr>"
    obtain e' k' where r: "dgram_raise ops ?e k = (e', k')" by fastforce
    note f = raise_ok [of k ?e "de_app_fd e", OF _ _ _ r]
    have "e' = ?e\<lparr>de_signaled := True\<rparr>" "pipe k' = (pipe k)(de_inner_fd e := [0])" "pair k' = pair k" "shut k' = shut k"
      using f e by (auto simp: entry_ok_def)
    moreover from this have "dgram_ok pipe pair shut (st(h \<mapsto> e'), k')"
      using e True by (intro ok_at [OF assms Some]) (auto simp: entry_ok_def)
    ultimately show ?thesis using Some True r by (simp add: dgram_push_def)
  qed
qed

lemma recv_one_ok:
  assumes "dgram_ok pipe pair shut (st, k)" and "dgram_recv_one ops h (st, k) = (r, st', k')"
  shows "dgram_ok pipe pair shut (st', k')"
proof (cases "st h")
  case None
  then show ?thesis using assms by (simp add: dgram_recv_one_def)
next
  case (Some e)
  have e: "entry_ok pipe pair shut k e" using assms(1) Some unfolding dgram_ok_def by blast
  obtain n d k1 where rcv: "k_recv ops (de_app_fd e) 1 k = (n, d, k1)" using prod_cases3 by blast
  have k1: "pipe k1 = (pipe k)(de_inner_fd e := drop 1 (pipe k (de_inner_fd e)))" "pair k1 = pair k" "shut k1 = shut k"
    using recv_pipe [OF _ rcv, of "de_inner_fd e"] e by (auto simp: entry_ok_def)
  show ?thesis
  proof (cases "de_queue e")
    case Nil
    then show ?thesis using assms Some by (auto simp: dgram_recv_one_def)
  next
    case (Cons dg q)
    have "de_signaled e" using e Cons by (simp add: entry_ok_def)
    then have "dgram_ok pipe pair shut (st(h \<mapsto> e\<lparr>de_queue := q\<rparr>), k)" if "q \<noteq> []"
      using e Cons that by (intro ok_at [OF assms(1) Some]) (auto simp: entry_ok_def)
    moreover have "dgram_ok pipe pair shut (st(h \<mapsto> e\<lparr>de_queue := q, de_signaled := False\<rparr>), k1)" if "q = []"
      using e Cons that k1 \<open>de_signaled e\<close> by (intro ok_at [OF assms(1) Some]) (auto simp: entry_ok_def)
    ultimately show ?thesis using assms(2) Some Cons rcv \<open>de_signaled e\<close>
      by (cases "q = []") (auto simp: dgram_recv_one_def Let_def)
  qed
qed

lemma shutdown_ok: "dgram_ok pipe pair shut (st, k) \<Longrightarrow> dgram_ok pipe pair shut (dgram_shutdown_all ops hs (st, k))"
proof (induction hs arbitrary: st k)
  case (Cons g hs)
  show ?case
  proof (cases "st g")
    case None
    then show ?thesis using Cons by simp
  next
    case (Some e)
    let ?e = "e\<lparr>de_eof := True\<rparr>"
    have e: "entry_ok pipe pair shut k e" using Cons.prems Some unfolding dgram_ok_def by blast
    obtain e' k' where r: "dgram_raise ops ?e k = (e', k')" by (cases "dgram_raise ops ?e k")
    note f = raise_ok [of k ?e "de_app_fd e", OF _ _ _ r]
    have "e' = ?e\<lparr>de_signaled := True\<rparr>" "pipe k' = (pipe k)(de_inner_fd e := [0])" "pair k' = pair k" "shut k' = shut k"
      using f e by (auto simp: entry_ok_def)
    then have "dgram_ok pipe pair shut (st(g \<mapsto> e'), k')"
      using e by (intro ok_at [OF Cons.prems Some]) (auto simp: entry_ok_def)
    then show ?thesis using Cons.IH Some r by simp
  qed
qed simp

lemma exec_ok: "dgram_ok pipe pair shut s \<Longrightarrow> dgram_exec ops x s = (r, s') \<Longrightarrow> dgram_ok pipe pair shut s'"
  using push_ok [of "fst s" "snd s"] recv_one_ok [of "fst s" "snd s" _ _ "fst s'" "snd s'"] shutdown_ok [of "fst s" "snd s"]
  by (cases x) (auto split: prod.splits)

lemma run_ok: "dgram_ok pipe pair shut s \<Longrightarrow> dgram_run ops xs s = (rs, s') \<Longrightarrow> dgram_ok pipe pair shut s'"
  by (induction xs arbitrary: s rs) (auto dest: exec_ok split: prod.splits)

end

lemma ux_pair_sym: "ux_pair k fd = Some a \<Longrightarrow> ux_peer k fd = Some a \<and> ux_peer k a = Some fd \<and> 0 < ux_cap k fd"
  by (auto simp: ux_pair_def split: option.splits if_splits)

lemma ux_queue_pipe:
  assumes "ux_pair k fd = Some a" and "ux_peer k' = ux_peer k" and "ux_cap k' = ux_cap k" and "ux_queue k' = (ux_queue k)(a := q)"
  shows "ux_pipe k' = (ux_pipe k)(fd := q)" and "ux_pair k' = ux_pair k"
proof -
  show pair: "ux_pair k' = ux_pair k" unfolding ux_pair_def assms(2,3) by simp
  have one: "g = fd" if "ux_pair k g = Some a" for g using ux_pair_sym [OF that] ux_pair_sym [OF assms(1)] by simp
  show "ux_pipe k' = (ux_pipe k)(fd := q)"
  proof
    fix g
    show "ux_pipe k' g = ((ux_pipe k)(fd := q)) g"
      using one [of g] assms(1) by (cases "ux_pair k g") (auto simp: ux_pipe_def pair assms(4))
  qed
qed

interpretation unix_signal: signal_kernel "unix_kernel fuel" ux_wrote ux_shut ux_pipe ux_pair for fuel
proof unfold_locales
  fix k k' :: unix and fd a n err d
  assume p: "ux_pair k fd = Some a" and s: "k_send (unix_kernel fuel) fd d k = (n, err, k')"
  note sym = ux_pair_sym [OF p]
  have q: "ux_pipe k fd = ux_queue k a" using p by (simp add: ux_pipe_def)
  have "ux_peer k' = ux_peer k" "ux_cap k' = ux_cap k" "ux_queue k' = (ux_queue k)(a := ux_queue k a @ take (nat n) d)"
    using s p by (auto simp: unix_kernel_def ux_send_def Let_def split: if_splits)
  from ux_queue_pipe [OF p this] q
  show "ux_pipe k' = (ux_pipe k)(fd := ux_pipe k fd @ take (nat n) d) \<and> ux_pair k' = ux_pair k" by simp
  assume "\<not> ux_shut k fd" "ux_pipe k fd = []" "d \<noteq> []"
  then show "0 < n" using s p sym q by (auto simp: unix_kernel_def ux_send_def Let_def)
next
  fix k k' :: unix and fd a n m d
  assume p: "ux_pair k fd = Some a" and r: "k_recv (unix_kernel fuel) a m k = (n, d, k')"
  note sym = ux_pair_sym [OF p]
  have q: "ux_pipe k fd = ux_queue k a" using p by (simp add: ux_pipe_def)
  have "ux_peer k' = ux_peer k" "ux_cap k' = ux_cap k" "ux_queue k' = (ux_queue k)(a := drop m (ux_queue k a))" "ux_shut k' = ux_shut k"
    using r sym by (auto simp: unix_kernel_def ux_recv_def split: if_splits)
  with ux_queue_pipe [OF p this(1-3)] q
  show "ux_pipe k' = (ux_pipe k)(fd := drop m (ux_pipe k fd)) \<and> ux_pair k' = ux_pair k \<and> ux_shut k' = ux_shut k" by simp
qed

section \<open>Properties\<close>

lemma small_dgram_ok: "dgram_ok ux_pipe ux_pair ux_shut small_dgram"
  by (simp add: dgram_ok_def small_dgram_def dgram_register_def entry_ok_def ux_pipe_def ux_pair_def ux_socketpair_def
      Let_def empty_unix_def)

text \<open>C7 (a datagram socket is a bounded queue). Whatever the reader thread queues, the application receives
  and the transport shuts down, in any order and whatever the kernel answers, the outcomes a
  registered handle sees are those of the abstract socket: its datagrams whole and in order, up to
  the capacity, and the end only after the last of them.\<close>

theorem dgram_refines:
  assumes "st h = Some e"
  shows "outcomes_of h (fst (dgram_run ops xs (st, k))) = fst (spec_run h xs (de_queue e, de_eof e)) \<and>
    dgram_view (fst (snd (dgram_run ops xs (st, k)))) h = Some (snd (spec_run h xs (de_queue e, de_eof e)))"
proof -
  obtain rs s' where r: "dgram_run ops xs (st, k) = (rs, s')" by (cases "dgram_run ops xs (st, k)")
  have v: "dgram_view (fst (st, k)) h = Some (de_queue e, de_eof e)" using assms by (simp add: dgram_view_def)
  from run_view [OF r v] run_view_some [OF r, of h] v r show ?thesis by auto
qed

theorem dgram_refines_witness:
  "outcomes_of 7 (fst (dgram_run (unix_kernel 0) [DPush 7 \<lparr>dg_source = None, dg_data = [1]\<rparr>, DShutdown [7], DRecv 7, DRecv 7] small_dgram))
     = [Got \<lparr>dg_source = None, dg_data = [1]\<rparr>, Eof]"
proof -
  have e: "fst small_dgram 7 = Some \<lparr>de_app_fd = 100, de_inner_fd = 101, de_queue = [], de_signaled = False, de_eof = False\<rparr>"
    by (simp add: small_dgram_def dgram_register_def)
  show ?thesis
    using dgram_refines [of "fst small_dgram" 7, OF e, of "unix_kernel 0"
        "[DPush 7 \<lparr>dg_source = None, dg_data = [1]\<rparr>, DShutdown [7], DRecv 7, DRecv 7]" "snd small_dgram"]
    by (simp add: DGRAM_QUEUE_CAP_def)
qed

text \<open>C11 (readiness). Whatever happens to the pump, the socketpair of a registered handle holds at most one
  byte; it holds one whenever a datagram is queued, so a poll wakes, and before the transport is
  gone only then, so a poll never wakes for nothing.\<close>

theorem dgram_readiness:
  assumes "signal_kernel ops wrote shut pipe pair" and "dgram_ok pipe pair shut (st, k)"
    and "dgram_run ops xs (st, k) = (rs, st', k')" and "st' h = Some e"
  shows "dgram_ok pipe pair shut (st', k') \<and> length (pipe k' (de_inner_fd e)) \<le> 1 \<and>
    (de_queue e \<noteq> [] \<longrightarrow> pipe k' (de_inner_fd e) \<noteq> []) \<and>
    (\<not> de_eof e \<longrightarrow> (pipe k' (de_inner_fd e) \<noteq> [] \<longleftrightarrow> de_queue e \<noteq> []))"
proof -
  have ok: "dgram_ok pipe pair shut (st', k')" using signal_kernel.run_ok [OF assms(1-3)] .
  then have "entry_ok pipe pair shut k' e" using assms(4) unfolding dgram_ok_def by blast
  with ok show ?thesis by (auto simp: entry_ok_def split: if_splits)
qed

theorem dgram_readiness_witness:
  "\<exists>e. fst (snd (dgram_run (unix_kernel 0) [DPush 7 \<lparr>dg_source = None, dg_data = [1]\<rparr>] small_dgram)) 7 = Some e \<and>
     ux_pipe (snd (snd (dgram_run (unix_kernel 0) [DPush 7 \<lparr>dg_source = None, dg_data = [1]\<rparr>] small_dgram))) (de_inner_fd e) \<noteq> []"
proof -
  let ?xs = "[DPush 7 \<lparr>dg_source = None, dg_data = [1]\<rparr>]"
  let ?r = "dgram_run (unix_kernel 0) ?xs small_dgram"
  have q: "dgram_view (fst (snd ?r)) 7 = Some ([\<lparr>dg_source = None, dg_data = [1]\<rparr>], False)"
    using run_view [of "unix_kernel 0" ?xs small_dgram "fst ?r" "snd ?r" 7 "([], False)"]
      run_view_some [of "unix_kernel 0" ?xs small_dgram "fst ?r" "snd ?r" 7]
    by (simp add: dgram_view_def small_dgram_def dgram_register_def DGRAM_QUEUE_CAP_def)
  then obtain e where e: "fst (snd ?r) 7 = Some e" "de_queue e \<noteq> []" by (auto simp: dgram_view_def)
  have "dgram_run (unix_kernel 0) ?xs (fst small_dgram, snd small_dgram) = (fst ?r, fst (snd ?r), snd (snd ?r))" by simp
  from dgram_readiness [OF unix_signal.signal_kernel_axioms _ this e(1)] small_dgram_ok e show ?thesis by simp
qed

text \<open>The end is not signalled after queued datagrams. When the transport goes away while exactly one
  datagram is queued, receiving that datagram takes the readiness byte with it: the end is pending
  and the socketpair is empty, so a poll before the next receive waits although there is an end to
  report.\<close>

theorem dgram_eof_unsignalled:
  assumes "signal_kernel ops wrote shut pipe pair" and "dgram_ok pipe pair shut (st, k)"
    and "st h = Some e" and "de_queue e = [dg]" and "de_eof e"
  shows "\<exists>st' k'. dgram_recv_one ops h (st, k) = (Got dg, st', k') \<and> dgram_view st' h = Some ([], True) \<and>
    pipe k' (de_inner_fd e) = [] \<and> fst (dgram_recv_one ops h (st', k')) = Eof"
proof -
  obtain r st' k' where r: "dgram_recv_one ops h (st, k) = (r, st', k')" using prod_cases3 by blast
  have ok: "dgram_ok pipe pair shut (st', k')" using signal_kernel.recv_one_ok [OF assms(1,2) r] .
  have "de_signaled e" using assms(2-4) unfolding dgram_ok_def entry_ok_def by fastforce
  then have st': "r = Got dg" "st' h = Some (e\<lparr>de_queue := [], de_signaled := False\<rparr>)"
    using r assms(3,4) by (auto simp: dgram_recv_one_def Let_def split: prod.splits)
  then have "pipe k' (de_inner_fd e) = []" using ok unfolding dgram_ok_def entry_ok_def by fastforce
  then show ?thesis using r st' assms(5) by (auto simp: dgram_view_def dgram_recv_one_def)
qed

theorem dgram_eof_unsignalled_witness:
  "\<exists>st' k'. dgram_recv_one (unix_kernel 0) 7
       (snd (dgram_run (unix_kernel 0) [DPush 7 \<lparr>dg_source = None, dg_data = [1]\<rparr>, DShutdown [7]] small_dgram))
       = (Got \<lparr>dg_source = None, dg_data = [1]\<rparr>, st', k') \<and> dgram_view st' 7 = Some ([], True)"
proof -
  let ?xs = "[DPush 7 \<lparr>dg_source = None, dg_data = [1]\<rparr>, DShutdown [7]]"
  let ?r = "dgram_run (unix_kernel 0) ?xs small_dgram"
  have q: "dgram_view (fst (snd ?r)) 7 = Some ([\<lparr>dg_source = None, dg_data = [1]\<rparr>], True)"
    using run_view [of "unix_kernel 0" ?xs small_dgram "fst ?r" "snd ?r" 7 "([], False)"]
      run_view_some [of "unix_kernel 0" ?xs small_dgram "fst ?r" "snd ?r" 7]
    by (simp add: dgram_view_def small_dgram_def dgram_register_def DGRAM_QUEUE_CAP_def)
  then obtain e where e: "fst (snd ?r) 7 = Some e" "de_queue e = [\<lparr>dg_source = None, dg_data = [1]\<rparr>]" "de_eof e"
    by (auto simp: dgram_view_def)
  have "dgram_ok ux_pipe ux_pair ux_shut (snd ?r)"
    using unix_signal.run_ok [of small_dgram 0 ?xs "fst ?r" "snd ?r"] small_dgram_ok by simp
  then have ok: "dgram_ok ux_pipe ux_pair ux_shut (fst (snd ?r), snd (snd ?r))" by simp
  from dgram_eof_unsignalled [OF unix_signal.signal_kernel_axioms [of 0] ok e] show ?thesis by (simp only: prod.collapse) blast
qed

end
