(* ===== verification/Rhp_Codec.thy ===== *)
theory Rhp_Codec
  imports Prelude
begin

text \<open>
  The lower layers of the RHPv2 client: the Latin-1 mapping of \<^verbatim>\<open>data\<close> fields
  (\<^verbatim>\<open>crates/rhpv2/src/codec.rs\<close>), the length-prefixed framing
  (\<^verbatim>\<open>crates/rhpv2/src/framing.rs\<close>) and the map from protocol error codes to
  \<^verbatim>\<open>errno\<close> values (\<^verbatim>\<open>crates/rhpv2/src/errors.rs\<close>).

  \<^verbatim>\<open>write_frame\<close> is generic in its writer, a record of the two methods it calls; the writers
  of the program, a vector and a TCP stream that may break after some bytes, are instances.
  An input stream is the bytes that are still to arrive and how it then ends.
\<close>

section \<open>Definitions\<close>

subsection \<open>The data codec\<close>

text \<open>\<^verbatim>\<open>u8 as char\<close>, as the UTF-8 bytes the resulting \<^verbatim>\<open>String\<close> holds.\<close>

definition latin1_char :: "byte \<Rightarrow> rstr" where
  "latin1_char b = (if b < 0x80 then [b] else [0xC0 OR drop_bit 6 b, 0x80 OR (b AND 0x3F)])"

definition to_wire_string :: "byte list \<Rightarrow> rstr" where
  "to_wire_string bytes = concat (map latin1_char bytes)"

definition from_wire_string :: "rstr \<Rightarrow> byte list" where
  "from_wire_string s = map (\<lambda>c. ucast (char_code c)) (str_chars s)"

subsection \<open>Input and output errors\<close>

datatype io_kind = UnexpectedEof | InvalidInput | InvalidData | BrokenPipe | OsError int

type_synonym 'a io_result = "io_kind + 'a"

subsection \<open>Framing\<close>

definition MAX_FRAME :: nat where
  "MAX_FRAME = 65535"

definition to_be_bytes :: "16 word \<Rightarrow> byte list" where
  "to_be_bytes w = [ucast (drop_bit 8 w), ucast w]"

definition from_be_bytes :: "byte list \<Rightarrow> 16 word" where
  "from_be_bytes bs = push_bit 8 (ucast (bs ! 0)) OR ucast (bs ! 1)"

record 'w writer =
  write_all :: "byte list \<Rightarrow> 'w \<Rightarrow> unit io_result \<times> 'w"
  flush :: "'w \<Rightarrow> unit io_result \<times> 'w"

definition write_frame :: "'w writer \<Rightarrow> byte list \<Rightarrow> 'w \<Rightarrow> unit io_result \<times> 'w" where
  "write_frame ops payload w =
     (if length payload > MAX_FRAME then (Inl InvalidInput, w)
      else (let len = to_be_bytes (of_nat (length payload)) in
        case write_all ops len w of
          (Inl e, w1) \<Rightarrow> (Inl e, w1)
        | (Inr _, w1) \<Rightarrow>
            (case write_all ops payload w1 of
               (Inl e, w2) \<Rightarrow> (Inl e, w2)
             | (Inr _, w2) \<Rightarrow> flush ops w2)))"

text \<open>For evaluation, the bound is compared as an integer.\<close>

lemma write_frame_code [code]:
  "write_frame ops payload w =
     (if 65535 < int (length payload) then (Inl InvalidInput, w)
      else (let len = to_be_bytes (of_nat (length payload)) in
        case write_all ops len w of
          (Inl e, w1) \<Rightarrow> (Inl e, w1)
        | (Inr _, w1) \<Rightarrow>
            (case write_all ops payload w1 of
               (Inl e, w2) \<Rightarrow> (Inl e, w2)
             | (Inr _, w2) \<Rightarrow> flush ops w2)))"
  by (simp add: write_frame_def MAX_FRAME_def)

text \<open>What a frame looks like on the wire (reference).\<close>

definition frame_bytes :: "byte list \<Rightarrow> byte list" where
  "frame_bytes p = to_be_bytes (of_nat (length p)) @ p"

record input =
  in_bytes :: "byte list"
  in_end :: "io_kind option"

text \<open>\<^verbatim>\<open>Read::read_exact\<close>: all the bytes, or an error with what there was consumed.\<close>

definition read_exact :: "nat \<Rightarrow> input \<Rightarrow> byte list io_result \<times> input" where
  "read_exact n r =
     (if n \<le> length (in_bytes r) then (Inr (take n (in_bytes r)), r\<lparr>in_bytes := drop n (in_bytes r)\<rparr>)
      else (Inl (unwrap_or UnexpectedEof (in_end r)), r\<lparr>in_bytes := []\<rparr>))"

definition read_frame :: "input \<Rightarrow> byte list option io_result \<times> input" where
  "read_frame r =
     (case read_exact 2 r of
        (Inl e, r1) \<Rightarrow> if e = UnexpectedEof then (Inr None, r1) else (Inl e, r1)
      | (Inr len_buf, r1) \<Rightarrow>
          (let len = unat (from_be_bytes len_buf) in
           case read_exact len r1 of
             (Inl e, r2) \<Rightarrow> (Inl e, r2)
           | (Inr body, r2) \<Rightarrow> (Inr (Some body), r2)))"

text \<open>The writers of the program: \<^verbatim>\<open>Vec<u8>\<close>, and a TCP stream that accepts everything or breaks
  after some more bytes.\<close>

definition vec_writer :: "byte list writer" where
  "vec_writer = \<lparr>write_all = (\<lambda>d w. (Inr (), w @ d)), flush = (\<lambda>w. (Inr (), w))\<rparr>"

record tcp =
  tcp_sent :: "byte list"
  tcp_room :: "nat option"

definition tcp_write_all :: "byte list \<Rightarrow> tcp \<Rightarrow> unit io_result \<times> tcp" where
  "tcp_write_all d w =
     (case tcp_room w of
        None \<Rightarrow> (Inr (), w\<lparr>tcp_sent := tcp_sent w @ d\<rparr>)
      | Some n \<Rightarrow>
          if length d \<le> n then (Inr (), w\<lparr>tcp_sent := tcp_sent w @ d, tcp_room := Some (n - length d)\<rparr>)
          else (Inl BrokenPipe, w\<lparr>tcp_sent := tcp_sent w @ take n d, tcp_room := Some 0\<rparr>))"

definition tcp_writer :: "tcp writer" where
  "tcp_writer = \<lparr>write_all = tcp_write_all, flush = (\<lambda>w. (Inr (), w))\<rparr>"

text \<open>A sequence of frames through one writer, and the frames of an input up to where it stops.\<close>

fun write_frames :: "'w writer \<Rightarrow> byte list list \<Rightarrow> 'w \<Rightarrow> unit io_result \<times> 'w" where
  "write_frames ops [] w = (Inr (), w)"
| "write_frames ops (p # ps) w =
     (case write_frame ops p w of
        (Inl e, w1) \<Rightarrow> (Inl e, w1)
      | (Inr _, w1) \<Rightarrow> write_frames ops ps w1)"

lemma read_frame_consumes:
  "read_frame r = (Inr (Some b), r') \<Longrightarrow> length (in_bytes r') < length (in_bytes r)"
  by (auto simp: read_frame_def read_exact_def Let_def split: if_splits)

function read_frames :: "input \<Rightarrow> byte list list \<times> io_kind option" where
  "read_frames r =
     (case read_frame r of
        (Inl e, _) \<Rightarrow> ([], Some e)
      | (Inr None, _) \<Rightarrow> ([], None)
      | (Inr (Some b), r1) \<Rightarrow> (case read_frames r1 of (bs, e) \<Rightarrow> (b # bs, e)))"
  by pat_completeness auto
termination
  by (relation "measure (\<lambda>r. length (in_bytes r))") (auto dest: read_frame_consumes [OF sym])

declare read_frames.simps [simp del]

text \<open>The frames whose last byte is among the first \<open>k\<close> (reference).\<close>

fun complete_frames :: "nat \<Rightarrow> byte list list \<Rightarrow> byte list list" where
  "complete_frames k [] = []"
| "complete_frames k (p # ps) =
     (if k < length (frame_bytes p) then [] else p # complete_frames (k - length (frame_bytes p)) ps)"

subsection \<open>Error codes\<close>

text \<open>The \<^verbatim>\<open>errno\<close> values of Linux.\<close>

definition EIO :: int where "EIO = 5"

definition EBADF :: int where "EBADF = 9"

definition EACCES :: int where "EACCES = 13"

definition EINVAL :: int where "EINVAL = 22"

definition EOPNOTSUPP :: int where "EOPNOTSUPP = 95"

definition EAFNOSUPPORT :: int where "EAFNOSUPPORT = 97"

definition EADDRINUSE :: int where "EADDRINUSE = 98"

definition EADDRNOTAVAIL :: int where "EADDRNOTAVAIL = 99"

definition ENOTCONN :: int where "ENOTCONN = 107"

definition EHOSTUNREACH :: int where "EHOSTUNREACH = 113"

definition errcode_to_errno :: "int \<Rightarrow> int" where
  "errcode_to_errno errcode =
     (if errcode = 0 then 0
      else if errcode = 3 then EBADF
      else if errcode = 6 then EADDRNOTAVAIL
      else if errcode = 7 then EINVAL
      else if errcode = 8 then EAFNOSUPPORT
      else if errcode = 9 then EADDRINUSE
      else if errcode = 14 then EACCES
      else if errcode = 15 then EHOSTUNREACH
      else if errcode = 16 then EOPNOTSUPP
      else if errcode = 17 then ENOTCONN
      else if errcode = 12 then EINVAL
      else EIO)"

definition errcode_name :: "int \<Rightarrow> string" where
  "errcode_name errcode =
     (if errcode = 0 then ''Ok''
      else if errcode = 3 then ''Invalid handle''
      else if errcode = 6 then ''Invalid local address''
      else if errcode = 7 then ''Invalid remote address''
      else if errcode = 8 then ''Bad or missing family''
      else if errcode = 9 then ''Duplicate socket''
      else if errcode = 12 then ''Bad parameter''
      else if errcode = 14 then ''Unauthorised''
      else if errcode = 15 then ''No route''
      else if errcode = 16 then ''Operation not supported''
      else if errcode = 17 then ''Not connected''
      else ''Unspecified'')"

lemmas errno_defs = EIO_def EBADF_def EACCES_def EINVAL_def EOPNOTSUPP_def EAFNOSUPPORT_def
  EADDRINUSE_def EADDRNOTAVAIL_def ENOTCONN_def EHOSTUNREACH_def

section \<open>The data codec is lossless\<close>

lemma div64_two: "n < 256 \<Longrightarrow> (128 \<le> n \<and> n \<le> 191) \<longleftrightarrow> \<not> n < 128 \<and> even (n div 64)" for n :: nat
proof -
  assume "n < 256"
  then have "n div 64 < 4" by simp
  moreover have "128 \<le> n \<longleftrightarrow> 2 \<le> n div 64" by (simp add: less_eq_div_iff_mult_less_eq)
  moreover have "n \<le> 191 \<longleftrightarrow> n div 64 < 3" by (auto simp: div_less_iff_less_mult)
  moreover have "2 \<le> k \<Longrightarrow> k < 4 \<Longrightarrow> even k \<longleftrightarrow> k < 3" for k :: nat
  proof -
    assume "2 \<le> k" "k < 4"
    then have "k = 2 \<or> k = 3" by auto
    then show ?thesis by auto
  qed
  ultimately show ?thesis by (metis not_less)
qed
lemma cont_byte_bits: "is_cont_byte b \<longleftrightarrow> bit b 7 \<and> \<not> bit b 6"
proof -
  have "bit (unat b) 6 \<longleftrightarrow> bit b 6" by (simp add: bit_unsigned_iff)
  then have "bit b 6 \<longleftrightarrow> odd (unat b div 64)" by (simp add: bit_iff_odd [of "unat b"])
  moreover have "(128 \<le> unat b \<and> unat b \<le> 191) \<longleftrightarrow> \<not> unat b < 128 \<and> even (unat b div 64)"
    by (rule div64_two) simp
  moreover have "bit b 7 \<longleftrightarrow> \<not> unat b < 128" using byte_high_bit [of b] by (simp add: word_less_nat_alt)
  ultimately show ?thesis by (simp add: is_cont_byte_def word_le_nat_alt)
qed

lemma bit_byte_beyond: "8 \<le> n \<Longrightarrow> \<not> bit (b :: byte) n"
  using bit_imp_le_length [of b n] by auto

lemma latin1_lead:
  fixes b :: byte
  assumes "\<not> b < 0x80"
  shows "0xC0 OR drop_bit 6 b = (if bit b 6 then 0xC3 else 0xC2)"
  using assms unfolding byte_high_bit byte_eq_iff
  by (simp add: bit_simps bit_byte_beyond del: One_nat_def; simp)

lemma latin1_cont: "is_cont_byte (0x80 OR (b AND 0x3F))"
  unfolding cont_byte_bits by (simp add: bit_simps)

lemma str_chars_latin1: "str_chars (latin1_char b @ s) = latin1_char b # str_chars s"
  using latin1_lead [of b] by (simp add: latin1_char_def utf8_width_def)

lemma utf8_valid_latin1: "utf8_valid (latin1_char b @ s) = utf8_valid s"
  using latin1_lead [of b] latin1_cont [of b] by (simp add: latin1_char_def)

lemma latin1_code: "ucast (char_code (latin1_char b)) = b"
proof (cases "b < 0x80")
  case False
  then show ?thesis unfolding byte_high_bit
    unfolding latin1_char_def byte_eq_iff by (simp add: bit_simps del: One_nat_def; simp)
next
  case True
  then show ?thesis unfolding byte_eq_iff latin1_char_def by (simp add: bit_simps)
qed

lemma wire_decode: "from_wire_string (to_wire_string bs) = bs"
  by (induction bs) (simp_all add: to_wire_string_def from_wire_string_def str_chars_latin1 latin1_code)

section \<open>Writers\<close>

text \<open>
  What \<^verbatim>\<open>write_frame\<close> relies on: a successful \<^verbatim>\<open>write_all\<close> appends all of its data to
  what was sent, a failed one some prefix of it, and \<^verbatim>\<open>flush\<close> adds nothing.
\<close>

locale byte_writer =
  fixes ops :: "'w writer" and sent :: "'w \<Rightarrow> byte list"
  assumes write_ok: "write_all ops d w = (Inr u, w') \<Longrightarrow> sent w' = sent w @ d"
    and write_err: "write_all ops d w = (Inl e, w') \<Longrightarrow> \<exists>k. sent w' = sent w @ take k d"
    and flush_sent: "flush ops w = (r, w') \<Longrightarrow> sent w' = sent w"
begin

lemma write_frame_sent:
  assumes "write_frame ops p w = (Inr u, w')"
  shows "sent w' = sent w @ frame_bytes p \<and> length p \<le> MAX_FRAME"
  using assms
  by (auto simp: write_frame_def frame_bytes_def Let_def split: if_splits prod.splits sum.splits
      dest!: write_ok flush_sent)

lemma write_frames_sent:
  "write_frames ops ps w = (Inr u, w') \<Longrightarrow>
   sent w' = sent w @ concat (map frame_bytes ps) \<and>
   list_all (\<lambda>p. length p \<le> MAX_FRAME) ps"
  by (induction ps arbitrary: w)
     (auto split: prod.splits sum.splits dest!: write_frame_sent)

lemma write_frame_partial:
  assumes "write_frame ops p w = (Inl e, w')"
  shows "\<exists>k. sent w' = sent w @ take k (to_be_bytes (of_nat (length p)) @ p)"
proof (cases "length p > MAX_FRAME")
  case True
  then show ?thesis using assms by (auto simp: write_frame_def intro: exI [of _ 0])
next
  case False
  let ?h = "to_be_bytes (of_nat (length p))"
  obtain r1 w1 where 1: "write_all ops ?h w = (r1, w1)" by fastforce
  show ?thesis
  proof (cases r1)
    case (Inl e1)
    with 1 obtain k where "sent w1 = sent w @ take k ?h" using write_err by blast
    moreover have "w' = w1" using assms False 1 Inl by (simp add: write_frame_def)
    ultimately have "sent w' = sent w @ take (min k (length ?h)) (?h @ p)" by (auto simp: min_def)
    then show ?thesis by blast
  next
    case (Inr u)
    obtain r2 w2 where 2: "write_all ops p w1 = (r2, w2)" by fastforce
    have s1: "sent w1 = sent w @ ?h" using write_ok 1 Inr by blast
    have "\<exists>k. sent w' = sent w1 @ take k p"
    proof (cases r2)
      case (Inl e2)
      then show ?thesis using assms False 1 Inr 2 write_err [of p w1 e2 w2] by (simp add: write_frame_def)
    next
      case (Inr u2)
      then have "flush ops w2 = (Inl e, w')" using assms False 1 \<open>r1 = Inr u\<close> 2 by (simp add: write_frame_def)
      then have "sent w' = sent w1 @ p" using flush_sent write_ok [of p w1 u2 w2] 2 Inr by simp
      then show ?thesis by (auto intro: exI [of _ "length p"])
    qed
    then obtain k where "sent w' = sent w @ take (length ?h + k) (?h @ p)" using s1 by auto
    then show ?thesis by blast
  qed
qed

lemmas write_frame_prefix = write_frame_partial [folded frame_bytes_def]

lemma write_frames_prefix:
  "write_frames ops ps w = (r, w') \<Longrightarrow> \<exists>k. sent w' = sent w @ take k (concat (map frame_bytes ps))"
proof (induction ps arbitrary: w)
  case (Cons p ps)
  obtain r1 w1 where 1: "write_frame ops p w = (r1, w1)" by fastforce
  show ?case
  proof (cases r1)
    case (Inl e)
    then obtain k where "sent w' = sent w @ take k (frame_bytes p)"
      using Cons.prems 1 write_frame_prefix [of p w e w1] by auto
    then have "sent w' = sent w @ take (min k (length (frame_bytes p))) (concat (map frame_bytes (p # ps)))"
      by (auto simp: min_def)
    then show ?thesis by blast
  next
    case (Inr u)
    then obtain k where "sent w' = sent w @ frame_bytes p @ take k (concat (map frame_bytes ps))"
      using Cons 1 write_frame_sent [of p w u w1] by fastforce
    then have "sent w' = sent w @ take (length (frame_bytes p) + k) (concat (map frame_bytes (p # ps)))"
      by simp
    then show ?thesis by blast
  qed
qed simp

end

interpretation vec: byte_writer vec_writer "\<lambda>w. w"
  by unfold_locales (auto simp: vec_writer_def)

interpretation tcp: byte_writer tcp_writer tcp_sent
  by unfold_locales
     (auto simp: tcp_writer_def tcp_write_all_def split: option.splits if_splits)


section \<open>Reading back\<close>

lemma be_bytes_round_trip [simp]: "from_be_bytes (to_be_bytes w) = w"
proof (rule bit_word_eqI)
  fix n assume n: "n < LENGTH(16)"
  show "bit (from_be_bytes (to_be_bytes w)) n = bit w n"
    using n by (cases "n < 8") (auto simp: from_be_bytes_def to_be_bytes_def bit_simps)
qed

lemma length_to_be_bytes [simp]: "length (to_be_bytes w) = 2"
  by (simp add: to_be_bytes_def)

lemma read_frame_complete:
  assumes "length p \<le> MAX_FRAME"
  shows "read_frame \<lparr>in_bytes = frame_bytes p @ rest, in_end = e\<rparr> =
    (Inr (Some p), \<lparr>in_bytes = rest, in_end = e\<rparr>)"
  using assms
  by (simp add: read_frame_def read_exact_def frame_bytes_def MAX_FRAME_def unat_of_nat)

text \<open>A frame that is cut short is never reported as a frame.\<close>

lemma read_frame_cut:
  assumes "length p \<le> MAX_FRAME" and "k < length (frame_bytes p)"
  shows "\<exists>r'. read_frame \<lparr>in_bytes = take k (frame_bytes p), in_end = None\<rparr> =
    (if k < 2 then Inr None else Inl UnexpectedEof, r')"
proof (cases "k < 2")
  case True
  then show ?thesis using assms by (simp add: read_frame_def read_exact_def frame_bytes_def)
next
  case False
  then have "take k (frame_bytes p) = to_be_bytes (of_nat (length p)) @ take (k - 2) p"
    by (simp add: frame_bytes_def)
  then show ?thesis using assms False
    by (simp add: read_frame_def read_exact_def MAX_FRAME_def unat_of_nat frame_bytes_def Let_def)
qed

lemma complete_frames_prefix:
  "\<exists>n. complete_frames k ps = take n ps \<and> length (concat (map frame_bytes (take n ps))) \<le> k \<and>
     (n < length ps \<longrightarrow> k < length (concat (map frame_bytes (take (Suc n) ps))))"
proof (induction ps arbitrary: k)
  case (Cons p ps)
  show ?case
  proof (cases "k < length (frame_bytes p)")
    case True
    then show ?thesis by (intro exI [of _ 0]) simp
  next
    case False
    obtain n where "complete_frames (k - length (frame_bytes p)) ps = take n ps"
      "length (concat (map frame_bytes (take n ps))) \<le> k - length (frame_bytes p)"
      "n < length ps \<longrightarrow> k - length (frame_bytes p) < length (concat (map frame_bytes (take (Suc n) ps)))"
      using Cons.IH by blast
    with False show ?thesis by (intro exI [of _ "Suc n"]) auto
  qed
qed simp

lemma read_frames_cut:
  assumes "list_all (\<lambda>p. length p \<le> MAX_FRAME) ps"
  shows "fst (read_frames \<lparr>in_bytes = take k (concat (map frame_bytes ps)), in_end = None\<rparr>) = complete_frames k ps"
  using assms
proof (induction ps arbitrary: k)
  case Nil
  then show ?case by (subst read_frames.simps) (simp add: read_frame_def read_exact_def)
next
  case (Cons p ps)
  show ?case
  proof (cases "k < length (frame_bytes p)")
    case True
    then show ?thesis using read_frame_cut [of p k] Cons.prems
      by (subst read_frames.simps) auto
  next
    case False
    then have "take k (concat (map frame_bytes (p # ps))) =
        frame_bytes p @ take (k - length (frame_bytes p)) (concat (map frame_bytes ps))" by simp
    with False show ?thesis using Cons read_frame_complete [of p]
      by (subst read_frames.simps) (simp add: prod.case_eq_if)
  qed
qed

lemma read_frames_all:
  assumes "list_all (\<lambda>p. length p \<le> MAX_FRAME) ps"
  shows "read_frames \<lparr>in_bytes = concat (map frame_bytes ps), in_end = None\<rparr> = (ps, None)"
  using assms
proof (induction ps)
  case Nil
  then show ?case by (subst read_frames.simps) (simp add: read_frame_def read_exact_def)
next
  case (Cons p ps)
  then show ?case using read_frame_complete [of p]
    by (subst read_frames.simps) simp
qed

section \<open>Properties\<close>

text \<open>C28 (data codec). Every byte string survives the wire: the wire string is well-formed UTF-8,
  has one character per byte, and decodes to the same bytes.\<close>

theorem wire_round_trip:
  "from_wire_string (to_wire_string bs) = bs \<and> utf8_valid (to_wire_string bs) \<and>
   length (str_chars (to_wire_string bs)) = length bs"
  using wire_decode [of bs]
  by (induction bs) (simp_all add: to_wire_string_def from_wire_string_def str_chars_latin1 utf8_valid_latin1 latin1_code)

text \<open>C20 (framing). Frames written to a TCP stream are read back one by one, in order, up to the clean
  end of the stream.\<close>

theorem frames_round_trip:
  assumes "write_frames tcp_writer ps w = (Inr (), w')"
  shows "\<exists>bytes. tcp_sent w' = tcp_sent w @ bytes \<and>
    read_frames \<lparr>in_bytes = bytes, in_end = None\<rparr> = (ps, None)"
  using tcp.write_frames_sent [OF assms] read_frames_all [of ps] by auto

theorem frames_round_trip_witness:
  "\<exists>bytes. tcp_sent (snd (write_frames tcp_writer [[1, 2], [], [3]] \<lparr>tcp_sent = [9], tcp_room = Some 9\<rparr>)) = [9] @ bytes \<and>
    read_frames \<lparr>in_bytes = bytes, in_end = None\<rparr> = ([[1, 2], [], [3]], None)"
proof -
  have "fst (write_frames tcp_writer [[1, 2], [], [3]] \<lparr>tcp_sent = [9], tcp_room = Some 9\<rparr>) = Inr ()"
    by (simp add: tcp_writer_def tcp_write_all_def write_frame_def MAX_FRAME_def)
  then have "write_frames tcp_writer [[1, 2], [], [3]] \<lparr>tcp_sent = [9], tcp_room = Some 9\<rparr> =
    (Inr (), snd (write_frames tcp_writer [[1, 2], [], [3]] \<lparr>tcp_sent = [9], tcp_room = Some 9\<rparr>))"
    by (metis prod.collapse)
  from frames_round_trip [OF this] show ?thesis by simp
qed

text \<open>C21 (broken streams). When the connection breaks while frames are written or the stream ends
  anywhere, the reader sees a prefix of the frames and no other frame: exactly those whose last
  byte arrived.\<close>

theorem frames_cut_anywhere:
  assumes "write_frames tcp_writer ps w = (r, w')" and "list_all (\<lambda>p. length p \<le> MAX_FRAME) ps"
  shows "\<exists>bytes. tcp_sent w' = tcp_sent w @ bytes \<and>
    (\<forall>k \<le> length bytes. \<exists>n. fst (read_frames \<lparr>in_bytes = take k bytes, in_end = None\<rparr>) = take n ps \<and>
      length (concat (map frame_bytes (take n ps))) \<le> k \<and>
      (n < length ps \<longrightarrow> k < length (concat (map frame_bytes (take (Suc n) ps)))))"
proof -
  obtain j where j: "tcp_sent w' = tcp_sent w @ take j (concat (map frame_bytes ps))"
    using tcp.write_frames_prefix [OF assms(1)] by blast
  have "fst (read_frames \<lparr>in_bytes = take k (take j (concat (map frame_bytes ps))), in_end = None\<rparr>) =
      complete_frames k ps" if "k \<le> length (take j (concat (map frame_bytes ps)))" for k
  proof -
    have "k \<le> j" using that by simp
    then show ?thesis using read_frames_cut [OF assms(2), of k] by (simp add: min_absorb1)
  qed
  then show ?thesis using j complete_frames_prefix by fastforce
qed

theorem frames_cut_anywhere_witness:
  "\<exists>bytes. tcp_sent (snd (write_frames tcp_writer [[1, 2], [3]] \<lparr>tcp_sent = [], tcp_room = Some 6\<rparr>)) = bytes \<and>
    (\<exists>n. fst (read_frames \<lparr>in_bytes = take 6 bytes, in_end = None\<rparr>) = take n [[1, 2], [3]])"
proof -
  let ?w = "\<lparr>tcp_sent = [], tcp_room = Some 6\<rparr>"
  let ?r = "write_frames tcp_writer [[1, 2], [3]] ?w"
  have e: "?r = (fst ?r, snd ?r)" by simp
  have l: "length (tcp_sent (snd ?r)) = 6"
    by (simp add: tcp_writer_def tcp_write_all_def write_frame_def MAX_FRAME_def Let_def)
  obtain bytes where b: "tcp_sent (snd ?r) = tcp_sent ?w @ bytes"
    "\<forall>k \<le> length bytes. \<exists>n. fst (read_frames \<lparr>in_bytes = take k bytes, in_end = None\<rparr>) = take n [[1, 2], [3]]"
    using frames_cut_anywhere [OF e] by (auto simp: MAX_FRAME_def)
  have s: "tcp_sent (snd ?r) = bytes" using b(1) by (simp only: tcp.simps append_Nil)
  have "6 \<le> length bytes" using l by (simp only: s)
  from s b(2) [rule_format, OF this] show ?thesis by (rule exI [of _ bytes, OF conjI])
qed

text \<open>Error codes. Only code 0 maps to success; every other code gives a positive
  \<^verbatim>\<open>errno\<close>, and the two tables agree on which codes are known.\<close>

theorem errcode_tables_agree:
  "(errcode_to_errno c = 0 \<longleftrightarrow> c = 0) \<and> 0 \<le> errcode_to_errno c \<and>
   (errcode_name c = ''Unspecified'' \<longleftrightarrow> errcode_to_errno c = EIO)"
  by (simp add: errcode_to_errno_def errcode_name_def errno_defs)

end
