(* ===== verification/Rhp_Messages.thy ===== *)
theory Rhp_Messages
  imports Rhp_Codec
begin

text \<open>
  \<^verbatim>\<open>crates/rhpv2/src/messages.rs\<close>: the request structs with the fields they serialise to,
  and the accessors over a parsed reply or push. JSON itself is the \<^verbatim>\<open>serde_json\<close> crate; the
  operations of it that the sources call are the record \<open>json_api\<close>, a parameter of every
  definition that uses them.
\<close>

section \<open>Definitions\<close>

subsection \<open>Constants\<close>

definition OPEN_FLAG_ACTIVE :: "32 word" where "OPEN_FLAG_ACTIVE = 128"

definition OPEN_FLAG_PASSIVE :: "32 word" where "OPEN_FLAG_PASSIVE = 0"

definition STATUS_CONNECTED :: int where "STATUS_CONNECTED = 0x02"

definition MAX_SEND_CHUNK :: nat where "MAX_SEND_CHUNK = 8100"

subsection \<open>Requests\<close>

text \<open>One constructor per request struct, with its fields in declaration order.\<close>

datatype request =
    OpenReq rstr u64 rstr rstr "rstr option" rstr "rstr option" "rstr option" "32 word"
  | SendReq rstr u64 u64 rstr
  | CloseReq rstr u64 u64
  | SocketReq rstr u64 rstr rstr
  | SendToReq rstr u64 u64 rstr rstr rstr
  | BindReq rstr u64 u64 rstr "rstr option"
  | ListenReq rstr u64 u64 "32 word"
  | AuthReq rstr u64 rstr rstr

text \<open>A serialised value, and the fields a derived \<^verbatim>\<open>Serialize\<close> emits: in declaration order, under
  the renamed key, without the optional fields that are \<^verbatim>\<open>None\<close>.\<close>

datatype field = FStr rstr | FNum u64

fun opt_field :: "string \<Rightarrow> rstr option \<Rightarrow> (string \<times> field) list" where
  "opt_field k None = []"
| "opt_field k (Some v) = [(k, FStr v)]"

fun req_fields :: "request \<Rightarrow> (string \<times> field) list" where
  "req_fields (OpenReq typ rid pfam mode port local remote via flags) =
     [(''type'', FStr typ), (''id'', FNum rid), (''pfam'', FStr pfam), (''mode'', FStr mode)] @
     opt_field ''port'' port @ [(''local'', FStr local)] @ opt_field ''remote'' remote @
     opt_field ''via'' via @ [(''flags'', FNum (ucast flags))]"
| "req_fields (SendReq typ rid handle data) =
     [(''type'', FStr typ), (''id'', FNum rid), (''handle'', FNum handle), (''data'', FStr data)]"
| "req_fields (CloseReq typ rid handle) =
     [(''type'', FStr typ), (''id'', FNum rid), (''handle'', FNum handle)]"
| "req_fields (SocketReq typ rid pfam mode) =
     [(''type'', FStr typ), (''id'', FNum rid), (''pfam'', FStr pfam), (''mode'', FStr mode)]"
| "req_fields (SendToReq typ rid handle remote local data) =
     [(''type'', FStr typ), (''id'', FNum rid), (''handle'', FNum handle), (''remote'', FStr remote),
      (''local'', FStr local), (''data'', FStr data)]"
| "req_fields (BindReq typ rid handle local port) =
     [(''type'', FStr typ), (''id'', FNum rid), (''handle'', FNum handle), (''local'', FStr local)] @
     opt_field ''port'' port"
| "req_fields (ListenReq typ rid handle flags) =
     [(''type'', FStr typ), (''id'', FNum rid), (''handle'', FNum handle), (''flags'', FNum (ucast flags))]"
| "req_fields (AuthReq typ rid user pass) =
     [(''type'', FStr typ), (''id'', FNum rid), (''user'', FStr user), (''pass'', FStr pass)]"

text \<open>The correlation id of a request (reference).\<close>

fun req_id :: "request \<Rightarrow> u64" where
  "req_id (OpenReq _ i _ _ _ _ _ _ _) = i"
| "req_id (SendReq _ i _ _) = i"
| "req_id (CloseReq _ i _) = i"
| "req_id (SocketReq _ i _ _) = i"
| "req_id (SendToReq _ i _ _ _ _) = i"
| "req_id (BindReq _ i _ _ _) = i"
| "req_id (ListenReq _ i _ _) = i"
| "req_id (AuthReq _ i _ _) = i"

subsection \<open>Replies and pushes\<close>

text \<open>What is used of \<^verbatim>\<open>serde_json\<close>: parsing, serialising a struct, and the accessors of a value.\<close>

record 'j json_api =
  from_slice :: "byte list \<Rightarrow> 'j option"
  to_vec :: "(string \<times> field) list \<Rightarrow> byte list option"
  json_get :: "'j \<Rightarrow> string \<Rightarrow> 'j option"
  as_str :: "'j \<Rightarrow> rstr option"
  as_u64 :: "'j \<Rightarrow> u64 option"
  as_i64 :: "'j \<Rightarrow> int option"

text \<open>\<^verbatim>\<open>Option::and_then\<close> and \<^verbatim>\<open>Option::or_else\<close>.\<close>

definition and_then :: "'a option \<Rightarrow> ('a \<Rightarrow> 'b option) \<Rightarrow> 'b option" where
  [std_defs]: "and_then x f = (case x of None \<Rightarrow> None | Some y \<Rightarrow> f y)"

definition or_else :: "'a option \<Rightarrow> 'a option \<Rightarrow> 'a option" where
  [std_defs]: "or_else x y = (case x of None \<Rightarrow> y | Some z \<Rightarrow> Some z)"

text \<open>A \<^verbatim>\<open>Frame\<close> is the parsed value it wraps.\<close>

definition frame_parse :: "'j json_api \<Rightarrow> byte list \<Rightarrow> 'j option" where
  "frame_parse api bytes = from_slice api bytes"

definition frame_typ :: "'j json_api \<Rightarrow> 'j \<Rightarrow> rstr" where
  "frame_typ api v = unwrap_or [] (and_then (json_get api v ''type'') (as_str api))"

definition frame_id :: "'j json_api \<Rightarrow> 'j \<Rightarrow> u64 option" where
  "frame_id api v = and_then (json_get api v ''id'') (as_u64 api)"

definition frame_handle :: "'j json_api \<Rightarrow> 'j \<Rightarrow> u64 option" where
  "frame_handle api v = and_then (json_get api v ''handle'') (as_u64 api)"

definition frame_child :: "'j json_api \<Rightarrow> 'j \<Rightarrow> u64 option" where
  "frame_child api v = and_then (json_get api v ''child'') (as_u64 api)"

definition frame_seqno :: "'j json_api \<Rightarrow> 'j \<Rightarrow> u64 option" where
  "frame_seqno api v = and_then (json_get api v ''seqno'') (as_u64 api)"

definition frame_errcode :: "'j json_api \<Rightarrow> 'j \<Rightarrow> int" where
  "frame_errcode api v =
     unwrap_or 0 (and_then (or_else (json_get api v ''errCode'') (json_get api v ''errcode'')) (as_i64 api))"

definition frame_status_flags :: "'j json_api \<Rightarrow> 'j \<Rightarrow> int" where
  "frame_status_flags api v =
     unwrap_or (frame_errcode api v)
       (and_then (or_else (json_get api v ''flags'') (json_get api v ''status'')) (as_i64 api))"

definition frame_errtext :: "'j json_api \<Rightarrow> 'j \<Rightarrow> rstr option" where
  "frame_errtext api v =
     and_then (or_else (json_get api v ''errText'') (json_get api v ''errtext'')) (as_str api)"

definition frame_data_str :: "'j json_api \<Rightarrow> 'j \<Rightarrow> rstr option" where
  "frame_data_str api v = and_then (json_get api v ''data'') (as_str api)"

definition frame_is_dgram_recv :: "'j json_api \<Rightarrow> 'j \<Rightarrow> bool" where
  "frame_is_dgram_recv api v \<longleftrightarrow> json_get api v ''remote'' \<noteq> None \<or> json_get api v ''port'' \<noteq> None"

definition frame_remote :: "'j json_api \<Rightarrow> 'j \<Rightarrow> rstr option" where
  "frame_remote api v = and_then (json_get api v ''remote'') (as_str api)"

definition frame_local :: "'j json_api \<Rightarrow> 'j \<Rightarrow> rstr option" where
  "frame_local api v = and_then (json_get api v ''local'') (as_str api)"

lemmas frame_defs = frame_parse_def frame_typ_def frame_id_def frame_handle_def frame_child_def
  frame_errcode_def frame_status_flags_def frame_errtext_def frame_data_str_def
  frame_is_dgram_recv_def frame_remote_def frame_local_def and_then_def or_else_def

subsection \<open>A sample of JSON values\<close>

text \<open>Values with integers, strings and objects, parsed by a table of known texts, for evaluating the
  definitions on examples.\<close>

datatype json = JInt int | JStr rstr | JObj "(string \<times> json) list"

fun jobj_get :: "json \<Rightarrow> string \<Rightarrow> json option" where
  "jobj_get (JObj kvs) k = map_of kvs k"
| "jobj_get _ k = None"

fun jstr :: "json \<Rightarrow> rstr option" where
  "jstr (JStr s) = Some s"
| "jstr _ = None"

fun ju64 :: "json \<Rightarrow> u64 option" where
  "ju64 (JInt i) = (if 0 \<le> i then Some (of_int i) else None)"
| "ju64 _ = None"

fun ji64 :: "json \<Rightarrow> int option" where
  "ji64 (JInt i) = Some i"
| "ji64 _ = None"

definition table_json :: "(byte list \<times> json) list \<Rightarrow> json json_api" where
  "table_json tbl =
     \<lparr>from_slice = map_of tbl, to_vec = (\<lambda>fs. Some (concat (map (\<lambda>f. ascii (fst f)) fs))),
      json_get = jobj_get, as_str = jstr, as_u64 = ju64, as_i64 = ji64\<rparr>"

section \<open>Properties\<close>

lemma opt_field_cases: "opt_field k v = [] \<or> (\<exists>x. opt_field k v = [(k, FStr x)])"
  by (cases v) auto

text \<open>Requests on the wire. Every request serialises its type first and its correlation id second,
  under pairwise different keys.\<close>

theorem request_wire_shape:
  "\<exists>ty rest. req_fields r = (''type'', FStr ty) # (''id'', FNum (req_id r)) # rest \<and>
     distinct (map fst (req_fields r))"
proof (cases r)
  case (OpenReq ty i pfam mode port local remote via flags)
  then show ?thesis
    using opt_field_cases [of "''port''" port] opt_field_cases [of "''remote''" remote]
      opt_field_cases [of "''via''" via] by auto
next
  case (BindReq ty i handle local port)
  then show ?thesis using opt_field_cases [of "''port''" port] by auto
qed auto

end
