(* ===== verification/Rhp_Client.thy ===== *)
theory Rhp_Client
  imports Rhp_Messages
begin

text \<open>
  \<^verbatim>\<open>crates/rhpv2/src/client.rs\<close>: the multiplexed client. Its state is one record: the request
  counter, the table of pending requests, the connect and accept registries, the closed flag,
  both halves of the TCP stream and the state of the event sink.

  Threads. The reader thread is \<open>reader_step\<close>, one iteration of \<^verbatim>\<open>reader_loop\<close>. A thread
  that blocks lets the reader run: a schedule in the state says how many iterations the reader
  makes during each successive wait before the wait times out (or, for a wait without a
  timeout, how many it makes at all). Every theorem holds for every schedule. The steps of
  several threads may also interleave freely; that is the relation \<open>client_step\<close>.

  A channel of a request is a number: its sender is the entry of the pending table, its
  receiver the requester, its content the entry of \<open>rc_mail\<close>.
\<close>

section \<open>Definitions\<close>

text \<open>\<^verbatim>\<open>slice::chunks\<close>.\<close>

function chunks :: "nat \<Rightarrow> 'a list \<Rightarrow> 'a list list" where
  "chunks n xs = (if xs = [] \<or> n = 0 then [] else take n xs # chunks n (drop n xs))"
  by pat_completeness auto
termination
  by (relation "measure (\<lambda>(n, xs). length xs)") auto

declare chunks.simps [simp del]

definition ECONNRESET :: int where "ECONNRESET = 104"

definition ETIMEDOUT :: int where "ETIMEDOUT = 110"

definition ECONNREFUSED :: int where "ECONNREFUSED = 111"

subsection \<open>Callbacks, errors and results\<close>

record 's event_sink =
  on_recv :: "u64 \<Rightarrow> byte list \<Rightarrow> 's \<Rightarrow> 's"
  on_dgram :: "u64 \<Rightarrow> rstr option \<Rightarrow> rstr option \<Rightarrow> byte list \<Rightarrow> 's \<Rightarrow> 's"
  on_accept :: "u64 \<Rightarrow> u64 \<Rightarrow> rstr option \<Rightarrow> rstr option \<Rightarrow> 's \<Rightarrow> 's"
  on_status :: "u64 \<Rightarrow> int \<Rightarrow> 's \<Rightarrow> 's"
  on_close :: "u64 \<Rightarrow> 's \<Rightarrow> 's"
  on_disconnect :: "'s \<Rightarrow> 's"

definition NullSink :: "'s event_sink" where
  "NullSink = \<lparr>on_recv = (\<lambda>h d s. s), on_dgram = (\<lambda>h a b d s. s), on_accept = (\<lambda>l c r a s. s),
     on_status = (\<lambda>h f s. s), on_close = (\<lambda>h s. s), on_disconnect = (\<lambda>s. s)\<rparr>"

datatype rhp_error = Io io_kind | Timeout | Server int "rstr option"

fun to_errno :: "rhp_error \<Rightarrow> int" where
  "to_errno (Io _) = EIO"
| "to_errno Timeout = ETIMEDOUT"
| "to_errno (Server errcode _) = errcode_to_errno errcode"

record open_result =
  or_handle :: u64
  or_errcode :: int
  or_errtext :: "rstr option"

datatype conn_phase = Pending | Connected | Failed int

record accept_info =
  ai_child_handle :: u64
  ai_remote :: "rstr option"
  ai_local :: "rstr option"

subsection \<open>The connect registry\<close>

type_synonym conn_registry = "u64 \<rightharpoonup> conn_phase"

definition set_pending :: "u64 \<Rightarrow> conn_registry \<Rightarrow> conn_registry" where
  "set_pending h m = (case m h of None \<Rightarrow> m(h \<mapsto> Pending) | Some _ \<Rightarrow> m)"

definition mark_connected :: "u64 \<Rightarrow> conn_registry \<Rightarrow> conn_registry" where
  "mark_connected h m = m(h \<mapsto> Connected)"

definition mark_failed :: "u64 \<Rightarrow> int \<Rightarrow> conn_registry \<Rightarrow> conn_registry" where
  "mark_failed h errno m = (if m h = Some Pending then m(h \<mapsto> Failed errno) else m)"

definition fail_all_pending :: "int \<Rightarrow> conn_registry \<Rightarrow> conn_registry" where
  "fail_all_pending errno m =
     (\<lambda>h. map_option (\<lambda>p. if p = Pending then Failed errno else p) (m h))"

definition conn_result :: "u64 \<Rightarrow> conn_registry \<Rightarrow> (int + unit) option" where
  "conn_result h m =
     (case m h of Some Connected \<Rightarrow> Some (Inr ()) | Some (Failed e) \<Rightarrow> Some (Inl e) | _ \<Rightarrow> None)"

definition take_error :: "u64 \<Rightarrow> conn_registry \<Rightarrow> int \<times> conn_registry" where
  "take_error h m =
     (case m h of
        Some p \<Rightarrow>
          (let e = (case p of Failed x \<Rightarrow> x | _ \<Rightarrow> 0)
           in (e, if e \<noteq> 0 then m(h \<mapsto> Connected) else m))
      | None \<Rightarrow> (0, m))"

definition conn_forget :: "u64 \<Rightarrow> conn_registry \<Rightarrow> conn_registry" where
  "conn_forget h m = m(h := None)"

subsection \<open>The accept registry\<close>

type_synonym accept_registry = "u64 \<rightharpoonup> accept_info list"

definition accept_push :: "u64 \<Rightarrow> accept_info \<Rightarrow> accept_registry \<Rightarrow> accept_registry" where
  "accept_push listener info m = m(listener \<mapsto> unwrap_or [] (m listener) @ [info])"

definition accept_pop :: "u64 \<Rightarrow> accept_registry \<Rightarrow> accept_info option \<times> accept_registry" where
  "accept_pop listener m =
     (case m listener of Some (a # q) \<Rightarrow> (Some a, m(listener \<mapsto> q)) | _ \<Rightarrow> (None, m))"

definition accept_forget :: "u64 \<Rightarrow> accept_registry \<Rightarrow> accept_registry" where
  "accept_forget listener m = m(listener := None)"

subsection \<open>The client and its reader thread\<close>

record ('j, 's) client =
  rc_writer :: tcp
  rc_next_id :: u64
  rc_pending :: "u64 \<rightharpoonup> nat"
  rc_conns :: conn_registry
  rc_accepts :: accept_registry
  rc_closed :: bool
  rc_sink :: 's
  rc_input :: input
  rc_mail :: "nat \<rightharpoonup> 'j"
  rc_chans :: nat
  rc_sched :: "nat list"

definition push_recv :: "'j json_api \<Rightarrow> 's event_sink \<Rightarrow> 'j \<Rightarrow> ('j, 's) client \<Rightarrow> ('j, 's) client" where
  "push_recv api snk f st =
     (case frame_handle api f of
        None \<Rightarrow> st
      | Some h \<Rightarrow>
          (let data = unwrap_or [] (map_option from_wire_string (frame_data_str api f)) in
           if frame_is_dgram_recv api f
           then st\<lparr>rc_sink := on_dgram snk h (frame_remote api f) (frame_local api f) data (rc_sink st)\<rparr>
           else st\<lparr>rc_sink := on_recv snk h data (rc_sink st)\<rparr>))"

definition push_accept :: "'j json_api \<Rightarrow> 's event_sink \<Rightarrow> 'j \<Rightarrow> ('j, 's) client \<Rightarrow> ('j, 's) client" where
  "push_accept api snk f st =
     (case (frame_handle api f, frame_child api f) of
        (Some listener, Some child) \<Rightarrow>
          (let remote = frame_remote api f; local = frame_local api f in
           st\<lparr>rc_accepts := accept_push listener
                  \<lparr>ai_child_handle = child, ai_remote = remote, ai_local = local\<rparr> (rc_accepts st),
              rc_sink := on_accept snk listener child remote local (rc_sink st)\<rparr>)
      | _ \<Rightarrow> st)"

definition push_status :: "'j json_api \<Rightarrow> 's event_sink \<Rightarrow> 'j \<Rightarrow> ('j, 's) client \<Rightarrow> ('j, 's) client" where
  "push_status api snk f st =
     (case frame_handle api f of
        None \<Rightarrow> st
      | Some h \<Rightarrow>
          (let flags = frame_status_flags api f in
           st\<lparr>rc_conns := (if flags AND STATUS_CONNECTED \<noteq> 0 then mark_connected h (rc_conns st) else rc_conns st),
              rc_sink := on_status snk h flags (rc_sink st)\<rparr>))"

definition push_close :: "'j json_api \<Rightarrow> 's event_sink \<Rightarrow> 'j \<Rightarrow> ('j, 's) client \<Rightarrow> ('j, 's) client" where
  "push_close api snk f st =
     (case frame_handle api f of
        None \<Rightarrow> st
      | Some h \<Rightarrow>
          (let errno = (if frame_errcode api f = 0 then ECONNREFUSED else errcode_to_errno (frame_errcode api f)) in
           st\<lparr>rc_conns := mark_failed h errno (rc_conns st), rc_sink := on_close snk h (rc_sink st)\<rparr>))"

definition dispatch_push :: "'j json_api \<Rightarrow> 's event_sink \<Rightarrow> 'j \<Rightarrow> ('j, 's) client \<Rightarrow> ('j, 's) client" where
  "dispatch_push api snk f st =
     (if frame_typ api f = ascii ''recv'' then push_recv api snk f st
      else if frame_typ api f = ascii ''accept'' then push_accept api snk f st
      else if frame_typ api f = ascii ''status'' then push_status api snk f st
      else if frame_typ api f = ascii ''close'' then push_close api snk f st
      else st)"

text \<open>A decoded frame: the reply of a pending request, or a push.\<close>

definition handle_frame :: "'j json_api \<Rightarrow> 's event_sink \<Rightarrow> 'j \<Rightarrow> ('j, 's) client \<Rightarrow> ('j, 's) client" where
  "handle_frame api snk f st =
     (case and_then (frame_id api f) (rc_pending st) of
        Some tx \<Rightarrow>
          st\<lparr>rc_pending := (rc_pending st)(the (frame_id api f) := None), rc_mail := (rc_mail st)(tx \<mapsto> f)\<rparr>
      | None \<Rightarrow> dispatch_push api snk f st)"

definition reader_exit :: "'s event_sink \<Rightarrow> ('j, 's) client \<Rightarrow> ('j, 's) client" where
  "reader_exit snk st =
     st\<lparr>rc_closed := True, rc_pending := Map.empty,
        rc_conns := fail_all_pending ECONNRESET (rc_conns st),
        rc_sink := on_disconnect snk (rc_sink st)\<rparr>"

definition reader_step :: "'j json_api \<Rightarrow> 's event_sink \<Rightarrow> ('j, 's) client \<Rightarrow> ('j, 's) client" where
  "reader_step api snk st =
     (if rc_closed st then st
      else (case read_frame (rc_input st) of
          (Inl _, r) \<Rightarrow> reader_exit snk (st\<lparr>rc_input := r\<rparr>)
        | (Inr None, r) \<Rightarrow> reader_exit snk (st\<lparr>rc_input := r\<rparr>)
        | (Inr (Some bytes), r) \<Rightarrow>
            (case frame_parse api bytes of
               None \<Rightarrow> st\<lparr>rc_input := r\<rparr>
             | Some f \<Rightarrow> handle_frame api snk f (st\<lparr>rc_input := r\<rparr>))))"

lemma handle_frame_input: "rc_input (handle_frame api snk f st) = rc_input st"
  by (simp add: handle_frame_def dispatch_push_def push_recv_def push_accept_def push_status_def
      push_close_def Let_def split: option.splits)

lemma reader_step_measure:
  "\<not> rc_closed st \<Longrightarrow> rc_closed (reader_step api snk st) \<or>
     length (in_bytes (rc_input (reader_step api snk st))) < length (in_bytes (rc_input st))"
  by (auto simp: reader_step_def reader_exit_def handle_frame_input
      split: prod.splits sum.splits option.splits dest: read_frame_consumes)

text \<open>The whole thread, to its end.\<close>

function reader_loop :: "'j json_api \<Rightarrow> 's event_sink \<Rightarrow> ('j, 's) client \<Rightarrow> ('j, 's) client" where
  "reader_loop api snk st =
     (if rc_closed st then st else reader_loop api snk (reader_step api snk st))"
  by pat_completeness auto
termination
proof (relation "measure (\<lambda>(api, snk, st). if rc_closed st then 0 else Suc (length (in_bytes (rc_input st))))")
  fix api :: "'j json_api" and snk :: "'s event_sink" and st :: "('j, 's) client"
  assume "\<not> rc_closed st"
  then show "((api, snk, reader_step api snk st), (api, snk, st)) \<in>
      measure (\<lambda>(api, snk, st). if rc_closed st then 0 else Suc (length (in_bytes (rc_input st))))"
    using reader_step_measure [of st api snk] by auto
qed simp

declare reader_loop.simps [simp del]

lemma reader_exit_last:
  assumes "\<not> rc_closed st" and "rc_closed (reader_step api snk st)"
  shows "\<exists>r. reader_step api snk st = reader_exit snk (st\<lparr>rc_input := r\<rparr>)"
proof -
  have "\<not> rc_closed (handle_frame api snk f (st\<lparr>rc_input := r\<rparr>))" for f r
    using assms(1) by (simp add: handle_frame_def dispatch_push_def push_recv_def push_accept_def push_status_def push_close_def Let_def
        split: option.splits)
  then show ?thesis using assms by (auto simp: reader_step_def split: sum.splits prod.splits option.splits)
qed

lemma reader_loop_exit: "\<not> rc_closed st \<Longrightarrow> \<exists>s. reader_loop api snk st = reader_exit snk s"
proof (induction api snk st rule: reader_loop.induct)
  case (1 api snk st)
  show ?case
  proof (cases "rc_closed (reader_step api snk st)")
    case True
    then show ?thesis using 1(2) reader_exit_last [of st api snk]
      by (auto simp: reader_loop.simps [of api snk st] reader_loop.simps [of api snk "reader_step api snk st"])
  next
    case False
    then show ?thesis using 1 by (simp add: reader_loop.simps [of api snk st])
  qed
qed

text \<open>The last iteration of the thread comes after finitely many.\<close>

lemma reader_ends:
  "\<not> rc_closed st \<Longrightarrow> \<exists>n. \<not> rc_closed ((reader_step api snk ^^ n) st) \<and> rc_closed ((reader_step api snk ^^ Suc n) st)"
proof (induction "length (in_bytes (rc_input st))" arbitrary: st rule: less_induct)
  case less
  show ?case
  proof (cases "rc_closed (reader_step api snk st)")
    case True
    then show ?thesis using less.prems by (intro exI [of _ 0]) simp
  next
    case False
    then have "length (in_bytes (rc_input (reader_step api snk st))) < length (in_bytes (rc_input st))"
      using reader_step_measure [OF less.prems] by blast
    from less.hyps [OF this False] obtain n where
      "\<not> rc_closed ((reader_step api snk ^^ n) (reader_step api snk st))" "rc_closed ((reader_step api snk ^^ Suc n) (reader_step api snk st))"
      by blast
    then show ?thesis by (intro exI [of _ "Suc n"]) (simp only: funpow_Suc_right o_apply, simp)
  qed
qed

subsection \<open>Requests\<close>

definition fresh_id :: "('j, 's) client \<Rightarrow> u64 \<times> ('j, 's) client" where
  "fresh_id st = (1 + rc_next_id st, st\<lparr>rc_next_id := rc_next_id st + 1\<rparr>)"

definition next_wait :: "('j, 's) client \<Rightarrow> nat \<times> ('j, 's) client" where
  "next_wait st = (case rc_sched st of [] \<Rightarrow> (0, st) | n # ns \<Rightarrow> (n, st\<lparr>rc_sched := ns\<rparr>))"

text \<open>\<^verbatim>\<open>rx.recv_timeout\<close>: the frame in the channel, or that its sender is gone, or that the time is
  up; the reader makes at most \<open>n\<close> iterations meanwhile.\<close>

fun recv_timeout :: "'j json_api \<Rightarrow> 's event_sink \<Rightarrow> u64 \<Rightarrow> nat \<Rightarrow> nat \<Rightarrow> ('j, 's) client \<Rightarrow>
    (rhp_error + 'j) \<times> ('j, 's) client" where
  "recv_timeout api snk rid rx n st =
     (case rc_mail st rx of
        Some f \<Rightarrow> (Inr f, st)
      | None \<Rightarrow>
          if rc_pending st rid \<noteq> Some rx then (Inl (Io BrokenPipe), st)
          else (case n of 0 \<Rightarrow> (Inl Timeout, st)
                | Suc k \<Rightarrow> recv_timeout api snk rid rx k (reader_step api snk st)))"

declare recv_timeout.simps [simp del]

definition register_request :: "u64 \<Rightarrow> ('j, 's) client \<Rightarrow> nat \<times> ('j, 's) client" where
  "register_request rid st =
     (rc_chans st, st\<lparr>rc_chans := Suc (rc_chans st), rc_pending := (rc_pending st)(rid \<mapsto> rc_chans st)\<rparr>)"

definition unregister_request :: "u64 \<Rightarrow> ('j, 's) client \<Rightarrow> ('j, 's) client" where
  "unregister_request rid st = st\<lparr>rc_pending := (rc_pending st)(rid := None)\<rparr>"

definition rhp_request :: "'j json_api \<Rightarrow> 's event_sink \<Rightarrow> u64 \<Rightarrow> byte list \<Rightarrow> ('j, 's) client \<Rightarrow>
    (rhp_error + 'j) \<times> ('j, 's) client" where
  "rhp_request api snk rid bytes st =
     (case register_request rid st of (rx, st1) \<Rightarrow>
      case write_frame tcp_writer bytes (rc_writer st1) of (send_result, w) \<Rightarrow>
      let st2 = st1\<lparr>rc_writer := w\<rparr> in
      case send_result of
        Inl e \<Rightarrow> (Inl (Io e), unregister_request rid st2)
      | Inr _ \<Rightarrow>
          (case next_wait st2 of (n, st3) \<Rightarrow>
           case recv_timeout api snk rid rx n st3 of (reply, st4) \<Rightarrow>
             (reply, unregister_request rid st4)))"

definition send_oneway :: "byte list \<Rightarrow> ('j, 's) client \<Rightarrow> (rhp_error + unit) \<times> ('j, 's) client" where
  "send_oneway bytes st =
     (case write_frame tcp_writer bytes (rc_writer st) of
        (Inl e, w) \<Rightarrow> (Inl (Io e), st\<lparr>rc_writer := w\<rparr>)
      | (Inr _, w) \<Rightarrow> (Inr (), st\<lparr>rc_writer := w\<rparr>))"

definition check_ok :: "'j json_api \<Rightarrow> 'j \<Rightarrow> rhp_error + unit" where
  "check_ok api f =
     (let code = frame_errcode api f;
          ok_text = unwrap_or False (map_option (\<lambda>t. eq_ignore_ascii_case t (ascii ''ok'')) (frame_errtext api f))
      in if code \<noteq> 0 \<and> \<not> ok_text then Inl (Server code (frame_errtext api f)) else Inr ())"

text \<open>The shape of every operation: a fresh id, the serialised request, the reply, its check.\<close>

definition rhp_call :: "'j json_api \<Rightarrow> 's event_sink \<Rightarrow> (u64 \<Rightarrow> request) \<Rightarrow> ('j, 's) client \<Rightarrow>
    (rhp_error + 'j) \<times> ('j, 's) client" where
  "rhp_call api snk mk st =
     (case fresh_id st of (rid, st1) \<Rightarrow>
      case to_vec api (req_fields (mk rid)) of
        None \<Rightarrow> (Inl (Io InvalidData), st1)
      | Some bytes \<Rightarrow>
          (case rhp_request api snk rid bytes st1 of
             (Inl e, st2) \<Rightarrow> (Inl e, st2)
           | (Inr reply, st2) \<Rightarrow>
               (case check_ok api reply of Inl e \<Rightarrow> (Inl e, st2) | Inr _ \<Rightarrow> (Inr reply, st2))))"

definition ignore_reply :: "(rhp_error + 'j) \<times> ('j, 's) client \<Rightarrow> (rhp_error + unit) \<times> ('j, 's) client" where
  "ignore_reply r = (case r of (Inl e, st) \<Rightarrow> (Inl e, st) | (Inr _, st) \<Rightarrow> (Inr (), st))"

subsection \<open>Operations\<close>

definition rhp_auth :: "'j json_api \<Rightarrow> 's event_sink \<Rightarrow> rstr \<Rightarrow> rstr \<Rightarrow> ('j, 's) client \<Rightarrow>
    (rhp_error + unit) \<times> ('j, 's) client" where
  "rhp_auth api snk user pass st =
     ignore_reply (rhp_call api snk (\<lambda>rid. AuthReq (ascii ''auth'') rid user pass) st)"

definition rhp_open :: "'j json_api \<Rightarrow> 's event_sink \<Rightarrow> rstr \<Rightarrow> rstr option \<Rightarrow> rstr option \<Rightarrow> 32 word \<Rightarrow>
    ('j, 's) client \<Rightarrow> (rhp_error + open_result) \<times> ('j, 's) client" where
  "rhp_open api snk local remote via flags st =
     (case rhp_call api snk (\<lambda>rid. OpenReq (ascii ''open'') rid (ascii ''ax25'') (ascii ''stream'') None
               local remote via flags) st of
        (Inl e, st1) \<Rightarrow> (Inl e, st1)
      | (Inr reply, st1) \<Rightarrow>
          (case frame_handle api reply of
             None \<Rightarrow> (Inl (Server 1 (Some (ascii ''openReply missing handle''))), st1)
           | Some h \<Rightarrow> (Inr \<lparr>or_handle = h, or_errcode = frame_errcode api reply,
                            or_errtext = frame_errtext api reply\<rparr>, st1)))"

fun join_comma :: "rstr list \<Rightarrow> rstr" where
  "join_comma [] = []"
| "join_comma [x] = x"
| "join_comma (x # xs) = x @ [0x2C] @ join_comma xs"

definition open_connect :: "'j json_api \<Rightarrow> 's event_sink \<Rightarrow> rstr \<Rightarrow> rstr \<Rightarrow> rstr list \<Rightarrow>
    ('j, 's) client \<Rightarrow> (rhp_error + open_result) \<times> ('j, 's) client" where
  "open_connect api snk local remote via st =
     (let via_str = (if via = [] then None else Some (join_comma via)) in
      case rhp_open api snk local (Some remote) via_str OPEN_FLAG_ACTIVE st of
        (Inl e, st1) \<Rightarrow> (Inl e, st1)
      | (Inr res, st1) \<Rightarrow> (Inr res, st1\<lparr>rc_conns := set_pending (or_handle res) (rc_conns st1)\<rparr>))"

definition open_listen :: "'j json_api \<Rightarrow> 's event_sink \<Rightarrow> rstr \<Rightarrow> ('j, 's) client \<Rightarrow>
    (rhp_error + open_result) \<times> ('j, 's) client" where
  "open_listen api snk local st = rhp_open api snk local None None OPEN_FLAG_PASSIVE st"

text \<open>\<^verbatim>\<open>wait_connected\<close>: \<open>None\<close> is a wait without a timeout that has not returned after the reader's
  \<open>n\<close> iterations. Time is not modelled: the code starts its timeout anew after every notification, so
  \<open>n\<close> counts the iterations of the reader up to the first full period without one, whatever it is; a wait
  that is kept alive by notifications for ever, for which the engine would have to send for ever, is left out.\<close>

fun wait_connected_for :: "'j json_api \<Rightarrow> 's event_sink \<Rightarrow> u64 \<Rightarrow> bool \<Rightarrow> nat \<Rightarrow> ('j, 's) client \<Rightarrow>
    (int + unit) option \<times> ('j, 's) client" where
  "wait_connected_for api snk h timed n st =
     (case conn_result h (rc_conns st) of
        Some r \<Rightarrow> (Some r, st)
      | None \<Rightarrow>
          if rc_closed st then (Some (Inl ECONNRESET), st)
          else (case n of
              0 \<Rightarrow> if timed then (Some (Inl ETIMEDOUT), st) else (None, st)
            | Suc k \<Rightarrow> wait_connected_for api snk h timed k (reader_step api snk st)))"

declare wait_connected_for.simps [simp del]

definition wait_connected :: "'j json_api \<Rightarrow> 's event_sink \<Rightarrow> u64 \<Rightarrow> bool \<Rightarrow> ('j, 's) client \<Rightarrow>
    (int + unit) option \<times> ('j, 's) client" where
  "wait_connected api snk h timed st =
     (case next_wait st of (n, st1) \<Rightarrow> wait_connected_for api snk h timed n st1)"

definition connect_result :: "u64 \<Rightarrow> ('j, 's) client \<Rightarrow> (int + unit) option" where
  "connect_result h st = conn_result h (rc_conns st)"

definition take_connect_error :: "u64 \<Rightarrow> ('j, 's) client \<Rightarrow> int \<times> ('j, 's) client" where
  "take_connect_error h st =
     (case take_error h (rc_conns st) of (e, m) \<Rightarrow> (e, st\<lparr>rc_conns := m\<rparr>))"

definition send_chunk :: "'j json_api \<Rightarrow> 's event_sink \<Rightarrow> u64 \<Rightarrow> byte list \<Rightarrow> ('j, 's) client \<Rightarrow>
    (rhp_error + unit) \<times> ('j, 's) client" where
  "send_chunk api snk h chunk st =
     ignore_reply (rhp_call api snk (\<lambda>rid. SendReq (ascii ''send'') rid h (to_wire_string chunk)) st)"

fun send_chunks :: "'j json_api \<Rightarrow> 's event_sink \<Rightarrow> u64 \<Rightarrow> byte list list \<Rightarrow> ('j, 's) client \<Rightarrow>
    (rhp_error + unit) \<times> ('j, 's) client" where
  "send_chunks api snk h [] st = (Inr (), st)"
| "send_chunks api snk h (c # cs) st =
     (case send_chunk api snk h c st of
        (Inl e, st1) \<Rightarrow> (Inl e, st1)
      | (Inr _, st1) \<Rightarrow> send_chunks api snk h cs st1)"

definition rhp_send :: "'j json_api \<Rightarrow> 's event_sink \<Rightarrow> u64 \<Rightarrow> byte list \<Rightarrow> ('j, 's) client \<Rightarrow>
    (rhp_error + unit) \<times> ('j, 's) client" where
  "rhp_send api snk h data st =
     (if data = [] then send_chunk api snk h [] st
      else send_chunks api snk h (chunks MAX_SEND_CHUNK data) st)"

definition rhp_sendto :: "'j json_api \<Rightarrow> 's event_sink \<Rightarrow> u64 \<Rightarrow> rstr \<Rightarrow> rstr \<Rightarrow> byte list \<Rightarrow>
    ('j, 's) client \<Rightarrow> (rhp_error + unit) \<times> ('j, 's) client" where
  "rhp_sendto api snk h remote local data st =
     ignore_reply (rhp_call api snk
       (\<lambda>rid. SendToReq (ascii ''sendto'') rid h remote local (to_wire_string data)) st)"

definition rhp_close :: "'j json_api \<Rightarrow> 's event_sink \<Rightarrow> u64 \<Rightarrow> ('j, 's) client \<Rightarrow>
    (rhp_error + unit) \<times> ('j, 's) client" where
  "rhp_close api snk h st =
     ignore_reply (rhp_call api snk (\<lambda>rid. CloseReq (ascii ''close'') rid h)
       (st\<lparr>rc_conns := conn_forget h (rc_conns st), rc_accepts := accept_forget h (rc_accepts st)\<rparr>))"

definition socket_mode :: "'j json_api \<Rightarrow> 's event_sink \<Rightarrow> rstr \<Rightarrow> ('j, 's) client \<Rightarrow>
    (rhp_error + u64) \<times> ('j, 's) client" where
  "socket_mode api snk mode st =
     (case rhp_call api snk (\<lambda>rid. SocketReq (ascii ''socket'') rid (ascii ''ax25'') mode) st of
        (Inl e, st1) \<Rightarrow> (Inl e, st1)
      | (Inr reply, st1) \<Rightarrow>
          (case frame_handle api reply of
             None \<Rightarrow> (Inl (Server 1 (Some (ascii ''socketReply missing handle''))), st1)
           | Some h \<Rightarrow> (Inr h, st1)))"

definition rhp_socket :: "'j json_api \<Rightarrow> 's event_sink \<Rightarrow> ('j, 's) client \<Rightarrow>
    (rhp_error + u64) \<times> ('j, 's) client" where
  "rhp_socket api snk st = socket_mode api snk (ascii ''stream'') st"

definition socket_dgram :: "'j json_api \<Rightarrow> 's event_sink \<Rightarrow> ('j, 's) client \<Rightarrow>
    (rhp_error + u64) \<times> ('j, 's) client" where
  "socket_dgram api snk st = socket_mode api snk (ascii ''custom'') st"

definition rhp_bind :: "'j json_api \<Rightarrow> 's event_sink \<Rightarrow> u64 \<Rightarrow> rstr \<Rightarrow> rstr option \<Rightarrow> ('j, 's) client \<Rightarrow>
    (rhp_error + unit) \<times> ('j, 's) client" where
  "rhp_bind api snk h local port st =
     ignore_reply (rhp_call api snk (\<lambda>rid. BindReq (ascii ''bind'') rid h local port) st)"

definition rhp_listen :: "'j json_api \<Rightarrow> 's event_sink \<Rightarrow> u64 \<Rightarrow> ('j, 's) client \<Rightarrow>
    (rhp_error + unit) \<times> ('j, 's) client" where
  "rhp_listen api snk h st =
     ignore_reply (rhp_call api snk (\<lambda>rid. ListenReq (ascii ''listen'') rid h 0) st)"

text \<open>\<^verbatim>\<open>wait_accept\<close>: the outer \<open>None\<close> is a wait without a timeout that has not returned.\<close>

fun wait_accept_for :: "'j json_api \<Rightarrow> 's event_sink \<Rightarrow> u64 \<Rightarrow> bool \<Rightarrow> nat \<Rightarrow> ('j, 's) client \<Rightarrow>
    accept_info option option \<times> ('j, 's) client" where
  "wait_accept_for api snk l timed n st =
     (case accept_pop l (rc_accepts st) of
        (Some a, m) \<Rightarrow> (Some (Some a), st\<lparr>rc_accepts := m\<rparr>)
      | (None, _) \<Rightarrow>
          if rc_closed st then (Some None, st)
          else (case n of
              0 \<Rightarrow> if timed then (Some None, st) else (None, st)
            | Suc k \<Rightarrow> wait_accept_for api snk l timed k (reader_step api snk st)))"

declare wait_accept_for.simps [simp del]

definition wait_accept :: "'j json_api \<Rightarrow> 's event_sink \<Rightarrow> u64 \<Rightarrow> bool \<Rightarrow> ('j, 's) client \<Rightarrow>
    accept_info option option \<times> ('j, 's) client" where
  "wait_accept api snk l timed st =
     (case next_wait st of (n, st1) \<Rightarrow> wait_accept_for api snk l timed n st1)"

definition try_accept :: "u64 \<Rightarrow> ('j, 's) client \<Rightarrow> accept_info option \<times> ('j, 's) client" where
  "try_accept l st = (case accept_pop l (rc_accepts st) of (a, m) \<Rightarrow> (a, st\<lparr>rc_accepts := m\<rparr>))"

text \<open>Where to connect: \<open>env\<close> is \<^verbatim>\<open>PDN_RHP_ADDR\<close> when it is set and is Unicode.\<close>

definition default_addr :: "rstr option \<Rightarrow> rstr" where
  "default_addr env = unwrap_or (ascii ''127.0.0.1:9000'') env"

definition is_closed :: "('j, 's) client \<Rightarrow> bool" where
  "is_closed st = rc_closed st"

definition new_client :: "tcp \<Rightarrow> input \<Rightarrow> nat list \<Rightarrow> 's \<Rightarrow> ('j, 's) client" where
  "new_client w r sched s =
     \<lparr>rc_writer = w, rc_next_id = 0, rc_pending = Map.empty, rc_conns = Map.empty, rc_accepts = Map.empty,
      rc_closed = False, rc_sink = s, rc_input = r, rc_mail = Map.empty, rc_chans = 0, rc_sched = sched\<rparr>"

text \<open>Connecting: what \<^verbatim>\<open>TcpStream::connect\<close>, \<^verbatim>\<open>try_clone\<close> and the thread spawn answer are arguments. The sink is
  shared with the caller: a failed connect returns its state too, since pushes may have come
  during the authentication. When the authentication fails the client is dropped, but its reader
  thread goes on with its own half of the stream: what is left for it is returned as well.\<close>

definition connect_to :: "'j json_api \<Rightarrow> 's event_sink \<Rightarrow> (tcp \<times> input) io_result \<Rightarrow> unit io_result \<Rightarrow>
    unit io_result \<Rightarrow> rstr option \<Rightarrow> rstr option \<Rightarrow> nat list \<Rightarrow> 's \<Rightarrow>
    (rhp_error \<times> ('j, 's) client option \<times> 's) + ('j, 's) client" where
  "connect_to api snk stream clone spawn user pass sched s =
     (case (stream, clone, spawn) of
        (Inl e, _, _) \<Rightarrow> Inl (Io e, None, s)
      | (_, Inl e, _) \<Rightarrow> Inl (Io e, None, s)
      | (_, _, Inl e) \<Rightarrow> Inl (Io e, None, s)
      | (Inr (w, r), Inr _, Inr _) \<Rightarrow>
          (let client = new_client w r sched s in
           case (user, pass) of
             (Some u, Some p) \<Rightarrow>
               (case rhp_auth api snk u p client of
                  (Inl e, client) \<Rightarrow> Inl (e, Some client, rc_sink client)
                | (Inr _, client) \<Rightarrow> Inr client)
           | _ \<Rightarrow> Inr client))"

subsection \<open>The buffering sink\<close>

record handle_buf =
  hb_data :: "byte list"
  hb_eof :: bool

definition default_buf :: handle_buf where
  "default_buf = \<lparr>hb_data = [], hb_eof = False\<rparr>"

definition buf_recv :: "u64 \<Rightarrow> byte list \<Rightarrow> (u64 \<rightharpoonup> handle_buf) \<Rightarrow> (u64 \<rightharpoonup> handle_buf)" where
  "buf_recv h data m = (let b = unwrap_or default_buf (m h) in m(h \<mapsto> b\<lparr>hb_data := hb_data b @ data\<rparr>))"

definition buf_close :: "u64 \<Rightarrow> (u64 \<rightharpoonup> handle_buf) \<Rightarrow> (u64 \<rightharpoonup> handle_buf)" where
  "buf_close h m = (let b = unwrap_or default_buf (m h) in m(h \<mapsto> b\<lparr>hb_eof := True\<rparr>))"

definition buf_take :: "u64 \<Rightarrow> (u64 \<rightharpoonup> handle_buf) \<Rightarrow> byte list \<times> (u64 \<rightharpoonup> handle_buf)" where
  "buf_take h m = (case m h of None \<Rightarrow> ([], m) | Some b \<Rightarrow> (hb_data b, m(h \<mapsto> b\<lparr>hb_data := []\<rparr>)))"

definition buf_is_eof :: "u64 \<Rightarrow> (u64 \<rightharpoonup> handle_buf) \<Rightarrow> bool" where
  "buf_is_eof h m = unwrap_or False (map_option hb_eof (m h))"

definition BufferingSink :: "(u64 \<rightharpoonup> handle_buf) event_sink" where
  "BufferingSink = NullSink\<lparr>on_recv := buf_recv, on_close := buf_close\<rparr>"

subsection \<open>What the frames of a stream carry\<close>

text \<open>The effect of one frame body, and the stream bytes it carries for a handle (reference).\<close>

definition frame_event :: "'j json_api \<Rightarrow> 's event_sink \<Rightarrow> byte list \<Rightarrow> ('j, 's) client \<Rightarrow> ('j, 's) client" where
  "frame_event api snk p st = (case frame_parse api p of None \<Rightarrow> st | Some f \<Rightarrow> handle_frame api snk f st)"

definition stream_data :: "'j json_api \<Rightarrow> u64 \<Rightarrow> byte list \<Rightarrow> byte list" where
  "stream_data api h p =
     (case frame_parse api p of
        Some f \<Rightarrow>
          if frame_typ api f = ascii ''recv'' \<and> frame_handle api f = Some h \<and> \<not> frame_is_dgram_recv api f
          then unwrap_or [] (map_option from_wire_string (frame_data_str api f)) else []
      | None \<Rightarrow> [])"

definition accept_data :: "'j json_api \<Rightarrow> u64 \<Rightarrow> byte list \<Rightarrow> accept_info list" where
  "accept_data api l p =
     (case frame_parse api p of
        Some f \<Rightarrow>
          (case frame_child api f of
             Some child \<Rightarrow>
               if frame_typ api f = ascii ''accept'' \<and> frame_handle api f = Some l
               then [\<lparr>ai_child_handle = child, ai_remote = frame_remote api f, ai_local = frame_local api f\<rparr>] else []
           | None \<Rightarrow> [])
      | None \<Rightarrow> [])"

text \<open>What the buffering sink holds for a handle (reference).\<close>

definition buf_received :: "(u64 \<rightharpoonup> handle_buf) \<Rightarrow> u64 \<Rightarrow> byte list" where
  "buf_received m h = unwrap_or [] (map_option hb_data (m h))"

subsection \<open>Reference notions\<close>

text \<open>How a phase may change while pushes arrive: a pending connect resolves, an established one stays,
  and a failed one can only be overtaken by a late status(Connected).\<close>

fun phase_le :: "conn_phase \<Rightarrow> conn_phase \<Rightarrow> bool" where
  "phase_le Pending q \<longleftrightarrow> True"
| "phase_le Connected q \<longleftrightarrow> q = Connected"
| "phase_le (Failed e) q \<longleftrightarrow> q = Failed e \<or> q = Connected"

definition conns_le :: "conn_registry \<Rightarrow> conn_registry \<Rightarrow> bool" where
  "conns_le m m' \<longleftrightarrow> (\<forall>h p. m h = Some p \<longrightarrow> (\<exists>q. m' h = Some q \<and> phase_le p q))"

definition failures_ok :: "conn_registry \<Rightarrow> bool" where
  "failures_ok m \<longleftrightarrow> (\<forall>h e. m h = Some (Failed e) \<longrightarrow> e \<noteq> 0)"

text \<open>A connect is settled when its outcome is known or the transport is gone.\<close>

definition settled :: "u64 \<Rightarrow> ('j, 's) client \<Rightarrow> bool" where
  "settled h st \<longleftrightarrow> conn_result h (rc_conns st) \<noteq> None \<or> rc_closed st"

definition settled_value :: "u64 \<Rightarrow> ('j, 's) client \<Rightarrow> int + unit" where
  "settled_value h st = unwrap_or (Inl ECONNRESET) (conn_result h (rc_conns st))"

text \<open>Accepting until the queue is empty.\<close>

fun accept_all :: "nat \<Rightarrow> u64 \<Rightarrow> ('j, 's) client \<Rightarrow> accept_info list" where
  "accept_all 0 l st = []"
| "accept_all (Suc n) l st =
     (case try_accept l st of (None, _) \<Rightarrow> [] | (Some a, st') \<Rightarrow> a # accept_all n l st')"

subsection \<open>Interleaved threads\<close>

text \<open>
  The steps of the client's threads. \<open>begin\<close>, \<open>write\<close> and \<open>finish\<close> are the parts of
  \<^verbatim>\<open>request\<close> between its locks; \<open>reader\<close> is an iteration of the reader thread; \<open>other\<close>
  is any access of another operation to the registries, the sink or the schedule.
\<close>

inductive client_step :: "'j json_api \<Rightarrow> 's event_sink \<Rightarrow> ('j, 's) client \<Rightarrow> ('j, 's) client \<Rightarrow> bool"
  for api :: "'j json_api" and snk :: "'s event_sink" where
  step_begin: "fresh_id st = (rid, st1) \<Longrightarrow> client_step api snk st (snd (register_request rid st1))"
| step_unsent: "client_step api snk st (snd (fresh_id st))"
| step_write: "client_step api snk st (st\<lparr>rc_writer := w\<rparr>)"
| step_finish: "client_step api snk st (unregister_request rid st)"
| step_reader: "client_step api snk st (reader_step api snk st)"
| step_other: "client_step api snk st (st\<lparr>rc_conns := m, rc_accepts := a, rc_sink := s, rc_sched := ns\<rparr>)"

abbreviation client_run :: "'j json_api \<Rightarrow> 's event_sink \<Rightarrow> ('j, 's) client \<Rightarrow> ('j, 's) client \<Rightarrow> bool" where
  "client_run api snk \<equiv> (client_step api snk)\<^sup>*\<^sup>*"

text \<open>Channels in use were created, and a channel belongs to the request it was created for.\<close>

definition chan_inv :: "('j, 's) client \<Rightarrow> bool" where
  "chan_inv st \<longleftrightarrow> (\<forall>i c. rc_pending st i = Some c \<longrightarrow> c < rc_chans st) \<and>
     (\<forall>c f. rc_mail st c = Some f \<longrightarrow> c < rc_chans st)"

definition chan_owner :: "'j json_api \<Rightarrow> u64 \<Rightarrow> nat \<Rightarrow> ('j, 's) client \<Rightarrow> bool" where
  "chan_owner api rid rx st \<longleftrightarrow> rx < rc_chans st \<and> (\<forall>i. rc_pending st i = Some rx \<longrightarrow> i = rid) \<and>
     (\<forall>f. rc_mail st rx = Some f \<longrightarrow> frame_id api f = Some rid \<and> rc_pending st rid \<noteq> Some rx)"

subsection \<open>Samples\<close>

text \<open>A sample engine: six frame bodies and what they parse to, and a client that has its answers
  before it.\<close>

definition sample_api :: "json json_api" where
  "sample_api = table_json
     [([1], JObj [(''type'', JStr (ascii ''openReply'')), (''id'', JInt 1), (''handle'', JInt 42), (''errText'', JStr (ascii ''Ok''))]),
      ([2], JObj [(''type'', JStr (ascii ''recv'')), (''handle'', JInt 42), (''data'', JStr [0x41, 0xC3, 0xBF])]),
      ([3], JObj [(''type'', JStr (ascii ''status'')), (''handle'', JInt 42), (''flags'', JInt 2)]),
      ([4], JObj [(''type'', JStr (ascii ''accept'')), (''handle'', JInt 9), (''child'', JInt 10)]),
      ([5], JObj [(''type'', JStr (ascii ''close'')), (''handle'', JInt 42)]),
      ([6], JObj [(''type'', JStr (ascii ''sendReply'')), (''id'', JInt 1), (''errCode'', JInt 17)])]"

definition sample_client :: "byte list list \<Rightarrow> nat list \<Rightarrow> (json, u64 \<rightharpoonup> handle_buf) client" where
  "sample_client ps sched = new_client \<lparr>tcp_sent = [], tcp_room = None\<rparr>
     \<lparr>in_bytes = concat (map frame_bytes ps), in_end = None\<rparr> sched Map.empty"

section \<open>What a push leaves alone\<close>

lemmas push_defs = push_recv_def push_accept_def push_status_def push_close_def

lemma dispatch_push_frame [simp]:
  "rc_writer (dispatch_push api snk f st) = rc_writer st"
  "rc_next_id (dispatch_push api snk f st) = rc_next_id st"
  "rc_pending (dispatch_push api snk f st) = rc_pending st"
  "rc_closed (dispatch_push api snk f st) = rc_closed st"
  "rc_input (dispatch_push api snk f st) = rc_input st"
  "rc_mail (dispatch_push api snk f st) = rc_mail st"
  "rc_chans (dispatch_push api snk f st) = rc_chans st"
  "rc_sched (dispatch_push api snk f st) = rc_sched st"
  by (simp_all add: dispatch_push_def push_defs Let_def split: option.splits)

lemma handle_frame_keeps [simp]:
  "rc_writer (handle_frame api snk f st) = rc_writer st"
  "rc_next_id (handle_frame api snk f st) = rc_next_id st"
  "rc_closed (handle_frame api snk f st) = rc_closed st"
  "rc_chans (handle_frame api snk f st) = rc_chans st"
  "rc_sched (handle_frame api snk f st) = rc_sched st"
  by (simp_all add: handle_frame_def split: option.splits)

lemma reader_step_keeps [simp]:
  "rc_writer (reader_step api snk st) = rc_writer st"
  "rc_next_id (reader_step api snk st) = rc_next_id st"
  "rc_chans (reader_step api snk st) = rc_chans st"
  "rc_sched (reader_step api snk st) = rc_sched st"
  by (simp_all add: reader_step_def reader_exit_def split: option.splits sum.splits prod.splits)

text \<open>What one iteration of the reader does to the pending table and the channels.\<close>

lemma reader_step_cases:
  obtains (idle) "rc_pending (reader_step api snk st) = rc_pending st" "rc_mail (reader_step api snk st) = rc_mail st"
  | (exit) "rc_pending (reader_step api snk st) = Map.empty" "rc_mail (reader_step api snk st) = rc_mail st"
  | (reply) i c f where "frame_id api f = Some i" "rc_pending st i = Some c"
      "rc_pending (reader_step api snk st) = (rc_pending st)(i := None)"
      "rc_mail (reader_step api snk st) = (rc_mail st)(c \<mapsto> f)"
proof -
  have h: "(rc_pending (handle_frame api snk f s) = rc_pending s \<and> rc_mail (handle_frame api snk f s) = rc_mail s) \<or>
     (\<exists>i c. frame_id api f = Some i \<and> rc_pending s i = Some c \<and>
        rc_pending (handle_frame api snk f s) = (rc_pending s)(i := None) \<and>
        rc_mail (handle_frame api snk f s) = (rc_mail s)(c \<mapsto> f))" for f s
    by (auto simp: handle_frame_def and_then_def split: option.splits)
  show ?thesis
  proof (cases "rc_closed st")
    case True
    then show ?thesis using idle by (simp add: reader_step_def)
  next
    case False
    obtain res r where rf: "read_frame (rc_input st) = (res, r)" by fastforce
    show ?thesis
    proof (cases "\<exists>b f. res = Inr (Some b) \<and> frame_parse api b = Some f")
      case True
      then obtain b f where "res = Inr (Some b)" "frame_parse api b = Some f" by blast
      then have "reader_step api snk st = handle_frame api snk f (st\<lparr>rc_input := r\<rparr>)"
        using False rf by (simp add: reader_step_def)
      then show ?thesis using h [of f "st\<lparr>rc_input := r\<rparr>"] idle reply by auto
    next
      case no: False
      then have "reader_step api snk st = st\<lparr>rc_input := r\<rparr> \<or>
          reader_step api snk st = reader_exit snk (st\<lparr>rc_input := r\<rparr>)"
        using False rf by (cases res) (auto simp: reader_step_def split: option.splits)
      then show ?thesis using idle exit by (auto simp: reader_exit_def)
    qed
  qed
qed

section \<open>Interleaved threads\<close>

lemma reader_chan_inv: "chan_inv st \<Longrightarrow> chan_inv (reader_step api snk st)"
  by (cases rule: reader_step_cases [of api snk st]) (auto simp: chan_inv_def)

lemma reader_chan_owner: "chan_owner api rid rx st \<Longrightarrow> chan_owner api rid rx (reader_step api snk st)"
  by (cases rule: reader_step_cases [of api snk st]) (auto simp: chan_owner_def split: if_splits)

lemma register_chan_owner:
  assumes "chan_inv st" and "register_request rid st = (rx, st1)"
  shows "chan_owner api rid rx st1"
proof -
  have "rc_mail st (rc_chans st) = None" "rc_pending st i \<noteq> Some (rc_chans st)" for i
    using assms(1) unfolding chan_inv_def by (metis less_irrefl option.exhaust, metis less_irrefl)
  then show ?thesis using assms(2) by (auto simp: chan_owner_def register_request_def split: if_splits)
qed

lemma register_chan_inv: "chan_inv st \<Longrightarrow> chan_inv (snd (register_request rid st))"
  by (auto simp: chan_inv_def register_request_def less_Suc_eq)

lemma register_keeps_owner:
  "chan_owner api rid rx st \<Longrightarrow> chan_owner api rid rx (snd (register_request i st))"
  by (auto simp: chan_owner_def register_request_def split: if_splits)

lemma step_chan_inv: "client_step api snk st st' \<Longrightarrow> chan_inv st \<Longrightarrow> chan_inv st'"
proof (induction rule: client_step.induct)
  case (step_begin st rid st1)
  then show ?case by (intro register_chan_inv) (auto simp: fresh_id_def chan_inv_def)
next
  case (step_reader st)
  then show ?case by (rule reader_chan_inv)
qed (auto simp: chan_inv_def fresh_id_def unregister_request_def split: if_splits)

lemma step_chan_owner: "client_step api snk st st' \<Longrightarrow> chan_owner api rid rx st \<Longrightarrow> chan_owner api rid rx st'"
proof (induction rule: client_step.induct)
  case (step_begin st rid st1)
  then show ?case by (intro register_keeps_owner) (auto simp: fresh_id_def chan_owner_def)
next
  case (step_reader st)
  then show ?case by (rule reader_chan_owner)
qed (auto simp: chan_owner_def fresh_id_def unregister_request_def split: if_splits)

lemma run_chan_inv: "client_run api snk st st' \<Longrightarrow> chan_inv st \<Longrightarrow> chan_inv st'"
  by (induction rule: rtranclp_induct) (auto intro: step_chan_inv)

lemma run_chan_owner: "client_run api snk st st' \<Longrightarrow> chan_owner api rid rx st \<Longrightarrow> chan_owner api rid rx st'"
  by (induction rule: rtranclp_induct) (auto intro: step_chan_owner)

text \<open>A delivered reply stays in its channel.\<close>

lemma step_mail_stable:
  assumes "client_step api snk st st'" and "chan_owner api rid rx st" and "rc_mail st rx = Some f"
  shows "rc_mail st' rx = Some f"
  using assms
proof (induction rule: client_step.induct)
  case (step_reader st)
  then show ?case by (cases rule: reader_step_cases [of api snk st]) (auto simp: chan_owner_def)
qed (auto simp: fresh_id_def register_request_def unregister_request_def)

lemma run_mail_stable:
  assumes "client_run api snk st st'" and "chan_owner api rid rx st" and "rc_mail st rx = Some f"
  shows "rc_mail st' rx = Some f"
  using assms
  by (induction rule: rtranclp_induct) (auto intro: step_mail_stable run_chan_owner)

section \<open>Operations are runs\<close>

lemma step_sched: "client_step api snk st (st\<lparr>rc_sched := ns\<rparr>)"
  using step_other [where st = st and m = "rc_conns st" and a = "rc_accepts st" and s = "rc_sink st" and ns = ns] by simp

lemma step_conns: "client_step api snk st (st\<lparr>rc_conns := m\<rparr>)"
  using step_other [where st = st and m = m and a = "rc_accepts st" and s = "rc_sink st" and ns = "rc_sched st"] by simp

lemma step_accepts: "client_step api snk st (st\<lparr>rc_accepts := a\<rparr>)"
  using step_other [where st = st and m = "rc_conns st" and a = a and s = "rc_sink st" and ns = "rc_sched st"] by simp

lemma next_wait_run: "next_wait st = (n, st1) \<Longrightarrow> client_run api snk st st1"
  by (auto simp: next_wait_def intro: step_sched split: list.splits)

lemma recv_timeout_run:
  "recv_timeout api snk rid rx n st = (r, st') \<Longrightarrow> client_run api snk st st'"
proof (induction n arbitrary: st)
  case 0
  then show ?case by (subst (asm) recv_timeout.simps) (auto split: option.splits if_splits)
next
  case (Suc n)
  show ?case
  proof (cases "rc_mail st rx = None \<and> rc_pending st rid = Some rx")
    case True
    then have "recv_timeout api snk rid rx n (reader_step api snk st) = (r, st')"
      using Suc.prems by (subst (asm) recv_timeout.simps) simp
    with Suc.IH show ?thesis by (blast intro: converse_rtranclp_into_rtranclp step_reader)
  next
    case False
    then show ?thesis using Suc.prems
      by (subst (asm) recv_timeout.simps) (auto split: option.splits if_splits)
  qed
qed

lemma recv_timeout_ok:
  "recv_timeout api snk rid rx n st = (Inr f, st') \<Longrightarrow> rc_mail st' rx = Some f"
proof (induction n arbitrary: st)
  case 0
  then show ?case by (subst (asm) recv_timeout.simps) (auto split: option.splits if_splits)
next
  case (Suc n)
  from Suc.prems show ?case
    by (subst (asm) recv_timeout.simps) (auto split: option.splits if_splits dest: Suc.IH)
qed

text \<open>The body of \<^verbatim>\<open>request\<close> after the registration is a run, and its reply was in the channel.\<close>

lemma rhp_request_run:
  assumes "rhp_request api snk rid bytes st = (r, st')" and "register_request rid st = (rx, st1)"
  obtains st2 where "client_run api snk st1 st2" "st' = unregister_request rid st2"
    "\<And>f. r = Inr f \<Longrightarrow> rc_mail st2 rx = Some f"
proof -
  obtain sr w where w: "write_frame tcp_writer bytes (rc_writer st1) = (sr, w)" by fastforce
  let ?st2 = "st1\<lparr>rc_writer := w\<rparr>"
  have run2: "client_run api snk st1 ?st2" by (blast intro: step_write)
  show ?thesis
  proof (cases sr)
    case (Inl e)
    then show ?thesis using assms w run2 by (intro that [of ?st2]) (auto simp: rhp_request_def)
  next
    case (Inr u)
    obtain n st3 where n: "next_wait ?st2 = (n, st3)" by fastforce
    obtain r4 st4 where r: "recv_timeout api snk rid rx n st3 = (r4, st4)" by fastforce
    have "client_run api snk st1 st4"
      using run2 next_wait_run [OF n] recv_timeout_run [OF r] by (meson rtranclp_trans)
    then show ?thesis using assms w n r Inr recv_timeout_ok
      by (intro that [of st4]) (auto simp: rhp_request_def)
  qed
qed

lemma rhp_call_run: "client_run api snk st (snd (rhp_call api snk mk st))"
proof -
  obtain rid st1 where f: "fresh_id st = (rid, st1)" by fastforce
  obtain rx st2 where g: "register_request rid st1 = (rx, st2)" by fastforce
  show ?thesis
  proof (cases "to_vec api (req_fields (mk rid))")
    case None
    then show ?thesis using f step_unsent [of api snk st] by (simp add: rhp_call_def)
  next
    case (Some bytes)
    obtain r st3 where r: "rhp_request api snk rid bytes st1 = (r, st3)" by fastforce
    obtain st4 where "client_run api snk st2 st4" "st3 = unregister_request rid st4"
      using rhp_request_run [OF r g] by metis
    moreover have "client_step api snk st st2" using step_begin [OF f, of api snk] g by simp
    ultimately have "client_run api snk st st3"
      by (metis converse_rtranclp_into_rtranclp rtranclp.rtrancl_into_rtrancl step_finish)
    then show ?thesis using f Some r by (auto simp: rhp_call_def split: sum.splits)
  qed
qed


section \<open>Registries\<close>

lemmas registry_defs = set_pending_def mark_connected_def mark_failed_def fail_all_pending_def
  conn_result_def take_error_def conn_forget_def

lemma phase_le_refl [simp]: "phase_le p p"
  by (cases p) auto

lemma phase_le_trans: "phase_le p q \<Longrightarrow> phase_le q r \<Longrightarrow> phase_le p r"
  by (cases p; cases q; cases r) auto

lemma conns_le_refl [simp]: "conns_le m m"
  by (auto simp: conns_le_def)

lemma conns_le_trans: "conns_le a b \<Longrightarrow> conns_le b c \<Longrightarrow> conns_le a c"
  unfolding conns_le_def by (meson phase_le_trans)

lemma phase_le_Connected [simp]: "phase_le p Connected"
  by (cases p) auto

lemma conns_le_ops:
  "conns_le m (mark_connected h m)" "conns_le m (mark_failed h e m)"
  "conns_le m (fail_all_pending e m)" "conns_le m (set_pending h m)"
  by (auto simp: conns_le_def registry_defs split: option.splits)

lemma dispatch_conns_le: "conns_le (rc_conns st) (rc_conns (dispatch_push api snk f st))"
  by (simp add: dispatch_push_def push_defs Let_def conns_le_ops split: option.splits)

lemma handle_frame_conns_le: "conns_le (rc_conns st) (rc_conns (handle_frame api snk f st))"
  using dispatch_conns_le [of st api snk f] by (simp add: handle_frame_def split: option.splits)

lemma reader_step_conns_le: "conns_le (rc_conns st) (rc_conns (reader_step api snk st))"
  using handle_frame_conns_le [of "st\<lparr>rc_input := r\<rparr>" api snk f for r f]
  by (simp add: reader_step_def reader_exit_def conns_le_ops split: option.splits sum.splits prod.splits)

lemma reader_steps_conns_le: "conns_le (rc_conns st) (rc_conns ((reader_step api snk ^^ n) st))"
  by (induction n) (auto intro: conns_le_trans reader_step_conns_le)

section \<open>Blocking waits\<close>

lemma wait_connected_first:
  assumes "settled h ((reader_step api snk ^^ k) st)" and "k \<le> n"
    and "\<forall>j<k. \<not> settled h ((reader_step api snk ^^ j) st)"
  shows "wait_connected_for api snk h timed n st =
    (Some (settled_value h ((reader_step api snk ^^ k) st)), (reader_step api snk ^^ k) st)"
  using assms
proof (induction k arbitrary: st n)
  case 0
  then show ?case
    by (subst wait_connected_for.simps) (auto simp: settled_def settled_value_def split: option.splits)
next
  case (Suc k)
  obtain n' where n: "n = Suc n'" using Suc.prems(2) by (cases n) auto
  have "\<not> settled h st" using Suc.prems(3) by (metis funpow_0 zero_less_Suc)
  then have "wait_connected_for api snk h timed n st = wait_connected_for api snk h timed n' (reader_step api snk st)"
    by (subst wait_connected_for.simps) (simp add: settled_def n)
  also have "\<dots> = (Some (settled_value h ((reader_step api snk ^^ k) (reader_step api snk st))),
      (reader_step api snk ^^ k) (reader_step api snk st))"
  proof (rule Suc.IH)
    show "\<forall>j<k. \<not> settled h ((reader_step api snk ^^ j) (reader_step api snk st))"
      using Suc.prems(3) by (metis Suc_less_eq funpow_Suc_right o_apply)
  qed (use Suc.prems n in \<open>simp_all add: funpow_Suc_right del: funpow.simps\<close>)
  finally show ?case by (simp add: funpow_Suc_right del: funpow.simps)
qed

lemma wait_connected_never:
  assumes "\<forall>j\<le>n. \<not> settled h ((reader_step api snk ^^ j) st)"
  shows "fst (wait_connected_for api snk h timed n st) = (if timed then Some (Inl ETIMEDOUT) else None)"
  using assms
proof (induction n arbitrary: st)
  case 0
  then show ?case by (subst wait_connected_for.simps) (auto simp: settled_def)
next
  case (Suc n)
  have "\<not> settled h st" using Suc.prems by (metis funpow_0 zero_le)
  moreover have "\<forall>j\<le>n. \<not> settled h ((reader_step api snk ^^ j) (reader_step api snk st))"
    using Suc.prems by (metis Suc_le_mono funpow_Suc_right o_apply)
  ultimately show ?case using Suc.IH
    by (subst wait_connected_for.simps) (simp add: settled_def)
qed

section \<open>The whole reader\<close>

lemma handle_frame_input_update:
  "handle_frame api snk f (st\<lparr>rc_input := r\<rparr>) = (handle_frame api snk f st)\<lparr>rc_input := r\<rparr>"
  by (simp add: handle_frame_def dispatch_push_def push_defs Let_def split: option.splits)

lemma reader_loop_closed: "rc_closed (reader_loop api snk st)"
  by (induction api snk st rule: reader_loop.induct) (subst reader_loop.simps, simp)

lemma reader_step_frame:
  assumes "length p \<le> MAX_FRAME" and "\<not> rc_closed st"
    and "rc_input st = \<lparr>in_bytes = concat (map frame_bytes (p # ps)), in_end = e\<rparr>"
  shows "reader_step api snk st = (frame_event api snk p st)\<lparr>rc_input := \<lparr>in_bytes = concat (map frame_bytes ps), in_end = e\<rparr>\<rparr>"
  using assms read_frame_complete [of p "concat (map frame_bytes ps)" e]
  by (auto simp: reader_step_def frame_event_def handle_frame_input_update split: option.splits)

lemma reader_step_end:
  assumes "\<not> rc_closed st" and "rc_input st = \<lparr>in_bytes = [], in_end = e\<rparr>"
  shows "\<exists>r. reader_step api snk st = reader_exit snk (st\<lparr>rc_input := r\<rparr>)"
  using assms by (simp add: reader_step_def read_frame_def read_exact_def) blast

lemma frame_event_open: "rc_closed (frame_event api snk p st) = rc_closed st"
  by (simp add: frame_event_def split: option.splits)

lemma reader_loop_frames:
  assumes "list_all (\<lambda>p. length p \<le> MAX_FRAME) ps" and "\<not> rc_closed st"
    and "rc_input st = \<lparr>in_bytes = concat (map frame_bytes ps), in_end = e\<rparr>"
  shows "\<exists>r. reader_loop api snk st = reader_exit snk ((fold (frame_event api snk) ps st)\<lparr>rc_input := r\<rparr>)"
  using assms
proof (induction ps arbitrary: st)
  case Nil
  then have step: "\<exists>r. reader_step api snk st = reader_exit snk (st\<lparr>rc_input := r\<rparr>)" using reader_step_end by simp
  then have "rc_closed (reader_step api snk st)" by (auto simp: reader_exit_def)
  then have "reader_loop api snk st = reader_step api snk st"
    using Nil by (simp add: reader_loop.simps [of api snk st] reader_loop.simps [of api snk "reader_step api snk st"])
  with step show ?case by simp
next
  case (Cons p ps)
  note step = reader_step_frame [OF _ Cons.prems(2,3), of api snk]
  have "\<exists>r. reader_loop api snk (reader_step api snk st) =
      reader_exit snk ((fold (frame_event api snk) ps (reader_step api snk st))\<lparr>rc_input := r\<rparr>)"
    using Cons.prems step by (intro Cons.IH) (simp_all add: frame_event_open)
  moreover have "(fold (frame_event api snk) ps (s\<lparr>rc_input := q\<rparr>))\<lparr>rc_input := r\<rparr> =
      (fold (frame_event api snk) ps s)\<lparr>rc_input := r\<rparr>" for s q r
  proof (induction ps arbitrary: s q)
    case (Cons x xs)
    have "frame_event api snk x (s\<lparr>rc_input := q\<rparr>) = (frame_event api snk x s)\<lparr>rc_input := q\<rparr>"
      by (simp add: frame_event_def handle_frame_input_update split: option.splits)
    then show ?case using Cons by simp
  qed simp
  ultimately show ?case using Cons.prems step
    by (simp add: reader_loop.simps [of api snk st])
qed

section \<open>Sinks that keep what they receive\<close>

text \<open>
  The part of the sink's contract that delivery needs: \<^verbatim>\<open>on_recv\<close> appends to what the handle
  has received, and no other callback changes it.
\<close>

locale recv_sink =
  fixes snk :: "'s event_sink" and received :: "'s \<Rightarrow> u64 \<Rightarrow> byte list"
  assumes recv_appends: "received (on_recv snk h d s) = (received s)(h := received s h @ d)"
    and dgram_keeps: "received (on_dgram snk h a b d s) = received s"
    and accept_keeps: "received (on_accept snk l c r a s) = received s"
    and status_keeps: "received (on_status snk h fl s) = received s"
    and close_keeps: "received (on_close snk h s) = received s"
    and disconnect_keeps: "received (on_disconnect snk s) = received s"
begin

lemma frame_event_received:
  assumes "\<And>f. frame_parse api p = Some f \<Longrightarrow> frame_typ api f = ascii ''recv'' \<Longrightarrow> frame_id api f = None"
  shows "received (rc_sink (frame_event api snk p st)) h = received (rc_sink st) h @ stream_data api h p"
proof (cases "frame_parse api p")
  case None
  then show ?thesis by (simp add: frame_event_def stream_data_def)
next
  case (Some f)
  show ?thesis
  proof (cases "frame_typ api f = ascii ''recv''")
    case True
    then have "frame_id api f = None" using assms Some by blast
    then show ?thesis using Some True
      by (simp add: frame_event_def stream_data_def handle_frame_def dispatch_push_def push_recv_def
          and_then_def recv_appends dgram_keeps Let_def split: option.splits)
  next
    case False
    then show ?thesis using Some
      by (simp add: frame_event_def stream_data_def handle_frame_def dispatch_push_def push_accept_def
          push_status_def push_close_def accept_keeps status_keeps close_keeps Let_def split: option.splits)
  qed
qed

lemma fold_received:
  assumes "\<forall>p \<in> set ps. \<forall>f. frame_parse api p = Some f \<and> frame_typ api f = ascii ''recv'' \<longrightarrow> frame_id api f = None"
  shows "received (rc_sink (fold (frame_event api snk) ps st)) h =
    received (rc_sink st) h @ concat (map (stream_data api h) ps)"
  using assms
proof (induction ps arbitrary: st)
  case (Cons p ps)
  then show ?case using frame_event_received [of api p st h] by simp
qed simp

text \<open>The whole reader delivers the stream of every handle in the order of its frames.\<close>

lemma reader_loop_received:
  assumes "list_all (\<lambda>p. length p \<le> MAX_FRAME) ps" and "\<not> rc_closed st"
    and "rc_input st = \<lparr>in_bytes = concat (map frame_bytes ps), in_end = e\<rparr>"
    and "\<forall>p \<in> set ps. \<forall>f. frame_parse api p = Some f \<and> frame_typ api f = ascii ''recv'' \<longrightarrow> frame_id api f = None"
  shows "received (rc_sink (reader_loop api snk st)) h =
    received (rc_sink st) h @ concat (map (stream_data api h) ps)"
  using reader_loop_frames [OF assms(1-3), of api snk] fold_received [OF assms(4), of st h]
  by (auto simp: reader_exit_def disconnect_keeps)

end

interpretation buffering: recv_sink BufferingSink buf_received
  by unfold_locales
     (auto simp: BufferingSink_def NullSink_def buf_received_def buf_recv_def buf_close_def
       default_buf_def unwrap_or_def Let_def fun_eq_iff split: option.splits)

section \<open>What operations put on the wire\<close>

lemma recv_timeout_writer [simp]:
  "rc_writer (snd (recv_timeout api snk rid rx n st)) = rc_writer st"
  "rc_next_id (snd (recv_timeout api snk rid rx n st)) = rc_next_id st"
proof (induction n arbitrary: st)
  case 0
  { case 1 then show ?case by (subst recv_timeout.simps) (simp split: option.splits) }
  { case 2 then show ?case by (subst recv_timeout.simps) (simp split: option.splits) }
next
  case (Suc n)
  { case 1 then show ?case using Suc by (subst recv_timeout.simps) (simp split: option.splits) }
  { case 2 then show ?case using Suc by (subst recv_timeout.simps) (simp split: option.splits) }
qed

lemma next_wait_writer [simp]:
  "rc_writer (snd (next_wait st)) = rc_writer st" "rc_next_id (snd (next_wait st)) = rc_next_id st"
  by (simp_all add: next_wait_def split: list.splits)

lemma rhp_request_writer:
  "rc_next_id (snd (rhp_request api snk rid bytes st)) = rc_next_id st"
  "rc_writer (snd (rhp_request api snk rid bytes st)) = snd (write_frame tcp_writer bytes (rc_writer st))"
  "fst (rhp_request api snk rid bytes st) = Inr f \<Longrightarrow>
     fst (write_frame tcp_writer bytes (rc_writer st)) = Inr ()"
  by (auto simp: rhp_request_def register_request_def unregister_request_def Let_def prod.case_eq_if
      split: sum.splits)

text \<open>A call that succeeds has used the next id and appended exactly the frame of its request.\<close>

lemma rhp_call_ok:
  assumes "rhp_call api snk mk st = (Inr f, st')"
  obtains body where "to_vec api (req_fields (mk (1 + rc_next_id st))) = Some body"
    "rc_next_id st' = 1 + rc_next_id st" "tcp_sent (rc_writer st') = tcp_sent (rc_writer st) @ frame_bytes body"
proof -
  let ?st1 = "st\<lparr>rc_next_id := rc_next_id st + 1\<rparr>"
  obtain body where b: "to_vec api (req_fields (mk (1 + rc_next_id st))) = Some body"
    using assms by (auto simp: rhp_call_def fresh_id_def split: option.splits)
  obtain r st2 where r: "rhp_request api snk (1 + rc_next_id st) body ?st1 = (r, st2)" by fastforce
  have ok: "r = Inr f" "st2 = st'"
    using assms b r by (auto simp: rhp_call_def fresh_id_def split: sum.splits)
  have "fst (write_frame tcp_writer body (rc_writer st)) = Inr ()"
    using rhp_request_writer(3) [of api snk "1 + rc_next_id st" body ?st1 f] r ok by simp
  then have "write_frame tcp_writer body (rc_writer st) = (Inr (), rc_writer st')"
    using rhp_request_writer(2) [of api snk "1 + rc_next_id st" body ?st1] r ok by (simp add: prod_eq_iff)
  then have "tcp_sent (rc_writer st') = tcp_sent (rc_writer st) @ frame_bytes body"
    using tcp.write_frame_sent by blast
  moreover have "rc_next_id st' = 1 + rc_next_id st"
    using rhp_request_writer(1) [of api snk "1 + rc_next_id st" body ?st1] r ok by simp
  ultimately show ?thesis using that b by blast
qed

lemma send_chunks_ok:
  assumes "send_chunks api snk h cs st = (Inr (), st')"
  shows "\<exists>bodies. tcp_sent (rc_writer st') = tcp_sent (rc_writer st) @ concat (map frame_bytes bodies) \<and>
    length bodies = length cs \<and>
    (\<forall>i < length cs. to_vec api (req_fields (SendReq (ascii ''send'') (rc_next_id st + of_nat (i + 1)) h
        (to_wire_string (cs ! i)))) = Some (bodies ! i))"
  using assms
proof (induction cs arbitrary: st)
  case Nil
  then show ?case by simp
next
  case (Cons c cs)
  obtain f st1 where c: "rhp_call api snk (\<lambda>rid. SendReq (ascii ''send'') rid h (to_wire_string c)) st = (Inr f, st1)"
    and rest: "send_chunks api snk h cs st1 = (Inr (), st')"
    using Cons.prems by (auto simp: send_chunk_def ignore_reply_def split: sum.splits prod.splits)
  obtain body where b: "to_vec api (req_fields (SendReq (ascii ''send'') (1 + rc_next_id st) h (to_wire_string c))) = Some body"
    "rc_next_id st1 = 1 + rc_next_id st" "tcp_sent (rc_writer st1) = tcp_sent (rc_writer st) @ frame_bytes body"
    using rhp_call_ok [OF c] by metis
  obtain bodies where bs: "tcp_sent (rc_writer st') = tcp_sent (rc_writer st1) @ concat (map frame_bytes bodies)"
    "length bodies = length cs" "\<forall>i < length cs. to_vec api (req_fields (SendReq (ascii ''send'')
        (rc_next_id st1 + of_nat (i + 1)) h (to_wire_string (cs ! i)))) = Some (bodies ! i)"
    using Cons.IH [OF rest] by blast
  have "to_vec api (req_fields (SendReq (ascii ''send'') (rc_next_id st + of_nat (i + 1)) h
      (to_wire_string ((c # cs) ! i)))) = Some ((body # bodies) ! i)" if "i < length (c # cs)" for i
    using that b bs by (cases i) (auto simp: algebra_simps)
  with b bs show ?case by (intro exI [of _ "body # bodies"]) auto
qed

lemma chunks_concat: "0 < n \<Longrightarrow> concat (chunks n xs) = xs"
  by (induction n xs rule: chunks.induct) (subst chunks.simps, simp)

lemma chunks_bound: "c \<in> set (chunks n xs) \<Longrightarrow> length c \<le> n \<and> c \<noteq> []"
proof (induction n xs rule: chunks.induct)
  case (1 n xs)
  then show ?case by (subst (asm) (2) chunks.simps) (auto split: if_splits)
qed

text \<open>A request whose write goes through has put its frame on the wire whatever becomes of the reply.\<close>

lemma rhp_call_sent:
  assumes "to_vec api (req_fields (mk (1 + rc_next_id st))) = Some body" and "length body \<le> MAX_FRAME"
    and "tcp_room (rc_writer st) = None"
  shows "rc_writer (snd (rhp_call api snk mk st)) = (rc_writer st)\<lparr>tcp_sent := tcp_sent (rc_writer st) @ frame_bytes body\<rparr>"
    and "rc_next_id (snd (rhp_call api snk mk st)) = 1 + rc_next_id st"
proof -
  let ?st = "st\<lparr>rc_next_id := rc_next_id st + 1\<rparr>"
  obtain r st' where r: "rhp_request api snk (1 + rc_next_id st) body ?st = (r, st')" by (cases "rhp_request api snk (1 + rc_next_id st) body ?st")
  have c: "snd (rhp_call api snk mk st) = st'" using assms(1) r by (auto simp: rhp_call_def fresh_id_def split: sum.splits)
  have "snd (write_frame tcp_writer body (rc_writer st)) = (rc_writer st)\<lparr>tcp_sent := tcp_sent (rc_writer st) @ frame_bytes body\<rparr>"
    using assms(2,3) by (simp add: write_frame_def tcp_writer_def tcp_write_all_def frame_bytes_def Let_def)
  then show "rc_writer (snd (rhp_call api snk mk st)) = (rc_writer st)\<lparr>tcp_sent := tcp_sent (rc_writer st) @ frame_bytes body\<rparr>"
    "rc_next_id (snd (rhp_call api snk mk st)) = 1 + rc_next_id st"
    using c r rhp_request_writer(1,2) [of api snk "1 + rc_next_id st" body ?st] by simp_all
qed

section \<open>Invariants of the reader\<close>

text \<open>
  A property of the connect registry and the sink's state that every iteration of the reader thread and
  every registry operation keeps is kept by every operation of the client, whatever arrives while
  it waits.
\<close>

locale reader_inv =
  fixes api :: "'j json_api" and snk :: "'s event_sink" and Q :: "conn_registry \<Rightarrow> 's \<Rightarrow> bool"
  assumes step_inv: "Q (rc_conns st) (rc_sink st) \<Longrightarrow> Q (rc_conns (reader_step api snk st)) (rc_sink (reader_step api snk st))"
    and pending_inv: "Q m s \<Longrightarrow> Q (set_pending h m) s"
    and forget_inv: "Q m s \<Longrightarrow> Q (conn_forget h m) s"
    and take_inv: "Q m s \<Longrightarrow> Q (snd (take_error h m)) s"
    and fresh_inv: "Q m s \<Longrightarrow> Q Map.empty s"
begin

definition holds :: "('j, 's) client \<Rightarrow> bool" where
  "holds st \<longleftrightarrow> Q (rc_conns st) (rc_sink st)"

lemma holds_frame [simp]:
  "holds (st\<lparr>rc_writer := w\<rparr>) = holds st" "holds (st\<lparr>rc_next_id := i\<rparr>) = holds st" "holds (st\<lparr>rc_pending := p\<rparr>) = holds st"
  "holds (st\<lparr>rc_sched := ns\<rparr>) = holds st" "holds (st\<lparr>rc_chans := j\<rparr>) = holds st" "holds (st\<lparr>rc_accepts := q\<rparr>) = holds st"
  by (simp_all add: holds_def)

lemma step_holds: "holds st \<Longrightarrow> holds (reader_step api snk st)"
  using step_inv by (simp add: holds_def)

lemma next_wait_inv: "holds st \<Longrightarrow> holds (snd (next_wait st))"
  by (simp add: next_wait_def split: list.splits)

lemma recv_timeout_inv: "holds st \<Longrightarrow> holds (snd (recv_timeout api snk rid rx n st))"
  by (induction n arbitrary: st; subst recv_timeout.simps) (auto split: option.splits intro: step_holds)

lemma rhp_request_inv: "holds st \<Longrightarrow> holds (snd (rhp_request api snk rid bytes st))"
  by (auto simp: rhp_request_def register_request_def unregister_request_def Let_def prod.case_eq_if
      split: sum.splits intro!: recv_timeout_inv next_wait_inv)

lemma rhp_call_inv: "holds st \<Longrightarrow> holds (snd (rhp_call api snk mk st))"
  using rhp_request_inv [of "snd (fresh_id st)" "fst (fresh_id st)"]
  by (simp add: rhp_call_def fresh_id_def prod.case_eq_if split: option.splits sum.splits)

lemma ignore_reply_inv: "holds st \<Longrightarrow> holds (snd (ignore_reply (rhp_call api snk mk st)))"
  using rhp_call_inv [of st mk] by (auto simp: ignore_reply_def split: sum.splits prod.splits)

lemma send_chunks_inv: "holds st \<Longrightarrow> holds (snd (send_chunks api snk h cs st))"
proof (induction cs arbitrary: st)
  case (Cons c cs)
  have "holds (snd (send_chunk api snk h c st))" using Cons.prems ignore_reply_inv by (simp add: send_chunk_def)
  then show ?case using Cons.IH by (auto split: sum.splits prod.splits)
qed simp

lemma operations_inv:
  assumes "holds st"
  shows "holds (snd (rhp_send api snk h data st))"
    and "holds (snd (rhp_sendto api snk h remote local data st))"
    and "holds (snd (rhp_close api snk h st))"
    and "holds (snd (rhp_auth api snk user pass st))"
    and "holds (snd (rhp_bind api snk h local port st))"
    and "holds (snd (rhp_listen api snk h st))"
    and "holds (snd (socket_mode api snk mode st))"
    and "holds (snd (open_connect api snk local remote via st))"
    and "holds (snd (take_connect_error h st))"
    and "holds (snd (try_accept h st))"
proof -
  have "holds (st\<lparr>rc_conns := conn_forget h (rc_conns st)\<rparr>)" using assms forget_inv by (simp add: holds_def)
  then show "holds (snd (rhp_close api snk h st))" by (simp add: rhp_close_def ignore_reply_inv)
  show "holds (snd (take_connect_error h st))"
    using assms take_inv by (simp add: holds_def take_connect_error_def prod.case_eq_if)
  show "holds (snd (rhp_send api snk h data st))" "holds (snd (rhp_sendto api snk h remote local data st))"
    "holds (snd (rhp_auth api snk user pass st))" "holds (snd (rhp_bind api snk h local port st))"
    "holds (snd (rhp_listen api snk h st))" "holds (snd (try_accept h st))"
    using assms send_chunks_inv ignore_reply_inv
    by (simp_all add: rhp_send_def send_chunk_def rhp_sendto_def rhp_auth_def rhp_bind_def rhp_listen_def try_accept_def prod.case_eq_if)
  show "holds (snd (socket_mode api snk mode st))"
    using rhp_call_inv [OF assms] by (simp add: socket_mode_def prod.case_eq_if split: sum.splits option.splits)
  have o: "holds (snd (rhp_open api snk local (Some remote) via' flags st))" for via' flags
    using rhp_call_inv [OF assms] by (simp add: rhp_open_def prod.case_eq_if split: sum.splits option.splits)
  then show "holds (snd (open_connect api snk local remote via st))"
    using pending_inv by (simp add: open_connect_def holds_def Let_def prod.case_eq_if split: sum.splits)
qed

lemma wait_connected_inv: "holds st \<Longrightarrow> holds (snd (wait_connected api snk h timed st))"
proof -
  have "holds st \<Longrightarrow> holds (snd (wait_connected_for api snk h timed n st))" for n st
    by (cases timed; induction n arbitrary: st; subst wait_connected_for.simps) (simp_all add: step_holds split: option.splits)
  then show "holds st \<Longrightarrow> holds (snd (wait_connected api snk h timed st))"
    using next_wait_inv [of st] by (simp add: wait_connected_def prod.case_eq_if)
qed

lemma wait_accept_inv: "holds st \<Longrightarrow> holds (snd (wait_accept api snk l timed st))"
proof -
  have "holds st \<Longrightarrow> holds (snd (wait_accept_for api snk l timed n st))" for n st
    by (cases timed; induction n arbitrary: st; subst wait_accept_for.simps) (simp_all add: step_holds prod.case_eq_if split: option.splits)
  then show "holds st \<Longrightarrow> holds (snd (wait_accept api snk l timed st))"
    using next_wait_inv [of st] by (simp add: wait_accept_def prod.case_eq_if)
qed

lemma connect_to_inv:
  assumes "Q m s"
  shows "connect_to api snk stream clone spawn user pass sched s = Inr c \<Longrightarrow> holds c"
    and "connect_to api snk stream clone spawn user pass sched s = Inl (err, left, s') \<Longrightarrow> \<exists>m'. Q m' s'"
proof -
  have new: "holds (new_client w r sched s)" for w r using assms fresh_inv by (simp add: holds_def new_client_def)
  have auth: "holds (snd (rhp_auth api snk u p (new_client w r sched s)))" for u p w r
    using new operations_inv(4) by blast
  show "holds c" if "connect_to api snk stream clone spawn user pass sched s = Inr c"
    using that new auth by (auto simp: connect_to_def Let_def prod.case_eq_if split: sum.splits option.splits if_splits)
  show "\<exists>m'. Q m' s'" if "connect_to api snk stream clone spawn user pass sched s = Inl (err, left, s')"
    using that assms auth unfolding holds_def
    by (auto simp: connect_to_def Let_def prod.case_eq_if split: sum.splits option.splits if_splits) blast
qed

end

text \<open>A property of the sink alone is kept when every callback keeps it.\<close>

locale sink_inv =
  fixes snk :: "'s event_sink" and P :: "'s \<Rightarrow> bool"
  assumes recv_inv: "P s \<Longrightarrow> P (on_recv snk h d s)"
    and dgram_inv: "P s \<Longrightarrow> P (on_dgram snk h a b d s)"
    and accept_inv: "P s \<Longrightarrow> P (on_accept snk l c r a s)"
    and status_inv: "P s \<Longrightarrow> P (on_status snk h fl s)"
    and close_inv: "P s \<Longrightarrow> P (on_close snk h s)"
    and disconnect_inv: "P s \<Longrightarrow> P (on_disconnect snk s)"
begin

lemma handle_frame_inv: "P (rc_sink st) \<Longrightarrow> P (rc_sink (handle_frame api snk f st))"
  by (auto simp: handle_frame_def dispatch_push_def push_defs Let_def split: option.splits
      intro: recv_inv dgram_inv accept_inv status_inv close_inv)

lemma reader_step_inv: "P (rc_sink st) \<Longrightarrow> P (rc_sink (reader_step api snk st))"
  by (auto simp: reader_step_def reader_exit_def split: prod.splits sum.splits option.splits
      intro: handle_frame_inv disconnect_inv)

end

sublocale sink_inv \<subseteq> reader: reader_inv api snk "\<lambda>m. P" for api
  by unfold_locales (simp_all add: reader_step_inv)

text \<open>A failed connect always has a reason.\<close>

lemma errcode_nonzero: "errcode_to_errno c = 0 \<longleftrightarrow> c = 0"
  by (simp add: errcode_to_errno_def errno_defs)

lemma handle_frame_failures: "failures_ok (rc_conns st) \<Longrightarrow> failures_ok (rc_conns (handle_frame api snk f st))"
  by (auto simp: failures_ok_def errcode_nonzero handle_frame_def dispatch_push_def push_defs registry_defs ECONNREFUSED_def Let_def
      split: option.splits if_splits)

interpretation failures: reader_inv api snk "\<lambda>m s. failures_ok m" for api :: "'j json_api" and snk :: "'s event_sink"
proof unfold_locales
  show "failures_ok (rc_conns (reader_step api snk st))" if "failures_ok (rc_conns st)" for st :: "('j, 's) client"
    using that handle_frame_failures [of "st\<lparr>rc_input := _\<rparr>"]
    by (auto simp: reader_step_def reader_exit_def failures_ok_def fail_all_pending_def ECONNRESET_def
        split: prod.splits sum.splits option.splits if_splits)
qed (auto simp: failures_ok_def registry_defs take_error_def conn_forget_def split: option.splits conn_phase.splits if_splits)

section \<open>Accept queues\<close>

lemma dispatch_accepts:
  assumes "frame_parse api p = Some f"
  shows "unwrap_or [] (rc_accepts (dispatch_push api snk f st) l) = unwrap_or [] (rc_accepts st l) @ accept_data api l p"
  using assms
  by (auto simp: dispatch_push_def push_defs accept_data_def accept_push_def Let_def ascii_def split: option.splits)

lemma frame_event_accepts:
  assumes "\<And>f. frame_parse api p = Some f \<Longrightarrow> frame_typ api f = ascii ''accept'' \<Longrightarrow> frame_id api f = None"
  shows "unwrap_or [] (rc_accepts (frame_event api snk p st) l) = unwrap_or [] (rc_accepts st l) @ accept_data api l p"
proof (cases "frame_parse api p")
  case None
  then show ?thesis by (simp add: frame_event_def accept_data_def)
next
  case (Some f)
  show ?thesis
  proof (cases "frame_typ api f = ascii ''accept''")
    case True
    then have "frame_id api f = None" using assms Some by blast
    then show ?thesis using Some dispatch_accepts [OF Some, of snk st l]
      by (simp add: frame_event_def handle_frame_def and_then_def)
  next
    case False
    then have "accept_data api l p = []" using Some by (simp add: accept_data_def split: option.splits)
    then show ?thesis using Some dispatch_accepts [OF Some, of snk st l]
      by (simp add: frame_event_def handle_frame_def split: option.splits)
  qed
qed

lemma fold_accepts:
  assumes "\<forall>p \<in> set ps. \<forall>f. frame_parse api p = Some f \<and> frame_typ api f = ascii ''accept'' \<longrightarrow> frame_id api f = None"
  shows "unwrap_or [] (rc_accepts (fold (frame_event api snk) ps st) l) =
    unwrap_or [] (rc_accepts st l) @ concat (map (accept_data api l) ps)"
  using assms
proof (induction ps arbitrary: st)
  case (Cons p ps)
  then show ?case using frame_event_accepts [of api p snk st l] by simp
qed simp

lemma accept_all_queue: "accept_all n l st = take n (unwrap_or [] (rc_accepts st l))"
proof (induction n arbitrary: st)
  case (Suc n)
  show ?case
  proof (cases "unwrap_or [] (rc_accepts st l)")
    case Nil
    then show ?thesis by (auto simp: try_accept_def accept_pop_def unwrap_or_def split: option.splits)
  next
    case (Cons a q)
    then have "rc_accepts st l = Some (a # q)" by (simp add: unwrap_or_def split: option.splits)
    then show ?thesis using Suc by (simp add: try_accept_def accept_pop_def)
  qed
qed simp

section \<open>Failing calls\<close>

lemma check_ok_errno: "check_ok api f = Inl e \<Longrightarrow> to_errno e \<noteq> 0"
  by (auto simp: check_ok_def Let_def errcode_to_errno_def errno_defs split: if_splits)

lemma recv_timeout_errno: "recv_timeout api snk rid rx n st = (Inl e, st') \<Longrightarrow> to_errno e \<noteq> 0"
proof (induction n arbitrary: st)
  case 0
  then show ?case by (subst (asm) recv_timeout.simps) (auto simp: errno_defs ETIMEDOUT_def split: option.splits if_splits)
next
  case (Suc n)
  from Suc.prems show ?case
    by (subst (asm) recv_timeout.simps) (auto simp: errno_defs split: option.splits if_splits dest: Suc.IH)
qed

lemma rhp_call_errno: "rhp_call api snk mk st = (Inl e, st') \<Longrightarrow> to_errno e \<noteq> 0"
  by (auto simp: rhp_call_def rhp_request_def Let_def errno_defs
      split: option.splits sum.splits prod.splits dest: recv_timeout_errno check_ok_errno)

lemma ignore_reply_errno:
  "ignore_reply (rhp_call api snk mk st) = (Inl e, st') \<Longrightarrow> to_errno e \<noteq> 0"
  by (auto simp: ignore_reply_def split: sum.splits prod.splits dest: rhp_call_errno)

lemma rhp_open_errno: "rhp_open api snk local remote via flags st = (Inl e, st') \<Longrightarrow> to_errno e \<noteq> 0"
  by (auto simp: rhp_open_def errcode_to_errno_def errno_defs
      split: sum.splits prod.splits option.splits dest: rhp_call_errno)

lemma socket_mode_errno: "socket_mode api snk mode st = (Inl e, st') \<Longrightarrow> to_errno e \<noteq> 0"
  by (auto simp: socket_mode_def errcode_to_errno_def errno_defs
      split: sum.splits prod.splits option.splits dest: rhp_call_errno)

lemma rhp_send_errno: "rhp_send api snk h data st = (Inl e, st') \<Longrightarrow> to_errno e \<noteq> 0"
proof -
  have "send_chunks api snk h cs st = (Inl e, st') \<Longrightarrow> to_errno e \<noteq> 0" for cs
    by (induction cs arbitrary: st)
       (auto simp: send_chunk_def split: sum.splits prod.splits dest: ignore_reply_errno)
  then show "rhp_send api snk h data st = (Inl e, st') \<Longrightarrow> to_errno e \<noteq> 0"
    by (auto simp: rhp_send_def send_chunk_def split: if_splits dest: ignore_reply_errno)
qed

lemma open_connect_errno: "open_connect api snk local remote via st = (Inl e, st') \<Longrightarrow> to_errno e \<noteq> 0"
  by (auto simp: open_connect_def Let_def split: sum.splits prod.splits dest: rhp_open_errno)

section \<open>A closed client\<close>

lemma reader_step_when_closed: "rc_closed st \<Longrightarrow> reader_step api snk st = st"
  by (simp add: reader_step_def)

lemma recv_timeout_closed:
  assumes "rc_closed st" and "rc_mail st rx = None" and "rc_pending st rid = Some rx"
  shows "recv_timeout api snk rid rx n st = (Inl Timeout, st)"
  using assms
  by (induction n) (subst recv_timeout.simps, simp add: reader_step_when_closed)+

section \<open>Properties\<close>

text \<open>C8 (replies reach their request). In every interleaving of the client's threads, the frame that
  arrives in the channel of a request carries that request's id, and once it has arrived no
  step replaces or removes it.\<close>

theorem reply_correlated:
  assumes "client_run api snk (new_client w r sched s) st" and "register_request rid st = (rx, st1)"
    and "client_run api snk st1 st2" and "rc_mail st2 rx = Some f" and "client_run api snk st2 st3"
  shows "frame_id api f = Some rid \<and> rc_mail st3 rx = Some f"
proof -
  have "chan_inv (new_client w r sched s)" by (simp add: chan_inv_def new_client_def)
  then have "chan_inv st" using run_chan_inv [OF assms(1)] by blast
  then have "chan_owner api rid rx st2"
    using register_chan_owner [OF _ assms(2)] run_chan_owner [OF assms(3)] by blast
  then show ?thesis using run_mail_stable [OF assms(5) _ assms(4)] assms(4) by (auto simp: chan_owner_def)
qed

theorem reply_correlated_witness:
  "\<exists>f. rc_mail (reader_step sample_api BufferingSink (reader_step sample_api BufferingSink
       (snd (register_request 1 (sample_client [[2], [1]] []))))) 0 = Some f \<and> frame_id sample_api f = Some 1"
proof -
  let ?st = "sample_client [[2], [1]] []"
  let ?st1 = "snd (register_request 1 ?st)"
  let ?step = "reader_step sample_api BufferingSink"
  have reg: "register_request 1 ?st = (0, ?st1)"
    by (simp add: register_request_def sample_client_def new_client_def)
  have start: "client_run sample_api BufferingSink (new_client \<lparr>tcp_sent = [], tcp_room = None\<rparr>
     \<lparr>in_bytes = concat (map frame_bytes [[2], [1]]), in_end = None\<rparr> [] Map.empty) ?st"
    unfolding sample_client_def by (rule rtranclp.rtrancl_refl)
  have run: "client_run sample_api BufferingSink ?st1 (?step (?step ?st1))"
    by (meson rtranclp.rtrancl_into_rtrancl rtranclp.rtrancl_refl step_reader)
  have "rc_mail (?step (?step ?st1)) 0 \<noteq> None" by code_simp
  then obtain f where "rc_mail (?step (?step ?st1)) 0 = Some f" by blast
  moreover from reply_correlated [OF start reg run this rtranclp.rtrancl_refl]
  have "frame_id sample_api f = Some 1" by blast
  ultimately show ?thesis by blast
qed

text \<open>A request and its answer. A blocking request that returns a frame returns one with its own
  id, and whatever it returns it leaves no entry of its own in the pending table.\<close>

theorem request_outcome:
  assumes "chan_inv st" and "rhp_request api snk rid bytes st = (r, st')"
  shows "rc_pending st' rid = None \<and> chan_inv st' \<and> (\<forall>f. r = Inr f \<longrightarrow> frame_id api f = Some rid)"
proof -
  obtain rx st1 where reg: "register_request rid st = (rx, st1)" by fastforce
  obtain st2 where st2: "client_run api snk st1 st2" "st' = unregister_request rid st2"
    "\<And>f. r = Inr f \<Longrightarrow> rc_mail st2 rx = Some f"
    using rhp_request_run [OF assms(2) reg] by metis
  have "chan_inv st1" using register_chan_inv [OF assms(1), of rid] reg by simp
  then have "chan_inv st'"
    using st2 run_chan_inv step_chan_inv [OF step_finish] by blast
  moreover have "chan_owner api rid rx st2"
    using register_chan_owner [OF assms(1) reg] run_chan_owner [OF st2(1)] by blast
  ultimately show ?thesis using st2 by (auto simp: unregister_request_def chan_owner_def)
qed

theorem request_outcome_witness:
  "\<exists>f. fst (rhp_request sample_api BufferingSink 1 [0] (sample_client [[2], [1]] [2])) = Inr f \<and>
     frame_id sample_api f = Some 1"
proof -
  let ?r = "rhp_request sample_api BufferingSink 1 [0] (sample_client [[2], [1]] [2])"
  have "chan_inv (sample_client [[2], [1]] [2])" by (simp add: chan_inv_def sample_client_def new_client_def)
  moreover have "?r = (fst ?r, snd ?r)" by simp
  ultimately have "\<forall>f. fst ?r = Inr f \<longrightarrow> frame_id sample_api f = Some 1" using request_outcome by blast
  moreover have "(case fst ?r of Inr _ \<Rightarrow> True | Inl _ \<Rightarrow> False)" by code_simp
  ultimately show ?thesis by (cases "fst ?r") auto
qed

text \<open>Sending a buffer. When \<^verbatim>\<open>send\<close> succeeds, the wire has grown by one frame per chunk, in order
  and with consecutive ids; the chunks are at most 8100 bytes and together, decoded from their
  wire strings, are the data.\<close>

theorem send_on_wire:
  assumes "rhp_send api snk h data st = (Inr (), st')" and "data \<noteq> []"
  shows "\<exists>cs bodies. tcp_sent (rc_writer st') = tcp_sent (rc_writer st) @ concat (map frame_bytes bodies) \<and>
    length bodies = length cs \<and>
    (\<forall>i < length cs. to_vec api (req_fields (SendReq (ascii ''send'') (rc_next_id st + of_nat (i + 1)) h
        (to_wire_string (cs ! i)))) = Some (bodies ! i)) \<and>
    (\<forall>c \<in> set cs. 0 < length c \<and> length c \<le> MAX_SEND_CHUNK) \<and>
    concat (map (from_wire_string \<circ> to_wire_string) cs) = data"
proof -
  let ?cs = "chunks MAX_SEND_CHUNK data"
  have "send_chunks api snk h ?cs st = (Inr (), st')" using assms by (simp add: rhp_send_def)
  then obtain bodies where b: "tcp_sent (rc_writer st') = tcp_sent (rc_writer st) @ concat (map frame_bytes bodies)"
    "length bodies = length ?cs"
    "\<forall>i < length ?cs. to_vec api (req_fields (SendReq (ascii ''send'') (rc_next_id st + of_nat (i + 1)) h
        (to_wire_string (?cs ! i)))) = Some (bodies ! i)"
    using send_chunks_ok by blast
  have "from_wire_string (to_wire_string c) = c" for c by (rule wire_decode)
  then have "concat (map (from_wire_string \<circ> to_wire_string) ?cs) = data"
    by (simp add: comp_def chunks_concat MAX_SEND_CHUNK_def)
  moreover have "\<forall>c \<in> set ?cs. 0 < length c \<and> length c \<le> MAX_SEND_CHUNK" using chunks_bound by fastforce
  ultimately show ?thesis using b by blast
qed

theorem send_on_wire_witness:
  "\<exists>bodies. tcp_sent (rc_writer (snd (rhp_send sample_api BufferingSink 42 [0x41] (sample_client [[1]] [1])))) =
     concat (map frame_bytes bodies)"
proof -
  let ?r = "rhp_send sample_api BufferingSink 42 [0x41] (sample_client [[1]] [1])"
  have "fst ?r = Inr ()" by (simp only: rhp_send_def sample_client_def) code_simp
  then have "?r = (Inr (), snd ?r)" by (metis prod.collapse)
  from send_on_wire [OF this] show ?thesis by (auto simp: sample_client_def new_client_def)
qed

text \<open>C16 (losing the transport). The reader thread always ends, whatever bytes arrive; then the client is
  closed, no request is pending, no connect is pending, and no wait blocks any more.\<close>

theorem disconnect_faults_all:
  assumes "\<not> rc_closed st"
  shows "rc_closed (reader_loop api snk st) \<and> rc_pending (reader_loop api snk st) = Map.empty \<and>
    (\<forall>h. rc_conns (reader_loop api snk st) h \<noteq> Some Pending) \<and>
    (\<forall>h timed n. fst (wait_connected_for api snk h timed n (reader_loop api snk st)) \<noteq> None) \<and>
    (\<forall>l timed n. fst (wait_accept_for api snk l timed n (reader_loop api snk st)) \<noteq> None)"
proof -
  have ex: "\<exists>s. reader_loop api snk st = reader_exit snk s" by (rule reader_loop_exit [OF assms])
  then have c: "rc_closed (reader_loop api snk st)" by (auto simp: reader_exit_def)
  have "rc_pending (reader_loop api snk st) = Map.empty" "rc_conns (reader_loop api snk st) h \<noteq> Some Pending" for h
    using ex by (auto simp: reader_exit_def fail_all_pending_def split: if_splits)
  moreover have "fst (wait_connected_for api snk h timed n (reader_loop api snk st)) \<noteq> None"
    "fst (wait_accept_for api snk h timed n (reader_loop api snk st)) \<noteq> None" for h timed n
    using c by (subst wait_connected_for.simps, simp split: option.splits)
      (use c in \<open>subst wait_accept_for.simps, simp split: option.splits prod.splits\<close>)
  ultimately show ?thesis using c by blast
qed

theorem disconnect_faults_all_witness:
  "rc_conns (reader_loop sample_api BufferingSink
     ((sample_client [] [])\<lparr>rc_conns := [42 \<mapsto> Pending]\<rparr>)) 42 \<noteq> Some Pending"
  using disconnect_faults_all [of "(sample_client [] [])\<lparr>rc_conns := [42 \<mapsto> Pending]\<rparr>" sample_api BufferingSink]
  by (simp add: sample_client_def new_client_def)

text \<open>Waiting for a link. \<^verbatim>\<open>wait_connected\<close> returns the outcome at the first iteration of the reader after
  which the connect is settled; when none of the iterations of the wait settles it, it times
  out, or, without a timeout, is still blocked.\<close>

theorem wait_connected_outcome:
  "(\<exists>k \<le> n. settled h ((reader_step api snk ^^ k) st) \<and> (\<forall>j<k. \<not> settled h ((reader_step api snk ^^ j) st)) \<and>
      wait_connected_for api snk h timed n st =
        (Some (settled_value h ((reader_step api snk ^^ k) st)), (reader_step api snk ^^ k) st)) \<or>
   ((\<forall>j \<le> n. \<not> settled h ((reader_step api snk ^^ j) st)) \<and>
      fst (wait_connected_for api snk h timed n st) = (if timed then Some (Inl ETIMEDOUT) else None))"
proof (cases "\<exists>j. j \<le> n \<and> settled h ((reader_step api snk ^^ j) st)")
  case True
  then obtain j where j: "j \<le> n" "settled h ((reader_step api snk ^^ j) st)" by blast
  define k where "k = (LEAST k. settled h ((reader_step api snk ^^ k) st))"
  have k: "settled h ((reader_step api snk ^^ k) st)" unfolding k_def using j(2) by (rule LeastI)
  have "k \<le> n" unfolding k_def using j by (blast intro: order_trans Least_le)
  moreover have "\<forall>i<k. \<not> settled h ((reader_step api snk ^^ i) st)" unfolding k_def by (blast dest: not_less_Least)
  ultimately show ?thesis using wait_connected_first [OF k, of n timed] k by blast
next
  case False
  then show ?thesis using wait_connected_never by blast
qed

theorem wait_connected_outcome_witness:
  "fst (wait_connected_for sample_api BufferingSink 42 False 5 (sample_client [[2], [3], [4]] [])) = Some (Inr ())"
proof -
  let ?st = "sample_client [[2], [3], [4]] []"
  let ?step = "reader_step sample_api BufferingSink"
  have s: "settled 42 ((?step ^^ 2) ?st)" "\<not> settled 42 ((?step ^^ 0) ?st)" "\<not> settled 42 ((?step ^^ 1) ?st)"
    "settled_value 42 ((?step ^^ 2) ?st) = Inr ()" by code_simp+
  then have "\<not> (\<forall>j \<le> 5. \<not> settled 42 ((?step ^^ j) ?st))" by (intro notI) (auto dest: spec [of _ 2])
  then obtain k where k: "k \<le> 5" "settled 42 ((?step ^^ k) ?st)" "\<forall>j<k. \<not> settled 42 ((?step ^^ j) ?st)"
    "wait_connected_for sample_api BufferingSink 42 False 5 ?st = (Some (settled_value 42 ((?step ^^ k) ?st)), (?step ^^ k) ?st)"
    using wait_connected_outcome [where api = sample_api and snk = BufferingSink and h = 42 and timed = False and n = 5 and st = ?st]
    by blast
  have "k \<noteq> 0" "k \<noteq> 1" using k(2) s(2,3) by metis+
  moreover have "\<not> 2 < k" using k(3) s(1) by blast
  ultimately have "k = 2" by linarith
  then show ?thesis using k(4) s(4) by simp
qed

text \<open>Connect phases. While the reader runs, a tracked connect stays tracked; it leaves Pending for
  good, Connected is final, and a failure keeps its errno unless a status(Connected) follows.\<close>

theorem connect_phases_monotone:
  assumes "rc_conns st h = Some p"
  shows "\<exists>q. rc_conns ((reader_step api snk ^^ n) st) h = Some q \<and> phase_le p q"
  using reader_steps_conns_le [where st = st and api = api and snk = snk and n = n] assms by (auto simp: conns_le_def)

theorem connect_phases_monotone_witness:
  "rc_conns ((reader_step sample_api BufferingSink ^^ 3)
     ((sample_client [[3], [5]] [])\<lparr>rc_conns := [42 \<mapsto> Connected]\<rparr>)) 42 = Some Connected"
  using connect_phases_monotone [where st = "(sample_client [[3], [5]] [])\<lparr>rc_conns := [42 \<mapsto> Connected]\<rparr>"
      and h = 42 and p = Connected and n = 3 and api = sample_api and snk = BufferingSink] by simp

text \<open>Stream delivery. Whatever frames arrive, in one piece or interleaved for many handles, the
  buffering sink ends up with the data of each handle's recv pushes, decoded, complete and in
  order.\<close>

theorem stream_delivery:
  assumes "list_all (\<lambda>p. length p \<le> MAX_FRAME) ps" and "\<not> rc_closed st"
    and "rc_input st = \<lparr>in_bytes = concat (map frame_bytes ps), in_end = e\<rparr>"
    and "\<forall>p \<in> set ps. \<forall>f. frame_parse api p = Some f \<and> frame_typ api f = ascii ''recv'' \<longrightarrow> frame_id api f = None"
  shows "fst (buf_take h (rc_sink (reader_loop api BufferingSink st))) =
    fst (buf_take h (rc_sink st)) @ concat (map (stream_data api h) ps)"
proof -
  have "fst (buf_take h m) = buf_received m h" for m
    by (simp add: buf_take_def buf_received_def split: option.splits)
  then show ?thesis using buffering.reader_loop_received [OF assms, of h] by simp
qed

theorem stream_delivery_witness:
  "fst (buf_take 42 (rc_sink (reader_loop sample_api BufferingSink (sample_client [[2], [4], [2]] [])))) =
     [0x41, 0xFF, 0x41, 0xFF]"
proof -
  have p: "\<forall>p \<in> set [[2], [4], [2]]. \<forall>f. frame_parse sample_api p = Some f \<and> frame_typ sample_api f = ascii ''recv'' \<longrightarrow>
      frame_id sample_api f = None"
    by (simp add: sample_api_def table_json_def frame_defs)
  have "concat (map (stream_data sample_api 42) [[2], [4], [2]]) = [0x41, 0xFF, 0x41, 0xFF]" by code_simp
  then show ?thesis
    using stream_delivery [OF _ _ _ p, of "sample_client [[2], [4], [2]] []" None 42]
    by (simp add: sample_client_def new_client_def MAX_FRAME_def buf_take_def)
qed

text \<open>Accept queue. The children of a listener are accepted in the order of their accept pushes, each
  once, after those that were already waiting.\<close>

theorem accept_fifo:
  assumes "\<forall>p \<in> set ps. \<forall>f. frame_parse api p = Some f \<and> frame_typ api f = ascii ''accept'' \<longrightarrow> frame_id api f = None"
  shows "accept_all n l (fold (frame_event api snk) ps st) =
    take n (unwrap_or [] (rc_accepts st l) @ concat (map (accept_data api l) ps))"
  using fold_accepts [OF assms, of snk st l] by (simp add: accept_all_queue)

theorem accept_fifo_witness:
  "map ai_child_handle (accept_all 5 9 (fold (frame_event sample_api BufferingSink) [[4], [2]] (sample_client [] []))) = [10]"
proof -
  have p: "\<forall>p \<in> set [[4], [2]]. \<forall>f. frame_parse sample_api p = Some f \<and> frame_typ sample_api f = ascii ''accept'' \<longrightarrow>
      frame_id sample_api f = None"
    by (simp add: sample_api_def table_json_def frame_defs)
  have "map ai_child_handle (take 5 (concat (map (accept_data sample_api 9) [[4], [2]]))) = [10]" by code_simp
  then show ?thesis unfolding accept_fifo [OF p]
    by (simp add: sample_client_def new_client_def)
qed

text \<open>C27 (failures have an errno). Every error of a request of the client (opening a connection or a
  listener, sending, closing, sockets, binding, listening, authentication) maps to a non-zero \<^verbatim>\<open>errno\<close>.\<close>

theorem operations_fail_with_errno:
  assumes "fst (open_connect api snk local remote via st) = Inl e \<or> fst (open_listen api snk local st) = Inl e \<or>
    fst (rhp_send api snk h data st) = Inl e \<or>
    fst (rhp_sendto api snk h remote local data st) = Inl e \<or> fst (rhp_close api snk h st) = Inl e \<or>
    fst (socket_mode api snk mode st) = Inl e \<or> fst (rhp_bind api snk h local port st) = Inl e \<or>
    fst (rhp_listen api snk h st) = Inl e \<or> fst (rhp_auth api snk user pass st) = Inl e"
  shows "to_errno e \<noteq> 0"
  using assms open_connect_errno rhp_open_errno rhp_send_errno socket_mode_errno
    ignore_reply_errno [of api snk _ _ e]
  unfolding open_listen_def rhp_sendto_def rhp_close_def rhp_bind_def rhp_listen_def rhp_auth_def
  by (metis prod.collapse)

theorem operations_fail_with_errno_witness:
  "\<exists>e. fst (rhp_bind sample_api BufferingSink 42 [] None (sample_client [[6]] [1])) = Inl e \<and> to_errno e \<noteq> 0"
proof -
  have "(case fst (rhp_bind sample_api BufferingSink 42 [] None (sample_client [[6]] [1])) of Inl _ \<Rightarrow> True | Inr _ \<Rightarrow> False)"
    by code_simp
  then obtain e where "fst (rhp_bind sample_api BufferingSink 42 [] None (sample_client [[6]] [1])) = Inl e"
    by (auto split: sum.splits)
  with operations_fail_with_errno show ?thesis by blast
qed

text \<open>C40 (a close that comes too early is lost). A close push for a handle that \<^verbatim>\<open>open_connect\<close> has not
  registered yet leaves no trace in the connect registry: registered afterwards, the connect is
  Pending, and a wait without a timeout blocks until some further frame, although the link has
  already failed.\<close>

theorem early_close_lost:
  assumes "frame_typ api f = ascii ''close''" and "frame_handle api f = Some h" and "frame_id api f = None"
    and "rc_conns st h = None" and "\<not> rc_closed st"
  shows "let st1 = handle_frame api snk f st; st2 = st1\<lparr>rc_conns := set_pending h (rc_conns st1)\<rparr> in
    rc_conns st2 h = Some Pending \<and> fst (wait_connected_for api snk h False 0 st2) = None"
proof -
  let ?st1 = "handle_frame api snk f st"
  have "rc_conns ?st1 h = None" "\<not> rc_closed ?st1"
    using assms(1-5) by (auto simp: handle_frame_def dispatch_push_def push_close_def and_then_def
        mark_failed_def Let_def ascii_def)
  then show ?thesis
    by (simp add: Let_def set_pending_def conn_result_def wait_connected_for.simps)
qed

theorem early_close_lost_witness:
  "\<exists>f. frame_parse sample_api [5] = Some f \<and>
     (let st1 = handle_frame sample_api BufferingSink f (sample_client [] []) in
      rc_conns (st1\<lparr>rc_conns := set_pending 42 (rc_conns st1)\<rparr>) 42 = Some Pending)"
proof -
  obtain f where f: "frame_parse sample_api [5] = Some f" "frame_typ sample_api f = ascii ''close''"
    "frame_handle sample_api f = Some 42" "frame_id sample_api f = None"
    by (simp add: sample_api_def table_json_def frame_defs)
  have "rc_conns (sample_client [] []) 42 = None" "\<not> rc_closed (sample_client [] [])"
    by (simp_all add: sample_client_def new_client_def)
  from early_close_lost [OF f(2-4) this, of BufferingSink] f(1) show ?thesis by (auto simp: Let_def)
qed

text \<open>A request after the end. A request that starts after the reader thread has ended is not
  faulted: whatever the schedule, it waits out the full timeout.\<close>

theorem late_request_times_out:
  assumes "rc_closed st" and "chan_inv st"
    and "fst (write_frame tcp_writer bytes (rc_writer st)) = Inr ()"
  shows "fst (rhp_request api snk rid bytes st) = Inl Timeout"
proof -
  have m: "rc_mail st (rc_chans st) = None"
    using assms(2) unfolding chan_inv_def by (metis less_irrefl option.exhaust)
  obtain w where w: "write_frame tcp_writer bytes (rc_writer st) = (Inr (), w)"
    using assms(3) by (metis prod.collapse)
  let ?st2 = "st\<lparr>rc_chans := Suc (rc_chans st), rc_pending := (rc_pending st)(rid \<mapsto> rc_chans st), rc_writer := w\<rparr>"
  obtain n st3 where n: "next_wait ?st2 = (n, st3)" by fastforce
  then have "rc_closed st3" "rc_mail st3 (rc_chans st) = None" "rc_pending st3 rid = Some (rc_chans st)"
    using assms(1) m by (auto simp: next_wait_def split: list.splits)
  then have "recv_timeout api snk rid (rc_chans st) n st3 = (Inl Timeout, st3)" by (rule recv_timeout_closed)
  then show ?thesis using w n by (simp add: rhp_request_def register_request_def)
qed

theorem late_request_times_out_witness:
  "fst (rhp_request sample_api BufferingSink 1 [0] ((sample_client [[1]] [7])\<lparr>rc_closed := True\<rparr>)) = Inl Timeout"
  by (rule late_request_times_out)
     (simp_all add: sample_client_def new_client_def chan_inv_def write_frame_def tcp_writer_def
       tcp_write_all_def MAX_FRAME_def Let_def)

end
