(* ===== verification/Ipose_Addr.thy ===== *)
theory Ipose_Addr
  imports Ax25_Addr
begin

text \<open>
  \<^verbatim>\<open>crates/ax25-interpose/src/addr.rs\<close>: the preloaded library's own copy of the callsign codec and its
  access to the \<^verbatim>\<open>sockaddr\<close> buffers of the application. A buffer is the bytes it points to, a
  \<^verbatim>\<open>socklen_t\<close> a natural number; the structs have the layout of \<^verbatim>\<open>repr(C)\<close> on a little-endian
  machine (family at 0, callsign at 2, padding at 9, digipeater count at 12, digipeaters from 16).
\<close>

section \<open>Definitions\<close>

definition decode :: "byte list \<Rightarrow> rstr" where
  "decode call =
     (let s = filter (\<lambda>c. c \<noteq> 0x20) (map (\<lambda>i. shr1 (call ! i) AND 0x7F) [0..<6]); b6 = call ! 6
      in if b6 AND 0x1E \<noteq> 0 then s @ [0x2D] @ dec_digits (unat (shr1 b6 AND 0x0F)) else s)"

definition encode :: "rstr \<Rightarrow> byte list" where
  "encode call =
     (let (base, ssid) = (case split_once 0x2D call of
             Some (b, s) \<Rightarrow> (b, unwrap_or 0 (parse_u8 s) AND 0x0F)
           | None \<Rightarrow> (call, 0))
      in map (\<lambda>i. shl1 (if i < length base then to_ascii_uppercase (base ! i) else 0x20)) [0..<6] @
         [shl1 ssid AND 0x1E])"

subsection \<open>Struct layout\<close>

definition le32 :: "byte list \<Rightarrow> 32 word" where
  "le32 bs = ucast (bs ! 0) OR push_bit 8 (ucast (bs ! 1)) OR push_bit 16 (ucast (bs ! 2)) OR
     push_bit 24 (ucast (bs ! 3))"

text \<open>The fields the code reads of a \<^verbatim>\<open>sockaddr_ax25\<close> or \<^verbatim>\<open>full_sockaddr_ax25\<close> in memory.\<close>

definition mem_call :: "byte list \<Rightarrow> byte list" where
  "mem_call mem = take 7 (drop 2 mem)"

definition mem_ndigis :: "byte list \<Rightarrow> int" where
  "mem_ndigis mem = sint (le32 (take 4 (drop 12 mem)))"

definition mem_digi :: "byte list \<Rightarrow> nat \<Rightarrow> byte list" where
  "mem_digi mem i = take 7 (drop (16 + 7 * i) mem)"

definition read_call :: "byte list option \<Rightarrow> nat \<Rightarrow> rstr option" where
  "read_call addr len =
     (case addr of
        None \<Rightarrow> None
      | Some mem \<Rightarrow> if len < 2 + 7 then None else Some (decode (mem_call mem)))"

definition read_digipeaters :: "byte list option \<Rightarrow> nat \<Rightarrow> rstr list" where
  "read_digipeaters addr len =
     (case addr of
        None \<Rightarrow> []
      | Some mem \<Rightarrow>
          if len < size_of_sockaddr_ax25 then []
          else (let ndigis = nat (max (mem_ndigis mem) 0) in
            if ndigis = 0 then []
            else (let avail = len - size_of_sockaddr_ax25; max_fit = avail div 7;
                      count = min (min ndigis max_fit) AX25_MAX_DIGIS in
              if count = 0 then []
              else filter (\<lambda>s. s \<noteq> []) (map (\<lambda>i. decode (mem_digi mem i)) [0..<count]))))"

text \<open>The bytes of a \<^verbatim>\<open>SockaddrAx25\<close>, with its padding, and of a zero-initialised full one.\<close>

definition sockaddr_bytes :: "byte list \<Rightarrow> byte list \<Rightarrow> byte \<Rightarrow> byte list" where
  "sockaddr_bytes call pad nd = [3, 0] @ call @ pad @ [nd, 0, 0, 0]"

definition write_call :: "byte list \<Rightarrow> rstr \<Rightarrow> byte list option \<Rightarrow> nat option \<Rightarrow> byte list option \<times> nat option" where
  "write_call pad call addr len =
     (case (addr, len) of
        (Some mem, Some avail) \<Rightarrow>
          (let full_len = size_of_sockaddr_ax25; src = sockaddr_bytes (encode call) pad 0; n = min avail full_len
           in (Some (take n src @ drop n mem), Some full_len))
      | _ \<Rightarrow> (addr, len))"

definition write_sockname :: "rstr \<Rightarrow> byte list option \<Rightarrow> nat option \<Rightarrow> byte list option \<times> nat option" where
  "write_sockname call addr len =
     (case (addr, len) of
        (Some mem, Some avail) \<Rightarrow>
          (let src = sockaddr_bytes (encode call) [0, 0, 0] 1 @ encode call @ replicate 49 0;
               full_len = size_of_full_sockaddr_ax25; n = min avail full_len
           in (Some (take n src @ drop n mem), Some full_len))
      | _ \<Rightarrow> (addr, len))"

section \<open>The codec\<close>

lemma decode_eq_decode_entry: "decode = decode_entry"
  by (simp add: fun_eq_iff decode_def decode_entry_def Let_def)

lemma length_encode [simp]: "length (encode c) = 7"
  by (simp add: encode_def split: prod.splits)

lemma digit_value_byte: "n < 10 \<Longrightarrow> unat (word_of_nat (48 + n) :: byte) - 48 = n"
proof -
  have "\<forall>n \<in> set [0..<10]. unat (word_of_nat (48 + n) :: byte) - 48 = n" by code_simp
  then show "n < 10 \<Longrightarrow> unat (word_of_nat (48 + n) :: byte) - 48 = n" by (auto dest!: bspec)
qed

lemma digits_value_dec_digits: "digits_value (dec_digits n) = n"
proof (induction n rule: dec_digits.induct)
  case (1 n)
  show ?case
  proof (cases "n < 10")
    case True
    then show ?thesis using digit_value_byte [of n] by (subst dec_digits.simps) (simp add: digits_value_def)
  next
    case False
    then show ?thesis using "1.IH" [OF False] digit_value_byte [of "n mod 10"]
      by (subst dec_digits.simps) (simp add: digits_value_def)
  qed
qed

lemma parse_u8_dec_digits: "n < 256 \<Longrightarrow> parse_u8 (dec_digits n) = Some (word_of_nat n)"
proof -
  obtain d ds where d: "dec_digits n = d # ds" using dec_digits_digits(2) by (cases "dec_digits n") auto
  then have "d \<noteq> 0x2B" using dec_digits_digits(1) [of n] digit_not_special(3) [of d] by simp
  then show "n < 256 \<Longrightarrow> parse_u8 (dec_digits n) = Some (word_of_nat n)"
    using dec_digits_digits [of n] digits_value_dec_digits [of n] d by (simp add: parse_u8_def Let_def)
qed

lemma ssid_masked: "shl1 (word_of_nat n AND 0x0F) AND 0x1E = shl1 (word_of_nat (n mod 16))"
proof -
  have "(word_of_nat n :: byte) AND 0x0F = word_of_nat (n mod 16)"
    by (simp add: word_unat_eq_iff unat_and_0F unat_of_nat mod_mod_cancel)
  moreover have "shl1 (b AND 0x0F) AND 0x1E = shl1 (b AND 0x0F)" for b
    unfolding byte_eq_iff by (simp add: bit_simps bit_shifts del: One_nat_def; simp)
  ultimately show ?thesis by metis
qed

lemma base_no_dash: "valid_base p \<Longrightarrow> 0x2D \<notin> set p"
  by (auto simp: valid_base_def list_all_iff ascii_class_defs)

lemma shift_call_nth:
  assumes "length p \<le> 6"
  shows "map (\<lambda>i. shl1 (if i < length p then to_ascii_uppercase (p ! i) else 0x20)) [0..<6] = shift_call p"
proof (rule nth_equalityI)
  show "length (map (\<lambda>i. shl1 (if i < length p then to_ascii_uppercase (p ! i) else 0x20)) [0..<6]) = length (shift_call p)"
    using assms by (simp add: length_shift_call)
  have "shl1 0x20 = 0x40" by code_simp
  then show "map (\<lambda>i. shl1 (if i < length p then to_ascii_uppercase (p ! i) else 0x20)) [0..<6] ! i = shift_call p ! i"
    if "i < length (map (\<lambda>i. shl1 (if i < length p then to_ascii_uppercase (p ! i) else 0x20)) [0..<6])" for i
    using that assms by (simp add: shift_call_def nth_append)
qed

lemma encode_with_ssid_text:
  assumes "valid_base p" and "n < 256"
  shows "encode (p @ 0x2D # dec_digits n) = addr_of p (n mod 16)"
proof -
  have "split_once 0x2D (p @ 0x2D # dec_digits n) = Some (p, dec_digits n)"
    using base_no_dash [OF assms(1)] by (simp add: split_once_def takeWhile_append dropWhile_append2)
  then show ?thesis
    using assms shift_call_nth [of p] ssid_masked [of n]
    by (simp add: encode_def parse_u8_dec_digits addr_of_def valid_base_def)
qed

lemma encode_base:
  assumes "valid_base p"
  shows "encode p = addr_of p 0"
  using assms base_no_dash [OF assms] shift_call_nth [of p]
  by (simp add: encode_def split_once_def addr_of_def valid_base_def shl1_def)

lemma encode_canonical:
  assumes "valid_base p" and "n < 16"
  shows "encode (call_text p n) = addr_of p n"
  using assms encode_with_ssid_text [of p n] encode_base [of p] by (simp add: call_text_def)

lemma parse_u8_upper: "parse_u8 (map to_ascii_uppercase s) = parse_u8 s"
proof -
  have d: "list_all is_ascii_digit (map to_ascii_uppercase t) = list_all is_ascii_digit t"
    "list_all is_ascii_digit t \<Longrightarrow> map to_ascii_uppercase t = t" for t
    by (induction t) (simp_all add: upper_fixes)
  show ?thesis
  proof (cases "s \<noteq> [] \<and> hd s = 0x2B")
    case True
    then have "hd (map to_ascii_uppercase s) = 0x2B" by (simp add: hd_map upper_fixes)
    then show ?thesis using True d [of "tl s"] by (auto simp: parse_u8_def Let_def map_tl)
  next
    case False
    then have "\<not> (map to_ascii_uppercase s \<noteq> [] \<and> hd (map to_ascii_uppercase s) = 0x2B)"
      by (cases s) (simp_all add: upper_fixes)
    then show ?thesis using False d [of s] by (auto simp: parse_u8_def Let_def)
  qed
qed

lemma encode_upper: "encode (str_to_uppercase c) = encode c"
proof -
  have up: "(0x2D \<in> to_ascii_uppercase ` set c) = (0x2D \<in> set c)"
    by (auto simp: image_iff eq_commute [of "0x2D"])
  have tw: "takeWhile (\<lambda>b. b \<noteq> 0x2D) (map to_ascii_uppercase c) = map to_ascii_uppercase (takeWhile (\<lambda>b. b \<noteq> 0x2D) c)"
    "dropWhile (\<lambda>b. b \<noteq> 0x2D) (map to_ascii_uppercase c) = map to_ascii_uppercase (dropWhile (\<lambda>b. b \<noteq> 0x2D) c)"
    by (simp_all add: takeWhile_map dropWhile_map comp_def)
  show ?thesis
    by (simp add: encode_def split_once_def str_to_uppercase_def up tw parse_u8_upper map_tl [symmetric])
qed

interpretation ipose_codec: callsign_codec "\<lambda>c. Some (encode c)" decode
  by unfold_locales (simp_all add: encode_canonical encode_upper decode_eq_decode_entry decode_addr_of)

section \<open>Buffers\<close>

lemma mem_call_sockaddr:
  assumes "length c = 7"
  shows "mem_call ([3, 0] @ c @ rest) = c"
  using assms by (simp add: mem_call_def)

lemma write_sockname_mem:
  assumes "size_of_full_sockaddr_ax25 \<le> avail"
  shows "write_sockname call (Some mem) (Some avail) =
    (Some (sockaddr_bytes (encode call) [0, 0, 0] 1 @ encode call @ replicate 49 0 @ drop 72 mem), Some 72)"
proof -
  have "length (sockaddr_bytes (encode call) [0, 0, 0] 1 @ encode call @ replicate 49 0) = 72"
    by (simp add: sockaddr_bytes_def)
  moreover have "size_of_full_sockaddr_ax25 = 72"
    by (simp add: size_of_full_sockaddr_ax25_def size_of_sockaddr_ax25_def AX25_MAX_DIGIS_def)
  ultimately show ?thesis using assms by (simp add: write_sockname_def Let_def min_absorb2)
qed

section \<open>Properties\<close>

text \<open>C33 (the two codecs agree). On every callsign of at most six capitals and digits with SSID 0 to 15,
  the preloaded library and libax25 produce the same address, and they decode every address
  alike.\<close>

theorem codecs_agree:
  assumes "valid_base p" and "n < 16"
  shows "encode_entry (call_text p n) = Ret (Some (encode (call_text p n))) \<and>
    decode (encode (call_text p n)) = call_text p n \<and> decode a = decode_entry a"
  using assms ipose_codec.round_trip [OF assms]
  by (simp add: encode_canonical encode_call_text decode_eq_decode_entry)

theorem codecs_agree_witness:
  "encode_entry (ascii ''GB7RDG-15'') = Ret (Some (encode (ascii ''GB7RDG-15'')))"
proof -
  have "valid_base (ascii ''GB7RDG'')" by code_simp
  moreover have "call_text (ascii ''GB7RDG'') 15 = ascii ''GB7RDG-15''"
    by (simp add: call_text_def ascii_def dec_digits.simps)
  ultimately show ?thesis using codecs_agree [of "ascii ''GB7RDG''" 15] by simp
qed

text \<open>SSIDs are masked. The preloaded library accepts any SSID below 256 and keeps its low four bits;
  it neither fails nor falls back to SSID 0.\<close>

theorem encode_masks_ssid:
  assumes "valid_base p" and "n < 256" and "n mod 16 \<noteq> 0"
  shows "decode (encode (p @ 0x2D # dec_digits n)) = p @ 0x2D # dec_digits (n mod 16)"
  using assms ipose_codec.dec_canonical [of p "n mod 16"] by (simp add: encode_with_ssid_text call_text_def)

theorem encode_masks_ssid_witness: "decode (encode (ascii ''M0LTE-17'')) = ascii ''M0LTE-1''"
proof -
  have "valid_base (ascii ''M0LTE'')" by code_simp
  moreover have "ascii ''M0LTE'' @ 0x2D # dec_digits 17 = ascii ''M0LTE-17''" "ascii ''M0LTE'' @ 0x2D # dec_digits 1 = ascii ''M0LTE-1''"
    by (simp_all add: ascii_def dec_digits.simps)
  ultimately show ?thesis using encode_masks_ssid [of "ascii ''M0LTE''" 17] by simp
qed

lemma sockname_fields:
  assumes "length c = 7" and "m = sockaddr_bytes c [0, 0, 0] 1 @ c @ rest"
  shows "mem_call m = c" and "mem_ndigis m = 1" and "mem_digi m 0 = c"
proof -
  have "take 4 (drop 12 m) = [1, 0, 0, 0]" using assms by (simp add: sockaddr_bytes_def)
  moreover have "sint (le32 [1, 0, 0, 0]) = 1" by (simp add: le32_def)
  ultimately show "mem_ndigis m = 1" by (simp add: mem_ndigis_def)
qed (use assms in \<open>simp_all add: sockaddr_bytes_def mem_call_def mem_digi_def\<close>)

text \<open>Local name of an accepted socket. The buffer filled by \<^verbatim>\<open>write_sockname\<close> reads back as the local
  callsign, in the address and as the only digipeater.\<close>

theorem sockname_round_trip:
  assumes "valid_base p" and "p \<noteq> []" and "n < 16" and "size_of_full_sockaddr_ax25 \<le> avail"
    and "write_sockname (call_text p n) (Some mem) (Some avail) = (Some mem', Some len)"
  shows "read_call (Some mem') len = Some (call_text p n) \<and> read_digipeaters (Some mem') len = [call_text p n]"
proof -
  let ?c = "encode (call_text p n)"
  have m: "mem' = sockaddr_bytes ?c [0, 0, 0] 1 @ ?c @ (replicate 49 0 @ drop 72 mem)" "len = 72"
    using write_sockname_mem [OF assms(4), of "call_text p n" mem] assms(5) by simp_all
  have f: "mem_call mem' = ?c" "mem_ndigis mem' = 1" "mem_digi mem' 0 = ?c"
    unfolding m(1) by (rule sockname_fields; simp)+
  have "decode ?c = call_text p n" using ipose_codec.round_trip [OF assms(1,3)] by simp
  moreover have "call_text p n \<noteq> []" using assms(2) by (simp add: call_text_def)
  ultimately show ?thesis using f m(2)
    by (simp add: read_call_def read_digipeaters_def size_of_sockaddr_ax25_def AX25_MAX_DIGIS_def)
qed

theorem sockname_round_trip_witness:
  "read_digipeaters (fst (write_sockname (ascii ''M0LTE-2'') (Some (replicate 80 7)) (Some 80))) 72 = [ascii ''M0LTE-2'']"
proof -
  have v: "valid_base (ascii ''M0LTE'')" "ascii ''M0LTE'' \<noteq> []" by code_simp+
  have c: "call_text (ascii ''M0LTE'') 2 = ascii ''M0LTE-2''"
    by (simp add: call_text_def ascii_def dec_digits.simps)
  have s: "size_of_full_sockaddr_ax25 \<le> 80"
    by (simp add: size_of_full_sockaddr_ax25_def size_of_sockaddr_ax25_def AX25_MAX_DIGIS_def)
  obtain mem' where w: "write_sockname (ascii ''M0LTE-2'') (Some (replicate 80 7)) (Some 80) = (Some mem', Some 72)"
    using write_sockname_mem [OF s] by blast
  from sockname_round_trip [OF v _ s, of 2 "replicate 80 7" mem' 72] w c show ?thesis by simp
qed

text \<open>Writes stay in the buffer. Filling the application's buffer changes at most the announced
  \<^verbatim>\<open>*len\<close> bytes and reports the full size of the struct.\<close>

theorem writes_stay_in_buffer:
  assumes "avail \<le> length mem" and "length pad = 3"
  shows "(\<exists>m. write_call pad call (Some mem) (Some avail) = (Some m, Some size_of_sockaddr_ax25) \<and>
      length m = length mem \<and> drop avail m = drop avail mem) \<and>
    (\<exists>m. write_sockname call (Some mem) (Some avail) = (Some m, Some size_of_full_sockaddr_ax25) \<and>
      length m = length mem \<and> drop avail m = drop avail mem)"
proof -
  have fill: "length (take k src @ drop k mem) = length mem \<and> drop avail (take k src @ drop k mem) = drop avail mem"
    if "k = min avail (length src)" for k and src :: "byte list"
    using that assms(1) by (auto simp: min_def)
  have "length (sockaddr_bytes (encode call) pad 0) = size_of_sockaddr_ax25"
    "length (sockaddr_bytes (encode call) [0, 0, 0] 1 @ encode call @ replicate 49 0) = size_of_full_sockaddr_ax25"
    using assms(2) by (simp_all add: sockaddr_bytes_def size_of_sockaddr_ax25_def
        size_of_full_sockaddr_ax25_def AX25_MAX_DIGIS_def)
  then show ?thesis
    using fill [of _ "sockaddr_bytes (encode call) pad 0"]
      fill [of _ "sockaddr_bytes (encode call) [0, 0, 0] 1 @ encode call @ replicate 49 0"]
    by (simp add: write_call_def write_sockname_def Let_def)
qed

theorem writes_stay_in_buffer_witness:
  "\<exists>m. write_sockname (ascii ''M0LTE'') (Some (replicate 20 7)) (Some 9) = (Some m, Some size_of_full_sockaddr_ax25) \<and>
     drop 9 m = replicate 11 7"
proof -
  have "\<exists>m. write_sockname (ascii ''M0LTE'') (Some (replicate 20 7)) (Some 9) = (Some m, Some size_of_full_sockaddr_ax25) \<and>
      length m = length (replicate 20 (7 :: byte)) \<and> drop 9 m = drop 9 (replicate 20 7)"
    by (rule writes_stay_in_buffer [of 9 "replicate 20 7" "[0, 0, 0]", THEN conjunct2]) simp_all
  then show ?thesis by auto
qed

end
