(* ===== verification/Ipose_State.thy ===== *)
theory Ipose_State
  imports Ipose_Dgram Rhp_Client Ipose_Addr
begin

text \<open>
  The rest of \<^verbatim>\<open>crates/ax25-interpose/src/state.rs\<close>: the descriptor table, the writability gate of a
  non-blocking connect, the outbound pump, the event sink that ties the pumps to the client's
  reader thread, and the shared client.

  The process-wide statics are one record, \<open>world\<close>. What the event sink reaches (the pumps,
  the gates, the kernel) is the record \<open>shared\<close> inside it; it is the sink state of the client, so a
  client operation is run on it and gives it back (\<open>on_client\<close>). A lock that is held for the
  whole of a step has no counterpart: a step is atomic.
\<close>

section \<open>Definitions\<close>

subsection \<open>Descriptors\<close>

record fd_state =
  fs_app_fd :: int
  fs_inner_fd :: int
  fs_handle :: "u64 option"
  fs_local :: "rstr option"
  fs_remote :: "rstr option"
  fs_digis :: "rstr list"
  fs_listening :: bool
  fs_dgram :: bool
  fs_pidincl :: bool
  fs_paclen :: "32 word option"
  fs_window :: "32 word option"
  fs_t1 :: "32 word option"
  fs_t2 :: "32 word option"
  fs_t3 :: "32 word option"
  fs_n2 :: "32 word option"
  fs_extseq :: "32 word option"

text \<open>What the event sink shares with the rest of the library.\<close>

record 'k shared =
  sh_kernel :: 'k
  sh_pump :: pump_state
  sh_dgram :: dgram_state
  sh_out :: "u64 \<rightharpoonup> int"
  sh_gates :: "u64 \<rightharpoonup> int"

subsection \<open>The connect gate\<close>

definition GATE_CHUNK :: nat where "GATE_CHUNK = 1024"

fun send_until_full :: "'k kernel \<Rightarrow> nat \<Rightarrow> int \<Rightarrow> 'k \<Rightarrow> 'k" where
  "send_until_full ops 0 fd k = k"
| "send_until_full ops (Suc n) fd k =
     (case k_send ops fd (replicate GATE_CHUNK 0) k of (r, _, k') \<Rightarrow>
        if r \<le> 0 then k' else send_until_full ops n fd k')"

fun recv_until_empty :: "'k kernel \<Rightarrow> nat \<Rightarrow> int \<Rightarrow> 'k \<Rightarrow> 'k" where
  "recv_until_empty ops 0 fd k = k"
| "recv_until_empty ops (Suc n) fd k =
     (case k_recv ops fd GATE_CHUNK k of (r, _, k') \<Rightarrow>
        if r \<le> 0 then k' else recv_until_empty ops n fd k')"

definition arm_connect_gate :: "'k kernel \<Rightarrow> u64 \<Rightarrow> int \<Rightarrow> int \<Rightarrow> 'k shared \<Rightarrow> 'k shared" where
  "arm_connect_gate ops h app_fd inner_fd s =
     s\<lparr>sh_kernel := send_until_full ops (k_fuel ops) app_fd (k_set_sndbuf ops app_fd GATE_CHUNK (sh_kernel s)),
       sh_gates := (sh_gates s)(h \<mapsto> inner_fd)\<rparr>"

text \<open>\<^verbatim>\<open>OutboundPump::register\<close> keeps an existing entry.\<close>

definition out_register :: "u64 \<Rightarrow> int \<Rightarrow> (u64 \<rightharpoonup> int) \<Rightarrow> (u64 \<rightharpoonup> int)" where
  "out_register h inner_fd m = (case m h of None \<Rightarrow> m(h \<mapsto> inner_fd) | Some _ \<Rightarrow> m)"

definition out_unregister :: "u64 \<Rightarrow> (u64 \<rightharpoonup> int) \<Rightarrow> (u64 \<rightharpoonup> int)" where
  "out_unregister h m = m(h := None)"

definition resolve_connect_gate :: "'k kernel \<Rightarrow> u64 \<Rightarrow> 'k shared \<Rightarrow> 'k shared" where
  "resolve_connect_gate ops h s =
     (case sh_gates s h of
        None \<Rightarrow> s
      | Some inner \<Rightarrow>
          s\<lparr>sh_gates := (sh_gates s)(h := None),
            sh_kernel := recv_until_empty ops (k_fuel ops) inner (sh_kernel s),
            sh_out := out_register h inner (sh_out s)\<rparr>)"

subsection \<open>The event sink\<close>

text \<open>The iteration order of the maps at a disconnect is \<open>keys\<close>: it lists the elements of a predicate.\<close>

definition InterposeSink :: "'k kernel \<Rightarrow> ((u64 \<Rightarrow> bool) \<Rightarrow> u64 list) \<Rightarrow> 'k shared event_sink" where
  "InterposeSink ops keys =
     \<lparr>on_recv = (\<lambda>h data s. case pump_push ops h data (sh_pump s, sh_kernel s) of (p, k) \<Rightarrow>
          s\<lparr>sh_pump := p, sh_kernel := k\<rparr>),
      on_dgram = (\<lambda>h source dest data s.
          case dgram_push ops h \<lparr>dg_source = source, dg_data = data\<rparr> (sh_dgram s, sh_kernel s) of (d, k) \<Rightarrow>
          s\<lparr>sh_dgram := d, sh_kernel := k\<rparr>),
      on_accept = (\<lambda>l c r a s. s),
      on_status = (\<lambda>h flags s. if flags AND STATUS_CONNECTED \<noteq> 0 then resolve_connect_gate ops h s else s),
      on_close = (\<lambda>h s. let s1 = resolve_connect_gate ops h s in s1\<lparr>sh_pump := pump_mark_eof h (sh_pump s1)\<rparr>),
      on_disconnect = (\<lambda>s.
          let s1 = fold (resolve_connect_gate ops) (keys (\<lambda>h. sh_gates s h \<noteq> None)) s;
              s2 = s1\<lparr>sh_pump := pump_shutdown_all (sh_pump s1)\<rparr>
          in case dgram_shutdown_all ops (keys (\<lambda>h. sh_dgram s2 h \<noteq> None)) (sh_dgram s2, sh_kernel s2) of (d, k) \<Rightarrow>
             s2\<lparr>sh_dgram := d, sh_kernel := k\<rparr>)\<rparr>"

subsection \<open>The process\<close>

text \<open>A connection the client can make: what connecting, cloning and spawning answer, and the schedule
  of the waits on it.\<close>

record dial =
  dl_stream :: "(tcp \<times> input) io_result"
  dl_clone :: "unit io_result"
  dl_spawn :: "unit io_result"
  dl_sched :: "nat list"

text \<open>\<open>w_orphans\<close> are the connections whose client was dropped after a failed authentication and whose
  reader threads are still there.\<close>

record ('j, 'k) world =
  w_fds :: "int \<rightharpoonup> fd_state"
  w_shared :: "'k shared"
  w_client :: "('j, 'k shared) client option"
  w_orphans :: "('j, 'k shared) client list"
  w_dials :: "dial list"
  w_errno :: int

text \<open>The fixed surroundings: the JSON library, the kernel, the order of map iteration, and the
  environment variables.\<close>

record ('j, 'k) sys =
  y_api :: "'j json_api"
  y_ops :: "'k kernel"
  y_keys :: "(u64 \<Rightarrow> bool) \<Rightarrow> u64 list"
  y_src_call :: "rstr option"
  y_user :: "rstr option"
  y_pass :: "rstr option"

definition y_sink :: "('j, 'k) sys \<Rightarrow> 'k shared event_sink" where
  "y_sink sys = InterposeSink (y_ops sys) (y_keys sys)"

definition map_shared :: "('k shared \<Rightarrow> 'k shared) \<Rightarrow> ('j, 'k) world \<Rightarrow> ('j, 'k) world" where
  "map_shared f w = w\<lparr>w_shared := f (w_shared w)\<rparr>"

definition map_fd :: "int \<Rightarrow> (fd_state \<Rightarrow> fd_state) \<Rightarrow> ('j, 'k) world \<Rightarrow> ('j, 'k) world" where
  "map_fd fd f w = (case w_fds w fd of Some s \<Rightarrow> w\<lparr>w_fds := (w_fds w)(fd \<mapsto> f s)\<rparr> | None \<Rightarrow> w)"

definition on_client :: "(('j, 'k shared) client \<Rightarrow> 'a \<times> ('j, 'k shared) client) \<Rightarrow> ('j, 'k shared) client \<Rightarrow>
    ('j, 'k) world \<Rightarrow> 'a \<times> ('j, 'k shared) client \<times> ('j, 'k) world" where
  "on_client f c w =
     (case f (c\<lparr>rc_sink := w_shared w\<rparr>) of (r, c') \<Rightarrow> (r, c', w\<lparr>w_client := Some c', w_shared := rc_sink c'\<rparr>))"

text \<open>The reader thread between the steps of the application.\<close>

definition reader_turn :: "('j, 'k) sys \<Rightarrow> ('j, 'k) world \<Rightarrow> ('j, 'k) world" where
  "reader_turn sys w =
     (case w_client w of
        None \<Rightarrow> w
      | Some c \<Rightarrow> (case on_client (\<lambda>c. ((), reader_step (y_api sys) (y_sink sys) c)) c w of (_, _, w') \<Rightarrow> w'))"

text \<open>The same for a reader that was left behind. It has the sink of the process.\<close>

definition orphan_turn :: "('j, 'k) sys \<Rightarrow> nat \<Rightarrow> ('j, 'k) world \<Rightarrow> ('j, 'k) world" where
  "orphan_turn sys i w =
     (if i < length (w_orphans w)
      then (let c = reader_step (y_api sys) (y_sink sys) ((w_orphans w ! i)\<lparr>rc_sink := w_shared w\<rparr>)
            in w\<lparr>w_orphans := (w_orphans w)[i := c], w_shared := rc_sink c\<rparr>)
      else w)"

definition flusher_turn :: "('j, 'k) sys \<Rightarrow> ('j, 'k) world \<Rightarrow> ('j, 'k) world" where
  "flusher_turn sys w =
     map_shared (\<lambda>s. case drain_pass (y_ops sys) (y_keys sys (\<lambda>h. ps_handles (sh_pump s) h \<noteq> None)) (sh_pump s, sh_kernel s) of
        (_, p, k) \<Rightarrow> s\<lparr>sh_pump := p, sh_kernel := k\<rparr>) w"

definition is_ax25_fd :: "int \<Rightarrow> ('j, 'k) world \<Rightarrow> bool" where
  "is_ax25_fd fd w \<longleftrightarrow> w_fds w fd \<noteq> None"

definition is_dgram_fd :: "int \<Rightarrow> ('j, 'k) world \<Rightarrow> bool" where
  "is_dgram_fd fd w \<longleftrightarrow> unwrap_or False (map_option fs_dgram (w_fds w fd))"

definition dial_client :: "('j, 'k) sys \<Rightarrow> ('j, 'k) world \<Rightarrow> ('j, 'k shared) client option \<times> ('j, 'k) world" where
  "dial_client sys w =
     (case w_dials w of
        [] \<Rightarrow> (None, w)
      | d # ds \<Rightarrow>
          (case connect_to (y_api sys) (y_sink sys) (dl_stream d) (dl_clone d) (dl_spawn d) (y_user sys) (y_pass sys)
                  (dl_sched d) (w_shared w) of
             Inl (_, left, s) \<Rightarrow>
               (None, w\<lparr>w_dials := ds, w_shared := s, w_orphans := w_orphans w @ (case left of None \<Rightarrow> [] | Some c \<Rightarrow> [c])\<rparr>)
           | Inr c \<Rightarrow> (Some c, w\<lparr>w_dials := ds, w_client := Some c, w_shared := rc_sink c\<rparr>)))"

definition ensure_client :: "('j, 'k) sys \<Rightarrow> ('j, 'k) world \<Rightarrow> ('j, 'k shared) client option \<times> ('j, 'k) world" where
  "ensure_client sys w =
     (case w_client w of
        Some c \<Rightarrow> if \<not> rc_closed c then (Some c, w) else dial_client sys w
      | None \<Rightarrow> dial_client sys w)"

definition new_fd_state :: "int \<Rightarrow> int \<Rightarrow> bool \<Rightarrow> fd_state" where
  "new_fd_state app_fd inner_fd dgram =
     \<lparr>fs_app_fd = app_fd, fs_inner_fd = inner_fd, fs_handle = None, fs_local = None, fs_remote = None, fs_digis = [],
      fs_listening = False, fs_dgram = dgram, fs_pidincl = False, fs_paclen = None, fs_window = None, fs_t1 = None,
      fs_t2 = None, fs_t3 = None, fs_n2 = None, fs_extseq = None\<rparr>"

definition create_ax25_fd :: "('j, 'k) sys \<Rightarrow> bool \<Rightarrow> ('j, 'k) world \<Rightarrow> int option \<times> ('j, 'k) world" where
  "create_ax25_fd sys dgram w =
     (case k_socketpair (y_ops sys) (sh_kernel (w_shared w)) of
        (None, k) \<Rightarrow> (None, map_shared (sh_kernel_update (\<lambda>_. k)) w)
      | (Some (app_fd, inner_fd), k) \<Rightarrow>
          (Some app_fd, map_shared (sh_kernel_update (\<lambda>_. k))
             (w\<lparr>w_fds := (w_fds w)(app_fd \<mapsto> new_fd_state app_fd inner_fd dgram)\<rparr>)))"

definition forget_handle :: "u64 \<Rightarrow> 'k shared \<Rightarrow> 'k shared" where
  "forget_handle h s =
     s\<lparr>sh_pump := pump_unregister h (sh_pump s), sh_dgram := dgram_unregister h (sh_dgram s),
       sh_out := out_unregister h (sh_out s), sh_gates := (sh_gates s)(h := None)\<rparr>"

definition destroy_ax25_fd :: "('j, 'k) sys \<Rightarrow> int \<Rightarrow> ('j, 'k) world \<Rightarrow> ('j, 'k) world" where
  "destroy_ax25_fd sys fd w =
     (case w_fds w fd of
        None \<Rightarrow> w
      | Some s \<Rightarrow>
          map_shared (\<lambda>sh.
              let sh1 = (case fs_handle s of Some h \<Rightarrow> forget_handle h sh | None \<Rightarrow> sh) in
              sh1\<lparr>sh_kernel := k_close (y_ops sys) (fs_app_fd s) (k_close (y_ops sys) (fs_inner_fd s) (sh_kernel sh1))\<rparr>)
            (w\<lparr>w_fds := (w_fds w)(fd := None)\<rparr>))"

subsection \<open>The outbound pump\<close>

definition OUT_CHUNK :: nat where "OUT_CHUNK = 4096"

text \<open>\<^verbatim>\<open>drain_locked\<close>: what the application wrote past the interposed calls, read and sent on in pieces; the
  result of each send is ignored.\<close>

fun drain_locked :: "('j, 'k) sys \<Rightarrow> nat \<Rightarrow> u64 \<Rightarrow> int \<Rightarrow> ('j, 'k shared) client \<Rightarrow> ('j, 'k) world \<Rightarrow>
    ('j, 'k shared) client \<times> ('j, 'k) world" where
  "drain_locked sys 0 h inner_fd c w = (c, w)"
| "drain_locked sys (Suc n) h inner_fd c w =
     (case k_recv (y_ops sys) inner_fd OUT_CHUNK (sh_kernel (w_shared w)) of (r, data, k) \<Rightarrow>
      let w1 = map_shared (sh_kernel_update (\<lambda>_. k)) w in
      if r \<le> 0 then (c, w1)
      else (case on_client (rhp_send (y_api sys) (y_sink sys) h data) c w1 of (_, c2, w2) \<Rightarrow>
        drain_locked sys n h inner_fd c2 w2))"

definition out_flush :: "('j, 'k) sys \<Rightarrow> u64 \<Rightarrow> ('j, 'k shared) client \<Rightarrow> ('j, 'k) world \<Rightarrow>
    ('j, 'k shared) client \<times> ('j, 'k) world" where
  "out_flush sys h c w =
     (case sh_out (w_shared w) h of
        Some inner_fd \<Rightarrow> drain_locked sys (k_fuel (y_ops sys)) h inner_fd c w
      | None \<Rightarrow> (c, w))"

definition send_ordered :: "('j, 'k) sys \<Rightarrow> u64 \<Rightarrow> byte list \<Rightarrow> ('j, 'k shared) client \<Rightarrow> ('j, 'k) world \<Rightarrow>
    (int + unit) \<times> ('j, 'k shared) client \<times> ('j, 'k) world" where
  "send_ordered sys h data c w =
     (case out_flush sys h c w of (c1, w1) \<Rightarrow>
      case on_client (rhp_send (y_api sys) (y_sink sys) h data) c1 w1 of
        (Inl e, c2, w2) \<Rightarrow> (Inl (to_errno e), c2, w2)
      | (Inr _, c2, w2) \<Rightarrow> (Inr (), c2, w2))"

text \<open>One round of \<^verbatim>\<open>outbound_loop\<close>: \<open>ready\<close> are the handles of the snapshot whose descriptor the poll reports.\<close>

fun flush_each :: "('j, 'k) sys \<Rightarrow> u64 list \<Rightarrow> ('j, 'k shared) client \<Rightarrow> ('j, 'k) world \<Rightarrow> ('j, 'k) world" where
  "flush_each sys [] c w = w"
| "flush_each sys (h # hs) c w = (case out_flush sys h c w of (c', w') \<Rightarrow> flush_each sys hs c' w')"

definition outbound_turn :: "('j, 'k) sys \<Rightarrow> u64 list \<Rightarrow> ('j, 'k) world \<Rightarrow> ('j, 'k) world" where
  "outbound_turn sys ready w =
     (if ready = [] then w
      else (case ensure_client sys w of
          (None, w1) \<Rightarrow> w1
        | (Some c, w1) \<Rightarrow> flush_each sys ready c w1))"

subsection \<open>What is kept\<close>

text \<open>The stream of a handle as the application will read it, and the separation of the pumps: no
  descriptor carries both a stream and a datagram signal.\<close>

definition sh_stream :: "('k \<Rightarrow> int \<Rightarrow> byte list) \<Rightarrow> 'k shared \<Rightarrow> u64 \<Rightarrow> byte list" where
  "sh_stream wrote s h = recv_stream wrote (sh_pump s, sh_kernel s) h"

definition shared_ok :: "('k \<Rightarrow> int \<Rightarrow> bool) \<Rightarrow> 'k shared \<Rightarrow> bool" where
  "shared_ok shut s \<longleftrightarrow> pump_ok shut (sh_pump s, sh_kernel s) \<and>
     (\<forall>h e g d. ps_handles (sh_pump s) h = Some e \<and> sh_dgram s g = Some d \<longrightarrow> pr_inner_fd e \<noteq> de_inner_fd d)"

text \<open>The bytes on their way from the application's end of a socketpair are disturbed neither by the
  pumps, which write the other way, nor by the gates.\<close>

definition undisturbed :: "int \<Rightarrow> int \<Rightarrow> 'k shared \<Rightarrow> bool" where
  "undisturbed app inner s \<longleftrightarrow>
     (\<forall>h e. ps_handles (sh_pump s) h = Some e \<longrightarrow> pr_inner_fd e \<noteq> app) \<and>
     (\<forall>h d. sh_dgram s h = Some d \<longrightarrow> de_inner_fd d \<noteq> app) \<and> (\<forall>h. sh_gates s h \<noteq> Some inner)"

definition outgoing :: "('k \<Rightarrow> int \<Rightarrow> byte list) \<Rightarrow> ('k \<Rightarrow> int \<Rightarrow> int option) \<Rightarrow> int \<Rightarrow> int \<Rightarrow> byte list \<Rightarrow> 'k shared \<Rightarrow> bool" where
  "outgoing pipe pair app inner q s \<longleftrightarrow>
     undisturbed app inner s \<and> pair (sh_kernel s) app = Some inner \<and> pipe (sh_kernel s) app = q"

text \<open>Turns of the two background threads that deliver.\<close>

datatype turn = ReaderTurn | FlusherTurn

fun world_turn :: "('j, 'k) sys \<Rightarrow> turn \<Rightarrow> ('j, 'k) world \<Rightarrow> ('j, 'k) world" where
  "world_turn sys ReaderTurn w = reader_turn sys w"
| "world_turn sys FlusherTurn w = flusher_turn sys w"

text \<open>The frames a client has yet to read.\<close>

definition feeds :: "('j, 's) client \<Rightarrow> byte list list \<Rightarrow> io_kind option \<Rightarrow> bool" where
  "feeds c ps e \<longleftrightarrow> (if rc_closed c then ps = [] else rc_input c = \<lparr>in_bytes = concat (map frame_bytes ps), in_end = e\<rparr>)"

text \<open>The frames that carry pieces of data in order, from a request id on (reference), and an engine
  whose requests fit in a frame.\<close>

fun sends_wire :: "'j json_api \<Rightarrow> u64 \<Rightarrow> u64 \<Rightarrow> byte list list \<Rightarrow> byte list option" where
  "sends_wire api h i [] = Some []"
| "sends_wire api h i (c # cs) =
     (case to_vec api (req_fields (SendReq (ascii ''send'') i h (to_wire_string c))) of
        None \<Rightarrow> None
      | Some body \<Rightarrow> map_option (\<lambda>ws. frame_bytes body @ ws) (sends_wire api h (1 + i) cs))"

definition serialises :: "'j json_api \<Rightarrow> bool" where
  "serialises api \<longleftrightarrow> (\<forall>h i c. length c \<le> OUT_CHUNK \<longrightarrow>
     (\<exists>body. to_vec api (req_fields (SendReq (ascii ''send'') i h (to_wire_string c))) = Some body \<and> length body \<le> MAX_FRAME))"

definition ux_room :: "unix \<Rightarrow> int \<Rightarrow> nat" where
  "ux_room k fd = (case ux_pair k fd of Some p \<Rightarrow> ux_cap k fd - length (ux_queue k p) | None \<Rightarrow> 0)"

subsection \<open>Samples\<close>

text \<open>An engine with seven frame bodies; a process with one established stream, handle 42 on the
  descriptors 100 and 101, whose client has frames before it.\<close>

definition ipose_api :: "json json_api" where
  "ipose_api = table_json
     [([1], JObj [(''type'', JStr (ascii ''reply'')), (''id'', JInt 1), (''handle'', JInt 42), (''errText'', JStr (ascii ''Ok''))]),
      ([2], JObj [(''type'', JStr (ascii ''recv'')), (''handle'', JInt 42), (''data'', JStr [0x41, 0xC3, 0xBF])]),
      ([3], JObj [(''type'', JStr (ascii ''status'')), (''handle'', JInt 42), (''flags'', JInt 2)]),
      ([4], JObj [(''type'', JStr (ascii ''accept'')), (''handle'', JInt 42), (''child'', JInt 10), (''remote'', JStr (ascii ''M0ABC-2''))]),
      ([5], JObj [(''type'', JStr (ascii ''close'')), (''handle'', JInt 42)]),
      ([6], JObj [(''type'', JStr (ascii ''reply'')), (''id'', JInt 2), (''handle'', JInt 43), (''errText'', JStr (ascii ''Ok''))]),
      ([7], JObj [(''type'', JStr (ascii ''reply'')), (''id'', JInt 3), (''handle'', JInt 44), (''errText'', JStr (ascii ''Ok''))])]"

definition sample_sys :: "nat \<Rightarrow> (json, unix) sys" where
  "sample_sys fuel = \<lparr>y_api = ipose_api, y_ops = unix_kernel fuel, y_keys = (\<lambda>P. filter P [7, 10, 42, 43]),
     y_src_call = None, y_user = None, y_pass = None\<rparr>"

definition empty_shared :: "nat \<Rightarrow> unix shared" where
  "empty_shared bufsize = \<lparr>sh_kernel = empty_unix bufsize, sh_pump = new_pump, sh_dgram = Map.empty, sh_out = Map.empty, sh_gates = Map.empty\<rparr>"

definition ipose_dial :: "byte list list \<Rightarrow> nat list \<Rightarrow> dial" where
  "ipose_dial ps sched = \<lparr>dl_stream = Inr (\<lparr>tcp_sent = [], tcp_room = None\<rparr>,
       \<lparr>in_bytes = concat (map frame_bytes ps), in_end = None\<rparr>), dl_clone = Inr (), dl_spawn = Inr (), dl_sched = sched\<rparr>"

definition empty_world :: "nat \<Rightarrow> dial list \<Rightarrow> (json, unix) world" where
  "empty_world bufsize ds = \<lparr>w_fds = Map.empty, w_shared = empty_shared bufsize, w_client = None, w_orphans = [], w_dials = ds, w_errno = 0\<rparr>"

definition sample_shared :: "nat \<Rightarrow> unix shared" where
  "sample_shared bufsize = (empty_shared bufsize)\<lparr>sh_kernel := snd (ux_socketpair (empty_unix bufsize)),
     sh_pump := pump_register 42 101 new_pump, sh_out := [42 \<mapsto> 101]\<rparr>"

definition sample_conn :: "byte list list \<Rightarrow> nat list \<Rightarrow> unix shared \<Rightarrow> (json, unix shared) client" where
  "sample_conn ps sched s = new_client \<lparr>tcp_sent = [], tcp_room = None\<rparr>
     \<lparr>in_bytes = concat (map frame_bytes ps), in_end = None\<rparr> sched s"

definition sample_world :: "nat \<Rightarrow> byte list list \<Rightarrow> nat list \<Rightarrow> (json, unix) world" where
  "sample_world bufsize ps sched =
     (empty_world bufsize [])\<lparr>w_fds := [100 \<mapsto> (new_fd_state 100 101 False)\<lparr>fs_handle := Some 42\<rparr>],
       w_shared := sample_shared bufsize, w_client := Some (sample_conn ps sched (sample_shared bufsize))\<rparr>"

text \<open>Two bytes that the application wrote past the interposed calls.\<close>

definition bypassed_world :: "(json, unix) world" where
  "bypassed_world = map_shared (\<lambda>s. s\<lparr>sh_kernel := snd (snd (ux_send 100 [0x58, 0x59] (sh_kernel s)))\<rparr>) (sample_world 9 [[1], [6]] [1, 1])"

section \<open>Frames of data\<close>

lemma sends_wire_append:
  "sends_wire api h i cs = Some a \<Longrightarrow> sends_wire api h (i + of_nat (length cs)) ds = Some b \<Longrightarrow>
     sends_wire api h i (cs @ ds) = Some (a @ b)"
  by (induction cs arbitrary: i a) (auto simp: algebra_simps split: option.splits)

lemma send_chunks_wire:
  "send_chunks api snk h cs st = (Inr (), st') \<Longrightarrow>
     \<exists>ws. sends_wire api h (1 + rc_next_id st) cs = Some ws \<and> tcp_sent (rc_writer st') = tcp_sent (rc_writer st) @ ws"
proof (induction cs arbitrary: st)
  case (Cons c cs)
  obtain f st1 where c: "rhp_call api snk (\<lambda>rid. SendReq (ascii ''send'') rid h (to_wire_string c)) st = (Inr f, st1)"
    and rest: "send_chunks api snk h cs st1 = (Inr (), st')"
    using Cons.prems by (auto simp: send_chunk_def ignore_reply_def split: sum.splits prod.splits)
  obtain body where "to_vec api (req_fields (SendReq (ascii ''send'') (1 + rc_next_id st) h (to_wire_string c))) = Some body"
    "rc_next_id st1 = 1 + rc_next_id st" "tcp_sent (rc_writer st1) = tcp_sent (rc_writer st) @ frame_bytes body"
    using rhp_call_ok [OF c] by metis
  then show ?case using Cons.IH [OF rest] by auto
qed simp

text \<open>One piece reaches the wire whatever the engine answers.\<close>

lemma piece_sent:
  assumes "serialises api" and "d \<noteq> []" and "length d \<le> OUT_CHUNK" and "tcp_room (rc_writer st) = None"
  obtains body where "to_vec api (req_fields (SendReq (ascii ''send'') (1 + rc_next_id st) h (to_wire_string d))) = Some body"
    "rc_writer (snd (rhp_send api snk h d st)) = (rc_writer st)\<lparr>tcp_sent := tcp_sent (rc_writer st) @ frame_bytes body\<rparr>"
    "rc_next_id (snd (rhp_send api snk h d st)) = 1 + rc_next_id st"
proof -
  let ?mk = "\<lambda>rid. SendReq (ascii ''send'') rid h (to_wire_string d)"
  obtain body where b: "to_vec api (req_fields (?mk (1 + rc_next_id st))) = Some body" "length body \<le> MAX_FRAME"
    using assms(1,3) unfolding serialises_def by blast
  have "chunks MAX_SEND_CHUNK d = [d]"
    using assms(2,3) by (subst chunks.simps) (simp add: chunks.simps [of _ "[]"] OUT_CHUNK_def MAX_SEND_CHUNK_def)
  then have "snd (rhp_send api snk h d st) = snd (rhp_call api snk ?mk st)"
    using assms(2) by (simp add: rhp_send_def send_chunk_def ignore_reply_def prod.case_eq_if split: sum.splits)
  then show ?thesis using that [OF b(1)] rhp_call_sent [of api ?mk st body snk, OF b assms(4)] by simp
qed

section \<open>What is relied on of the kernel\<close>

text \<open>
  Besides the laws of streams and signals: a call touches the pipe of its descriptor only;
  \<open>room k fd\<close> is what \<^verbatim>\<open>send\<close> still takes at most, and a descriptor without room takes nothing; a send uses up
  as much room as it takes bytes, or more, since a kernel also accounts for its buffers; a \<^verbatim>\<open>recv\<close> gives
  the front of what is in the pipe; changing the size of a send buffer moves no data.
\<close>

locale socket_kernel = signal_kernel ops wrote shut pipe pair
  for ops :: "'k kernel" and wrote :: "'k \<Rightarrow> int \<Rightarrow> byte list" and shut :: "'k \<Rightarrow> int \<Rightarrow> bool"
    and pipe :: "'k \<Rightarrow> int \<Rightarrow> byte list" and pair :: "'k \<Rightarrow> int \<Rightarrow> int option" +
  fixes room :: "'k \<Rightarrow> int \<Rightarrow> nat"
  assumes send_frame: "k_send ops fd d k = (n, err, k') \<Longrightarrow> pair k' = pair k \<and> (g \<noteq> fd \<longrightarrow> pipe k' g = pipe k g)"
    and send_takes: "k_send ops fd d k = (n, err, k') \<Longrightarrow> pair k fd = Some a \<Longrightarrow> \<not> shut k fd \<Longrightarrow> d \<noteq> [] \<Longrightarrow>
      (0 < n \<longleftrightarrow> 0 < room k fd) \<and> nat n \<le> room k fd \<and> room k' fd \<le> room k fd - nat n"
    and recv_frame: "k_recv ops a m k = (n, d, k') \<Longrightarrow>
      pair k' = pair k \<and> shut k' = shut k \<and> wrote k' = wrote k \<and> (pair k g \<noteq> Some a \<longrightarrow> pipe k' g = pipe k g)"
    and recv_gives: "k_recv ops a m k = (n, d, k') \<Longrightarrow> pair k fd = Some a \<Longrightarrow> 0 < m \<Longrightarrow>
      (0 < n \<longleftrightarrow> pipe k fd \<noteq> []) \<and> (0 < n \<longrightarrow> d = take m (pipe k fd))"
    and sndbuf_frame: "pair k fd = Some a \<Longrightarrow> 0 < m \<Longrightarrow> pair (k_set_sndbuf ops fd m k) = pair k \<and>
      pipe (k_set_sndbuf ops fd m k) = pipe k \<and> shut (k_set_sndbuf ops fd m k) = shut k"
begin

subsection \<open>The gate\<close>

lemma fill_pipe:
  assumes "pair k fd = Some a" and "\<not> shut k fd" and "room k fd \<le> n"
  shows "room (send_until_full ops n fd k) fd = 0 \<and> pair (send_until_full ops n fd k) = pair k \<and>
    shut (send_until_full ops n fd k) = shut k \<and>
    length (pipe (send_until_full ops n fd k) fd) \<le> length (pipe k fd) + room k fd \<and>
    (\<forall>g. g \<noteq> fd \<longrightarrow> pipe (send_until_full ops n fd k) g = pipe k g)"
  using assms
proof (induction n arbitrary: k)
  case (Suc n)
  obtain r err k1 where s: "k_send ops fd (replicate GATE_CHUNK 0) k = (r, err, k1)" using prod_cases3 by blast
  have ne: "replicate GATE_CHUNK (0 :: byte) \<noteq> []" by (simp add: GATE_CHUNK_def)
  note t = send_takes [OF s Suc.prems(1,2) ne] and p = send_pipe [OF Suc.prems(1) s] and h = send_shut [OF s] and l = send_len [OF s]
  show ?case
  proof (cases "r \<le> 0")
    case True
    then show ?thesis using s t p h by simp
  next
    case False
    have "room k1 fd \<le> n" "pair k1 fd = Some a" "\<not> shut k1 fd" using Suc.prems t p h False by auto
    note ih = Suc.IH [OF this(2,3,1)]
    have "length (pipe k1 fd) + room k1 fd \<le> length (pipe k fd) + room k fd"
      using p t l False by auto
    then show ?thesis using s False ih p h by simp
  qed
qed simp

lemma drain_pipe:
  assumes "pair k fd = Some a" and "length (pipe k fd) \<le> n"
  shows "pipe (recv_until_empty ops n a k) = (pipe k)(fd := []) \<and> pair (recv_until_empty ops n a k) = pair k \<and>
    shut (recv_until_empty ops n a k) = shut k"
  using assms
proof (induction n arbitrary: k)
  case 0
  then show ?case by (simp add: fun_upd_idem)
next
  case (Suc n)
  obtain r d k1 where s: "k_recv ops a GATE_CHUNK k = (r, d, k1)" using prod_cases3 by blast
  have c: "0 < GATE_CHUNK" by (simp add: GATE_CHUNK_def)
  note g = recv_gives [OF s Suc.prems(1) c] and p = recv_pipe [OF Suc.prems(1) s]
  show ?case
  proof (cases "r \<le> 0")
    case True
    then show ?thesis using s g p by (auto simp: fun_upd_idem)
  next
    case False
    then have "length (pipe k1 fd) \<le> n" "pair k1 fd = Some a" using g p Suc.prems c by auto
    note ih = Suc.IH [OF this(2,1)]
    have "(pipe k1)(fd := []) = (pipe k)(fd := [])" using p by simp
    then show ?thesis using s p False ih by (simp only: recv_until_empty.simps) simp
  qed
qed

lemma drain_any: "wrote (recv_until_empty ops n a k) = wrote k \<and> shut (recv_until_empty ops n a k) = shut k \<and>
    pair (recv_until_empty ops n a k) = pair k \<and> (pair k g \<noteq> Some a \<longrightarrow> pipe (recv_until_empty ops n a k) g = pipe k g)"
proof (induction n arbitrary: k)
  case (Suc n)
  obtain r d k1 where s: "k_recv ops a GATE_CHUNK k = (r, d, k1)" using prod_cases3 by blast
  from recv_frame [OF s, of g] Suc [of k1] s show ?case by simp
qed simp

subsection \<open>The sink\<close>

text \<open>What a callback, or a turn of the flusher, does to the streams: each live handle's grows by \<open>f\<close>.\<close>

definition sink_effect :: "(u64 \<Rightarrow> byte list) \<Rightarrow> 'k shared \<Rightarrow> 'k shared \<Rightarrow> bool" where
  "sink_effect f s s' \<longleftrightarrow> shared_ok shut s \<longrightarrow> shared_ok shut s' \<and>
     (\<forall>g. ps_handles (sh_pump s') g \<noteq> None \<longrightarrow> ps_handles (sh_pump s) g \<noteq> None \<and>
        sh_stream wrote s' g = sh_stream wrote s g @ f g)"

lemma sink_refl [simp]: "sink_effect (\<lambda>g. []) s s"
  by (simp add: sink_effect_def)

lemma sink_trans: "sink_effect f s s1 \<Longrightarrow> sink_effect f' s1 s2 \<Longrightarrow> sink_effect (\<lambda>g. f g @ f' g) s s2"
  by (auto simp: sink_effect_def)

text \<open>A step of the pump alone.\<close>

definition same_inner :: "pump_state \<Rightarrow> pump_state \<Rightarrow> bool" where
  "same_inner st st' \<longleftrightarrow> (\<forall>g e'. ps_handles st' g = Some e' \<longrightarrow> (\<exists>e. ps_handles st g = Some e \<and> pr_inner_fd e = pr_inner_fd e'))"

lemma same_inner_refl [simp]: "same_inner st st"
  by (simp add: same_inner_def)

lemma same_inner_trans: "same_inner a b \<Longrightarrow> same_inner b c \<Longrightarrow> same_inner a c"
  unfolding same_inner_def by metis

lemma push_inner: "same_inner st (fst (pump_push ops h d (st, k)))"
  by (auto simp: same_inner_def pump_push_def stage_early_def Let_def
      split: option.splits prod.splits if_splits write_outcome.splits)

lemma drain_inner: "same_inner (fst s) (fst (snd (drain_pass ops hs s)))"
proof (induction hs arbitrary: s)
  case (Cons h hs)
  have e: "same_inner (fst s) (fst (snd (drain_entry ops h s)))"
    by (auto simp: same_inner_def drain_entry_def Let_def split: option.splits prod.splits if_splits)
  show ?case using same_inner_trans [OF e Cons] by (simp add: prod.case_eq_if)
qed simp

lemma pump_sink_effect:
  assumes "pump_effect f (sh_pump s, sh_kernel s) (p, k)" and "same_inner (sh_pump s) p"
  shows "sink_effect f s (s\<lparr>sh_pump := p, sh_kernel := k\<rparr>)"
  using assms unfolding sink_effect_def shared_ok_def sh_stream_def pump_effect_def same_inner_def
  by (simp, metis)

text \<open>A step that leaves the pump and the descriptors of its streams alone.\<close>

lemma quiet_effect:
  assumes "sh_pump s' = sh_pump s"
    and "\<And>g d'. sh_dgram s' g = Some d' \<Longrightarrow> \<exists>d. sh_dgram s g = Some d \<and> de_inner_fd d = de_inner_fd d'"
    and "\<And>g e. shared_ok shut s \<Longrightarrow> ps_handles (sh_pump s) g = Some e \<Longrightarrow>
      wrote (sh_kernel s') (pr_inner_fd e) = wrote (sh_kernel s) (pr_inner_fd e) \<and>
      shut (sh_kernel s') (pr_inner_fd e) = shut (sh_kernel s) (pr_inner_fd e)"
  shows "sink_effect (\<lambda>g. []) s s'"
proof -
  have "shared_ok shut s' \<and> sh_stream wrote s' g = sh_stream wrote s g" if "shared_ok shut s" for g
  proof
    show "sh_stream wrote s' g = sh_stream wrote s g"
      using assms(1) assms(3) [OF that] by (auto simp: sh_stream_def recv_stream_def split: option.splits)
    show "shared_ok shut s'"
      using that assms(1,2) assms(3) [OF that] unfolding shared_ok_def pump_ok_def by (simp, metis)
  qed
  then show ?thesis using assms(1) by (auto simp: sink_effect_def)
qed

lemma resolve_effect: "sink_effect (\<lambda>g. []) s (resolve_connect_gate ops h s)"
  using drain_any by (auto intro!: quiet_effect simp: resolve_connect_gate_def split: option.splits)

lemma raise_other:
  assumes "dgram_raise ops e k = (e', k')"
  shows "de_inner_fd e' = de_inner_fd e" and "shut k' = shut k" and "g \<noteq> de_inner_fd e \<Longrightarrow> wrote k' g = wrote k g"
    and "pair k' = pair k" and "g \<noteq> de_inner_fd e \<Longrightarrow> pipe k' g = pipe k g"
  using assms send_wrote [of "de_inner_fd e" "[0]" k] send_shut [of "de_inner_fd e" "[0]" k] send_frame [of "de_inner_fd e" "[0]" k]
  by (auto simp: dgram_raise_def split: if_splits prod.splits)

lemma raise_effect:
  assumes "sh_dgram s h = Some e" and "de_inner_fd e1 = de_inner_fd e" and "dgram_raise ops e1 (sh_kernel s) = (e', k')"
  shows "sink_effect (\<lambda>g. []) s (s\<lparr>sh_dgram := (sh_dgram s)(h \<mapsto> e'), sh_kernel := k'\<rparr>)"
proof (rule quiet_effect)
  fix g f assume "shared_ok shut s" "ps_handles (sh_pump s) g = Some f"
  then have "pr_inner_fd f \<noteq> de_inner_fd e1" using assms(1,2) unfolding shared_ok_def by metis
  then show "wrote (sh_kernel (s\<lparr>sh_dgram := (sh_dgram s)(h \<mapsto> e'), sh_kernel := k'\<rparr>)) (pr_inner_fd f) = wrote (sh_kernel s) (pr_inner_fd f) \<and>
      shut (sh_kernel (s\<lparr>sh_dgram := (sh_dgram s)(h \<mapsto> e'), sh_kernel := k'\<rparr>)) (pr_inner_fd f) = shut (sh_kernel s) (pr_inner_fd f)"
    using raise_other [OF assms(3)] by simp
qed (use assms(1,2) raise_other(1) [OF assms(3)] in \<open>auto split: if_splits\<close>)

lemma dgram_push_effect:
  assumes "dgram_push ops h dg (sh_dgram s, sh_kernel s) = (d, k)"
  shows "sink_effect (\<lambda>g. []) s (s\<lparr>sh_dgram := d, sh_kernel := k\<rparr>)"
proof (cases "sh_dgram s h")
  case None
  then show ?thesis using assms by (auto simp: dgram_push_def)
next
  case (Some e)
  show ?thesis
  proof (cases "length (de_queue e) \<ge> DGRAM_QUEUE_CAP")
    case True
    then show ?thesis using assms Some by (auto simp: dgram_push_def)
  next
    case False
    obtain e' k' where r: "dgram_raise ops (e\<lparr>de_queue := de_queue e @ [dg]\<rparr>) (sh_kernel s) = (e', k')"
      by (cases "dgram_raise ops (e\<lparr>de_queue := de_queue e @ [dg]\<rparr>) (sh_kernel s)")
    from raise_effect [OF Some _ r] show ?thesis using assms Some False r by (auto simp: dgram_push_def)
  qed
qed

lemma dgram_shutdown_effect:
  "sink_effect (\<lambda>g. []) s (case dgram_shutdown_all ops hs (sh_dgram s, sh_kernel s) of (d, k) \<Rightarrow> s\<lparr>sh_dgram := d, sh_kernel := k\<rparr>)"
proof (induction hs arbitrary: s)
  case (Cons h hs)
  show ?case
  proof (cases "sh_dgram s h")
    case None
    then show ?thesis using Cons by simp
  next
    case (Some e)
    obtain e' k' where r: "dgram_raise ops (e\<lparr>de_eof := True\<rparr>) (sh_kernel s) = (e', k')"
      by (cases "dgram_raise ops (e\<lparr>de_eof := True\<rparr>) (sh_kernel s)")
    have eq: "dgram_shutdown_all ops (h # hs) (sh_dgram s, sh_kernel s) = dgram_shutdown_all ops hs ((sh_dgram s)(h \<mapsto> e'), k')"
      using Some r by simp
    from sink_trans [OF raise_effect [OF Some _ r] Cons] show ?thesis unfolding eq by (simp add: prod.case_eq_if fun_upd_def)
  qed
qed simp

lemma fold_resolve_effect: "sink_effect (\<lambda>g. []) s (fold (resolve_connect_gate ops) hs s)"
proof (induction hs arbitrary: s)
  case (Cons h hs)
  from sink_trans [OF resolve_effect Cons] show ?case by simp
qed simp

lemma callback_effects:
  "sink_effect (\<lambda>g. if g = h then d else []) s (on_recv (InterposeSink ops keys) h d s)"
  "sink_effect (\<lambda>g. []) s (on_dgram (InterposeSink ops keys) h a b d s)"
  "sink_effect (\<lambda>g. []) s (on_accept (InterposeSink ops keys) l c r a s)"
  "sink_effect (\<lambda>g. []) s (on_status (InterposeSink ops keys) h fl s)"
  "sink_effect (\<lambda>g. []) s (on_close (InterposeSink ops keys) h s)"
  "sink_effect (\<lambda>g. []) s (on_disconnect (InterposeSink ops keys) s)"
proof -
  have eof: "sink_effect (\<lambda>g. []) s (s\<lparr>sh_pump := pump_mark_eof h (sh_pump s)\<rparr>)" for h s
    using pump_sink_effect [OF mark_eof_effect, of s h]
    by (auto simp: same_inner_def pump_mark_eof_def split: option.splits if_splits)
  have all: "sink_effect (\<lambda>g. []) s (s\<lparr>sh_pump := pump_shutdown_all (sh_pump s)\<rparr>)" for s
  proof -
    have "same_inner (sh_pump s) (pump_shutdown_all (sh_pump s))" by (auto simp: same_inner_def pump_shutdown_all_def)
    from pump_sink_effect [OF shutdown_all_effect this] show ?thesis by simp
  qed
  show "sink_effect (\<lambda>g. if g = h then d else []) s (on_recv (InterposeSink ops keys) h d s)"
  proof -
    obtain p k where p: "pump_push ops h d (sh_pump s, sh_kernel s) = (p, k)" by (cases "pump_push ops h d (sh_pump s, sh_kernel s)")
    from pump_sink_effect [of _ s p k] push_effect [of h d "sh_pump s" "sh_kernel s"] push_inner [of "sh_pump s" h d "sh_kernel s"] p
    show ?thesis by (simp add: InterposeSink_def)
  qed
  show "sink_effect (\<lambda>g. []) s (on_dgram (InterposeSink ops keys) h a b d s)"
    using dgram_push_effect by (simp add: InterposeSink_def split: prod.splits)
  show "sink_effect (\<lambda>g. []) s (on_accept (InterposeSink ops keys) l c r a s)"
    by (simp add: InterposeSink_def)
  show "sink_effect (\<lambda>g. []) s (on_status (InterposeSink ops keys) h fl s)"
    by (simp add: InterposeSink_def resolve_effect)
  show "sink_effect (\<lambda>g. []) s (on_close (InterposeSink ops keys) h s)"
    using sink_trans [OF resolve_effect eof] by (simp add: InterposeSink_def Let_def)
  show "sink_effect (\<lambda>g. []) s (on_disconnect (InterposeSink ops keys) s)"
    using sink_trans [OF sink_trans [OF fold_resolve_effect all] dgram_shutdown_effect]
    by (simp add: InterposeSink_def Let_def prod.case_eq_if)
qed

text \<open>Every frame extends the streams by what it carries.\<close>

lemma frame_effect:
  assumes "\<And>f. frame_parse api p = Some f \<Longrightarrow> frame_typ api f = ascii ''recv'' \<Longrightarrow> frame_id api f = None"
  shows "sink_effect (\<lambda>g. stream_data api g p) (rc_sink st) (rc_sink (frame_event api (InterposeSink ops keys) p st))"
proof (cases "frame_parse api p")
  case None
  then show ?thesis by (simp add: frame_event_def stream_data_def)
next
  case (Some f)
  show ?thesis
  proof (cases "frame_typ api f = ascii ''recv''")
    case True
    then have "frame_id api f = None" using assms Some by blast
    then have ev: "frame_event api (InterposeSink ops keys) p st = push_recv api (InterposeSink ops keys) f st"
      using Some True by (simp add: frame_event_def handle_frame_def dispatch_push_def and_then_def)
    show ?thesis
    proof (cases "frame_handle api f")
      case None
      then show ?thesis using ev Some by (simp add: push_recv_def stream_data_def)
    next
      case h: (Some h)
      let ?d = "unwrap_or [] (map_option from_wire_string (frame_data_str api f))"
      have "(\<lambda>g. stream_data api g p) = (\<lambda>g. if g = h then (if frame_is_dgram_recv api f then [] else ?d) else [])"
        using Some True h by (auto simp: stream_data_def)
      then show ?thesis using ev h callback_effects(1) [of h ?d "rc_sink st" keys] callback_effects(2) [of "rc_sink st" keys h]
        by (cases "frame_is_dgram_recv api f") (simp_all add: push_recv_def Let_def cong: if_cong)
    qed
  next
    case False
    then have "(\<lambda>g. stream_data api g p) = (\<lambda>g. [])" using Some by (simp add: stream_data_def)
    then show ?thesis using Some False
      by (simp add: frame_event_def handle_frame_def dispatch_push_def push_accept_def push_status_def push_close_def
          callback_effects Let_def split: option.splits)
  qed
qed

text \<open>A turn of a thread takes at most one frame.\<close>

lemma turn_effect:
  assumes "y_ops sys = ops" and "w_client w = Some c" and "feeds c ps e" and "list_all (\<lambda>p. length p \<le> MAX_FRAME) ps"
    and "\<forall>p \<in> set ps. \<forall>f. frame_parse (y_api sys) p = Some f \<and> frame_typ (y_api sys) f = ascii ''recv'' \<longrightarrow> frame_id (y_api sys) f = None"
    and "n = (if t = ReaderTurn then 1 else 0)"
  shows "sink_effect (\<lambda>g. concat (map (stream_data (y_api sys) g) (take n ps))) (w_shared w) (w_shared (world_turn sys t w)) \<and>
    (\<exists>c'. w_client (world_turn sys t w) = Some c' \<and> feeds c' (drop n ps) e)"
proof (cases t)
  case FlusherTurn
  let ?s = "w_shared w"
  let ?d = "drain_pass ops (y_keys sys (\<lambda>h. ps_handles (sh_pump ?s) h \<noteq> None)) (sh_pump ?s, sh_kernel ?s)"
  have "sink_effect (\<lambda>g. []) ?s (?s\<lparr>sh_pump := fst (snd ?d), sh_kernel := snd (snd ?d)\<rparr>)"
    using drain_pass_effect [of "(sh_pump ?s, sh_kernel ?s)" "y_keys sys (\<lambda>h. ps_handles (sh_pump ?s) h \<noteq> None)"]
      drain_inner [of "(sh_pump ?s, sh_kernel ?s)"] by (intro pump_sink_effect) simp_all
  then show ?thesis using FlusherTurn assms by (simp add: flusher_turn_def map_shared_def prod.case_eq_if)
next
  case ReaderTurn
  let ?c = "c\<lparr>rc_sink := w_shared w\<rparr>" and ?snk = "InterposeSink ops (y_keys sys)"
  have w': "w_shared (world_turn sys t w) = rc_sink (reader_step (y_api sys) ?snk ?c)"
    "w_client (world_turn sys t w) = Some (reader_step (y_api sys) ?snk ?c)"
    using ReaderTurn assms(1,2) by (simp_all add: reader_turn_def on_client_def y_sink_def)
  consider (closed) "rc_closed c" "ps = []" | (finished) "\<not> rc_closed c" "ps = []" | (frame) p qs where "\<not> rc_closed c" "ps = p # qs"
    by (cases ps) (use assms(3) in \<open>auto simp: feeds_def split: if_splits\<close>)
  then show ?thesis
  proof cases
    case closed
    then show ?thesis using w' by (simp add: reader_step_def feeds_def)
  next
    case finished
    then obtain r where r: "reader_step (y_api sys) ?snk ?c = reader_exit ?snk (?c\<lparr>rc_input := r\<rparr>)"
      using reader_step_end [of ?c e "y_api sys" ?snk] assms(3) by (auto simp: feeds_def)
    then show ?thesis using w' finished callback_effects(6) [of "w_shared w" "y_keys sys"] by (simp add: reader_exit_def feeds_def)
  next
    case frame
    have r: "reader_step (y_api sys) ?snk ?c = (frame_event (y_api sys) ?snk p ?c)\<lparr>rc_input := \<lparr>in_bytes = concat (map frame_bytes qs), in_end = e\<rparr>\<rparr>"
      using frame assms(3,4) by (intro reader_step_frame) (auto simp: feeds_def)
    have "sink_effect (\<lambda>g. stream_data (y_api sys) g p) (w_shared w) (rc_sink (frame_event (y_api sys) ?snk p ?c))"
      using frame_effect [of "y_api sys" p ?c "y_keys sys"] assms(5) frame by simp
    then show ?thesis using w' r frame assms(6) ReaderTurn by (simp add: feeds_def frame_event_open)
  qed
qed

lemma turns_effect:
  assumes "y_ops sys = ops" and "w_client w = Some c" and "feeds c ps e" and "list_all (\<lambda>p. length p \<le> MAX_FRAME) ps"
    and "\<forall>p \<in> set ps. \<forall>f. frame_parse (y_api sys) p = Some f \<and> frame_typ (y_api sys) f = ascii ''recv'' \<longrightarrow> frame_id (y_api sys) f = None"
  shows "sink_effect (\<lambda>g. concat (map (stream_data (y_api sys) g) (take (count_list ts ReaderTurn) ps)))
    (w_shared w) (w_shared (fold (world_turn sys) ts w))"
  using assms(2-5)
proof (induction ts arbitrary: w c ps)
  case (Cons t ts)
  let ?n = "if t = ReaderTurn then 1 else 0 :: nat"
  obtain c' where t: "sink_effect (\<lambda>g. concat (map (stream_data (y_api sys) g) (take ?n ps))) (w_shared w) (w_shared (world_turn sys t w))"
    "w_client (world_turn sys t w) = Some c'" "feeds c' (drop ?n ps) e"
    using turn_effect [OF assms(1) Cons.prems refl] by blast
  have "list_all (\<lambda>p. length p \<le> MAX_FRAME) (drop ?n ps)"
    "\<forall>p \<in> set (drop ?n ps). \<forall>f. frame_parse (y_api sys) p = Some f \<and> frame_typ (y_api sys) f = ascii ''recv'' \<longrightarrow> frame_id (y_api sys) f = None"
    using Cons.prems(3,4) by (auto simp: list_all_iff dest: in_set_dropD)
  note ih = sink_trans [OF t(1) Cons.IH [OF t(2,3) this]]
  let ?d = "\<lambda>g. stream_data (y_api sys) g"
  have "take ?n ps @ take m (drop ?n ps) = take (m + ?n) ps" for m by (cases ps) auto
  then have "concat (map (?d g) (take ?n ps)) @ concat (map (?d g) (take m (drop ?n ps))) = concat (map (?d g) (take (m + ?n) ps))" for m g
    by (metis concat_append map_append)
  then show ?case using ih by (simp only: fold_simps comp_apply) (simp split: if_splits)
qed simp

subsection \<open>What the application wrote\<close>

lemma nb_write_pipe:
  assumes "nb_write ops fd d k = (r, k')"
  shows "pair k' = pair k" and "g \<noteq> fd \<Longrightarrow> pipe k' g = pipe k g"
  using assms send_frame [of fd d k] by (auto simp: nb_write_def split: prod.splits if_splits)

lemma push_outgoing:
  assumes "outgoing pipe pair app inner q s" and "pump_push ops h d (sh_pump s, sh_kernel s) = (p, k)"
  shows "outgoing pipe pair app inner q (s\<lparr>sh_pump := p, sh_kernel := k\<rparr>)"
proof -
  have "pair k = pair (sh_kernel s) \<and> pipe k app = pipe (sh_kernel s) app"
  proof (cases "ps_handles (sh_pump s) h")
    case None
    then show ?thesis using assms(2) by (auto simp: pump_push_def split: if_splits)
  next
    case (Some e)
    then have "app \<noteq> pr_inner_fd e" using assms(1) unfolding outgoing_def undisturbed_def by blast
    then show ?thesis using Some assms(2) nb_write_pipe [of "pr_inner_fd e" d "sh_kernel s"]
      by (auto simp: pump_push_def split: if_splits prod.splits write_outcome.splits)
  qed
  moreover have "same_inner (sh_pump s) p" using push_inner [of "sh_pump s" h d "sh_kernel s"] assms(2) by simp
  ultimately show ?thesis using assms(1) unfolding outgoing_def undisturbed_def same_inner_def by (simp, metis)
qed

lemma resolve_outgoing:
  assumes "outgoing pipe pair app inner q s"
  shows "outgoing pipe pair app inner q (resolve_connect_gate ops h s)"
proof (cases "sh_gates s h")
  case (Some i)
  then have "i \<noteq> inner" using assms unfolding outgoing_def undisturbed_def by blast
  then show ?thesis using assms Some drain_any [of "k_fuel ops" i "sh_kernel s" app]
    by (simp add: outgoing_def undisturbed_def resolve_connect_gate_def)
qed (use assms in \<open>simp add: resolve_connect_gate_def\<close>)

lemma raise_outgoing:
  assumes "outgoing pipe pair app inner q s" and "sh_dgram s h = Some e" and "de_inner_fd e1 = de_inner_fd e"
    and "dgram_raise ops e1 (sh_kernel s) = (e', k')"
  shows "outgoing pipe pair app inner q (s\<lparr>sh_dgram := (sh_dgram s)(h \<mapsto> e'), sh_kernel := k'\<rparr>)"
proof -
  have "de_inner_fd e1 \<noteq> app" using assms(1-3) unfolding outgoing_def undisturbed_def by metis
  then show ?thesis using assms raise_other(1,4) [OF assms(4)] raise_other(5) [OF assms(4), of app] by (auto simp: outgoing_def undisturbed_def)
qed

lemma dgram_push_outgoing:
  assumes "outgoing pipe pair app inner q s" and "dgram_push ops h dg (sh_dgram s, sh_kernel s) = (d, k)"
  shows "outgoing pipe pair app inner q (s\<lparr>sh_dgram := d, sh_kernel := k\<rparr>)"
proof (cases "sh_dgram s h")
  case (Some e)
  obtain e' k' where r: "dgram_raise ops (e\<lparr>de_queue := de_queue e @ [dg]\<rparr>) (sh_kernel s) = (e', k')"
    by (cases "dgram_raise ops (e\<lparr>de_queue := de_queue e @ [dg]\<rparr>) (sh_kernel s)")
  from raise_outgoing [OF assms(1) Some _ r] show ?thesis using assms Some r
    by (cases "length (de_queue e) \<ge> DGRAM_QUEUE_CAP") (auto simp: dgram_push_def)
qed (use assms in \<open>auto simp: dgram_push_def\<close>)

lemma shutdown_outgoing:
  "outgoing pipe pair app inner q s \<Longrightarrow> outgoing pipe pair app inner q
     (s\<lparr>sh_dgram := fst (dgram_shutdown_all ops hs (sh_dgram s, sh_kernel s)),
        sh_kernel := snd (dgram_shutdown_all ops hs (sh_dgram s, sh_kernel s))\<rparr>)"
proof (induction hs arbitrary: s)
  case (Cons h hs)
  show ?case
  proof (cases "sh_dgram s h")
    case None
    then show ?thesis using Cons by simp
  next
    case (Some e)
    obtain e' k' where r: "dgram_raise ops (e\<lparr>de_eof := True\<rparr>) (sh_kernel s) = (e', k')"
      by (cases "dgram_raise ops (e\<lparr>de_eof := True\<rparr>) (sh_kernel s)")
    have eq: "dgram_shutdown_all ops (h # hs) (sh_dgram s, sh_kernel s) = dgram_shutdown_all ops hs ((sh_dgram s)(h \<mapsto> e'), k')"
      using Some r by simp
    from Cons.IH [OF raise_outgoing [OF Cons.prems Some _ r]] show ?thesis unfolding eq by (simp add: fun_upd_def)
  qed
qed simp

lemma eof_outgoing:
  "outgoing pipe pair app inner q s \<Longrightarrow> same_inner (sh_pump s) p \<Longrightarrow> outgoing pipe pair app inner q (s\<lparr>sh_pump := p\<rparr>)"
  unfolding outgoing_def undisturbed_def same_inner_def by (simp, metis)

lemma fold_resolve_outgoing:
  "outgoing pipe pair app inner q s \<Longrightarrow> outgoing pipe pair app inner q (fold (resolve_connect_gate ops) hs s)"
  by (induction hs arbitrary: s) (simp_all add: resolve_outgoing)

lemma outgoing_callbacks:
  assumes "outgoing pipe pair app inner q s"
  shows "outgoing pipe pair app inner q (on_recv (InterposeSink ops keys) h d s)"
    and "outgoing pipe pair app inner q (on_dgram (InterposeSink ops keys) h a b d s)"
    and "outgoing pipe pair app inner q (on_accept (InterposeSink ops keys) l c r a s)"
    and "outgoing pipe pair app inner q (on_status (InterposeSink ops keys) h fl s)"
    and "outgoing pipe pair app inner q (on_close (InterposeSink ops keys) h s)"
    and "outgoing pipe pair app inner q (on_disconnect (InterposeSink ops keys) s)"
proof -
  have eof: "same_inner p (pump_mark_eof h p)" "same_inner p (pump_shutdown_all p)" for p h
    by (auto simp: same_inner_def pump_mark_eof_def pump_shutdown_all_def split: option.splits if_splits)
  show "outgoing pipe pair app inner q (on_recv (InterposeSink ops keys) h d s)"
    using push_outgoing [OF assms] by (simp add: InterposeSink_def split: prod.splits)
  show "outgoing pipe pair app inner q (on_dgram (InterposeSink ops keys) h a b d s)"
    using dgram_push_outgoing [OF assms] by (simp add: InterposeSink_def split: prod.splits)
  show "outgoing pipe pair app inner q (on_accept (InterposeSink ops keys) l c r a s)"
    using assms by (simp add: InterposeSink_def)
  show "outgoing pipe pair app inner q (on_status (InterposeSink ops keys) h fl s)"
    using assms resolve_outgoing by (simp add: InterposeSink_def)
  show "outgoing pipe pair app inner q (on_close (InterposeSink ops keys) h s)"
    using eof_outgoing [OF resolve_outgoing [OF assms] eof(1)] by (simp add: InterposeSink_def Let_def)
  show "outgoing pipe pair app inner q (on_disconnect (InterposeSink ops keys) s)"
    using shutdown_outgoing [OF eof_outgoing [OF fold_resolve_outgoing [OF assms] eof(2)]]
    by (simp add: InterposeSink_def Let_def prod.case_eq_if)
qed

end

sublocale socket_kernel \<subseteq> outgoing: sink_inv "InterposeSink ops keys" "outgoing pipe pair app inner q" for keys app inner q
  by unfold_locales (rule outgoing_callbacks, assumption)+

sublocale socket_kernel \<subseteq> separated: sink_inv "InterposeSink ops keys" "shared_ok shut" for keys
  by unfold_locales (metis callback_effects sink_effect_def)+

context socket_kernel
begin

lemma send_outgoing:
  "outgoing pipe pair app inner q (rc_sink st) \<Longrightarrow> y_ops sys = ops \<Longrightarrow>
     outgoing pipe pair app inner q (rc_sink (snd (rhp_send (y_api sys) (y_sink sys) h d st)))"
  using outgoing.reader.operations_inv(1) [of app inner q st "y_api sys" "y_keys sys" h d]
  by (simp add: y_sink_def outgoing.reader.holds_def)

lemma turns_stream:
  assumes "shared_ok shut (w_shared w)" and "w_client w = Some c" and "feeds c ps e" and "list_all (\<lambda>p. length p \<le> MAX_FRAME) ps"
    and "\<forall>p \<in> set ps. \<forall>f. frame_parse (y_api sys) p = Some f \<and> frame_typ (y_api sys) f = ascii ''recv'' \<longrightarrow> frame_id (y_api sys) f = None"
    and "w' = fold (world_turn sys) ts w" and "ps_handles (sh_pump (w_shared w')) h = Some x" and "y_ops sys = ops"
  shows "shared_ok shut (w_shared w') \<and>
    wrote (sh_kernel (w_shared w')) (pr_inner_fd x) @ pr_buf x =
      sh_stream wrote (w_shared w) h @ concat (map (stream_data (y_api sys) h) (take (count_list ts ReaderTurn) ps))"
proof -
  have "sink_effect (\<lambda>g. concat (map (stream_data (y_api sys) g) (take (count_list ts ReaderTurn) ps))) (w_shared w) (w_shared w')"
    using turns_effect [OF assms(8,2-5), of ts] assms(6) by simp
  then show ?thesis using assms(1,7) by (auto simp: sink_effect_def sh_stream_def recv_stream_def)
qed

lemma drain_sent:
  assumes "outgoing pipe pair app inner q (w_shared w)" and "length q \<le> n" and "y_ops sys = ops"
    and "tcp_room (rc_writer c) = None" and "serialises (y_api sys)" and "drain_locked sys n h inner c w = (c', w')"
  shows "outgoing pipe pair app inner [] (w_shared w') \<and> tcp_room (rc_writer c') = None \<and>
    rc_next_id c' = rc_next_id c + of_nat (length (chunks OUT_CHUNK q)) \<and>
    (\<exists>ws. sends_wire (y_api sys) h (1 + rc_next_id c) (chunks OUT_CHUNK q) = Some ws \<and>
       tcp_sent (rc_writer c') = tcp_sent (rc_writer c) @ ws)"
  using assms(1,2,4,6)
proof (induction n arbitrary: q c w)
  case 0
  then show ?case by (simp add: chunks.simps)
next
  case (Suc n)
  obtain r d k where rcv: "k_recv ops inner OUT_CHUNK (sh_kernel (w_shared w)) = (r, d, k)" using prod_cases3 by blast
  have pr: "pair (sh_kernel (w_shared w)) app = Some inner" "pipe (sh_kernel (w_shared w)) app = q"
    using Suc.prems(1) by (simp_all add: outgoing_def)
  note g = recv_gives [OF rcv pr(1)] and p = recv_pipe [OF pr(1) rcv]
  let ?w1 = "map_shared (sh_kernel_update (\<lambda>_. k)) w"
  have w1: "outgoing pipe pair app inner (drop OUT_CHUNK q) (w_shared ?w1)"
    using Suc.prems(1) p pr by (simp add: outgoing_def undisturbed_def map_shared_def)
  have pos: "0 < OUT_CHUNK" by (simp add: OUT_CHUNK_def)
  show ?case
  proof (cases "q = []")
    case True
    then show ?thesis using Suc.prems w1 rcv g pos pr assms(3) by (auto simp: chunks.simps)
  next
    case False
    then have d: "0 < r" "d = take OUT_CHUNK q" using g pos pr by auto
    let ?c1 = "c\<lparr>rc_sink := w_shared ?w1\<rparr>"
    let ?c2 = "snd (rhp_send (y_api sys) (y_sink sys) h d ?c1)"
    let ?w2 = "?w1\<lparr>w_client := Some ?c2, w_shared := rc_sink ?c2\<rparr>"
    have rest: "drain_locked sys n h inner ?c2 ?w2 = (c', w')"
      using Suc.prems(4) rcv d assms(3) by (simp add: on_client_def prod.case_eq_if Let_def)
    obtain body where b: "to_vec (y_api sys) (req_fields (SendReq (ascii ''send'') (1 + rc_next_id c) h (to_wire_string d))) = Some body"
      "rc_writer ?c2 = (rc_writer c)\<lparr>tcp_sent := tcp_sent (rc_writer c) @ frame_bytes body\<rparr>" "rc_next_id ?c2 = 1 + rc_next_id c"
      using piece_sent [OF assms(5), of d ?c1 h "y_sink sys"] d False pos Suc.prems(3) by auto
    have "outgoing pipe pair app inner (drop OUT_CHUNK q) (w_shared ?w2)"
      using send_outgoing [of app inner "drop OUT_CHUNK q" ?c1] w1 assms(3) by simp
    moreover have "length (drop OUT_CHUNK q) \<le> n" using Suc.prems(2) pos False by (cases q) auto
    ultimately have "outgoing pipe pair app inner [] (w_shared w') \<and> tcp_room (rc_writer c') = None \<and>
      rc_next_id c' = rc_next_id ?c2 + of_nat (length (chunks OUT_CHUNK (drop OUT_CHUNK q))) \<and>
      (\<exists>ws. sends_wire (y_api sys) h (1 + rc_next_id ?c2) (chunks OUT_CHUNK (drop OUT_CHUNK q)) = Some ws \<and>
         tcp_sent (rc_writer c') = tcp_sent (rc_writer ?c2) @ ws)"
      using Suc.IH [OF _ _ _ rest] b Suc.prems(3) by simp
    then show ?thesis using b d False pos by (subst (1 2) chunks.simps) auto
  qed
qed

end

lemma ux_recv_queue:
  "ux_recv a m k = (n, d, k') \<Longrightarrow> ux_queue k' = (ux_queue k)(a := drop m (ux_queue k a)) \<and> ux_peer k' = ux_peer k \<and>
     ux_cap k' = ux_cap k \<and> ux_shut k' = ux_shut k \<and> ux_wrote k' = ux_wrote k"
  by (auto simp: ux_recv_def split: if_splits option.splits)

lemma ux_pair_cong: "ux_peer k' = ux_peer k \<Longrightarrow> ux_cap k' = ux_cap k \<Longrightarrow> ux_pair k' = ux_pair k"
  by (rule ext) (simp add: ux_pair_def split: option.splits)

interpretation unix_socket: socket_kernel "unix_kernel fuel" ux_wrote ux_shut ux_pipe ux_pair ux_room for fuel
proof unfold_locales
  fix k k' :: unix and fd g n err d
  assume s: "k_send (unix_kernel fuel) fd d k = (n, err, k')"
  have f: "ux_peer k' = ux_peer k" "ux_cap k' = ux_cap k" "ux_shut k' = ux_shut k"
    using s by (auto simp: unix_kernel_def ux_send_def Let_def split: option.splits if_splits)
  note pr = ux_pair_cong [OF f(1,2)]
  show "ux_pair k' = ux_pair k \<and> (g \<noteq> fd \<longrightarrow> ux_pipe k' g = ux_pipe k g)"
  proof (cases "ux_pair k fd")
    case None
    then show ?thesis using s by (simp add: unix_kernel_def ux_send_def)
  next
    case (Some a)
    then show ?thesis using unix_signal.send_pipe [OF Some s] by simp
  qed
  fix a assume a: "ux_pair k fd = Some a" "\<not> ux_shut k fd" "d \<noteq> []"
  then show "(0 < n \<longleftrightarrow> 0 < ux_room k fd) \<and> nat n \<le> ux_room k fd \<and> ux_room k' fd \<le> ux_room k fd - nat n"
    using s pr f by (auto simp: unix_kernel_def ux_send_def ux_room_def Let_def split: if_splits)
next
  fix k k' :: unix and a m g n d
  assume r: "k_recv (unix_kernel fuel) a m k = (n, d, k')"
  then have q: "ux_queue k' = (ux_queue k)(a := drop m (ux_queue k a))" "ux_peer k' = ux_peer k" "ux_cap k' = ux_cap k"
    "ux_shut k' = ux_shut k" "ux_wrote k' = ux_wrote k"
    using ux_recv_queue by (auto simp: unix_kernel_def)
  note pr = ux_pair_cong [OF q(2,3)]
  show "ux_pair k' = ux_pair k \<and> ux_shut k' = ux_shut k \<and> ux_wrote k' = ux_wrote k \<and>
      (ux_pair k g \<noteq> Some a \<longrightarrow> ux_pipe k' g = ux_pipe k g)"
    using q pr by (auto simp: ux_pipe_def split: option.splits)
  fix fd assume "ux_pair k fd = Some a" "0 < m"
  then show "(0 < n \<longleftrightarrow> ux_pipe k fd \<noteq> []) \<and> (0 < n \<longrightarrow> d = take m (ux_pipe k fd))"
    using r by (auto simp: unix_kernel_def ux_recv_def ux_pipe_def split: if_splits option.splits)
next
  fix k :: unix and fd a m
  assume a: "ux_pair k fd = Some a" "0 < (m :: nat)"
  let ?k = "k_set_sndbuf (unix_kernel fuel) fd m k"
  have k: "ux_peer ?k = ux_peer k" "ux_cap ?k = (ux_cap k)(fd := m)" "ux_queue ?k = ux_queue k" "ux_shut ?k = ux_shut k"
    by (simp_all add: unix_kernel_def)
  have pr: "ux_pair ?k = ux_pair k" using ux_pair_sym [OF a(1)] a(2) by (auto simp: ux_pair_def k fun_eq_iff split: option.splits)
  then show "ux_pair ?k = ux_pair k \<and> ux_pipe ?k = ux_pipe k \<and> ux_shut ?k = ux_shut k"
    using k by (auto simp: ux_pipe_def fun_eq_iff split: option.splits)
qed

section \<open>Gates and descriptors\<close>

text \<open>The gate of a non-blocking connect. Arming the gate leaves the application's end not writable and
  nothing registered for forwarding; resolving it takes exactly the filler out, so that the end is
  writable and empty again, and only then registers it. The other direction, which carries
  received data, is not touched.\<close>

lemma gate_cycle:
  assumes "socket_kernel ops wrote shut pipe pair room" and "pair (sh_kernel s) app = Some inner" and "app \<noteq> inner"
    and "\<not> shut (sh_kernel s) app" and "pipe (sh_kernel s) app = []"
    and "room (k_set_sndbuf ops app GATE_CHUNK (sh_kernel s)) app \<le> k_fuel ops"
    and "s1 = arm_connect_gate ops h app inner s" and "s2 = resolve_connect_gate ops h s1"
  shows "room (sh_kernel s1) app = 0 \<and> sh_out s1 = sh_out s \<and> pipe (sh_kernel s1) inner = pipe (sh_kernel s) inner \<and>
    pipe (sh_kernel s2) app = [] \<and> 0 < room (sh_kernel s2) app \<and> sh_gates s2 h = None \<and>
    sh_out s2 = out_register h inner (sh_out s) \<and> pipe (sh_kernel s2) inner = pipe (sh_kernel s) inner"
proof -
  let ?k0 = "k_set_sndbuf ops app GATE_CHUNK (sh_kernel s)"
  let ?k1 = "send_until_full ops (k_fuel ops) app ?k0"
  let ?k2 = "recv_until_empty ops (k_fuel ops) inner ?k1"
  note sk = socket_kernel.axioms(1) [OF assms(1)]
  have k0: "pair ?k0 = pair (sh_kernel s)" "pipe ?k0 = pipe (sh_kernel s)" "shut ?k0 = shut (sh_kernel s)"
    using socket_kernel.sndbuf_frame [OF assms(1,2), of GATE_CHUNK] by (simp_all add: GATE_CHUNK_def)
  have k1: "room ?k1 app = 0" "pair ?k1 = pair (sh_kernel s)" "shut ?k1 = shut (sh_kernel s)"
    "length (pipe ?k1 app) \<le> room ?k0 app" "\<And>g. g \<noteq> app \<Longrightarrow> pipe ?k1 g = pipe (sh_kernel s) g"
    using socket_kernel.fill_pipe [OF assms(1), of ?k0 app inner "k_fuel ops"] k0 assms(2,4-6) by auto
  have k2: "pipe ?k2 = (pipe ?k1)(app := [])" "pair ?k2 = pair (sh_kernel s)" "shut ?k2 = shut (sh_kernel s)"
    using socket_kernel.drain_pipe [OF assms(1), of ?k1 app inner "k_fuel ops"] k1 assms(2,6) by auto
  have "0 < room ?k2 app"
  proof -
    obtain n err k' where n: "k_send ops app [0] ?k2 = (n, err, k')" using prod_cases3 by blast
    have "0 < n" using signal_kernel.send_room [OF sk _ _ _ _ n] k2 assms(2,4) by simp
    then show ?thesis using socket_kernel.send_takes [OF assms(1) n] k2 assms(2,4) by simp
  qed
  then show ?thesis using k1 k2 assms(3,7,8) by (simp add: arm_connect_gate_def resolve_connect_gate_def)
qed

text \<open>Tearing a descriptor down removes it from the table and its handle
  from the receive pump, the datagram pump, the outbound pump and the gates; every other
  descriptor and every other handle keeps its entries.\<close>

lemma destroy_complete:
  assumes "w_fds w fd = Some s" and "fs_handle s = Some h" and "w' = destroy_ax25_fd sys fd w"
  shows "w_fds w' = (w_fds w)(fd := None) \<and>
    ps_handles (sh_pump (w_shared w')) = (ps_handles (sh_pump (w_shared w)))(h := None) \<and>
    ps_early (sh_pump (w_shared w')) = (ps_early (sh_pump (w_shared w)))(h := None) \<and>
    sh_dgram (w_shared w') = (sh_dgram (w_shared w))(h := None) \<and>
    sh_out (w_shared w') = (sh_out (w_shared w))(h := None) \<and>
    sh_gates (w_shared w') = (sh_gates (w_shared w))(h := None)"
  using assms by (simp add: destroy_ax25_fd_def map_shared_def forget_handle_def pump_unregister_def dgram_unregister_def
      out_unregister_def Let_def)

section \<open>Properties\<close>

text \<open>C2 (inbound data reaches the application). Whatever frames arrive and however the turns of the reader
  thread and of the flusher interleave, a handle that is still registered has exactly the decoded
  data of its recv pushes, in order, written into its socketpair or kept for it: other pushes,
  closes, datagrams and the end of the connection neither lose nor reorder a byte.\<close>

theorem interposed_stream:
  assumes "socket_kernel (y_ops sys) wrote shut pipe pair room" and "shared_ok shut (w_shared w)"
    and "w_client w = Some c" and "feeds c ps e" and "list_all (\<lambda>p. length p \<le> MAX_FRAME) ps"
    and "\<forall>p \<in> set ps. \<forall>f. frame_parse (y_api sys) p = Some f \<and> frame_typ (y_api sys) f = ascii ''recv'' \<longrightarrow> frame_id (y_api sys) f = None"
    and "w' = fold (world_turn sys) ts w" and "ps_handles (sh_pump (w_shared w')) h = Some x"
  shows "shared_ok shut (w_shared w') \<and>
    wrote (sh_kernel (w_shared w')) (pr_inner_fd x) @ pr_buf x =
      sh_stream wrote (w_shared w) h @ concat (map (stream_data (y_api sys) h) (take (count_list ts ReaderTurn) ps))"
  by (rule socket_kernel.turns_stream [OF assms refl])

lemma sample_shared_ok: "shared_ok ux_shut (sample_shared bufsize)"
  by (simp add: shared_ok_def sample_shared_def empty_shared_def pump_ok_def pump_register_def new_pump_def
      ux_socketpair_def Let_def empty_unix_def)

theorem interposed_stream_witness:
  "\<exists>x. ps_handles (sh_pump (w_shared (fold (world_turn (sample_sys 9)) [ReaderTurn, ReaderTurn, FlusherTurn]
         (sample_world 3 [[2], [5], [2]] [])))) 42 = Some x \<and>
     ux_wrote (sh_kernel (w_shared (fold (world_turn (sample_sys 9)) [ReaderTurn, ReaderTurn, FlusherTurn]
         (sample_world 3 [[2], [5], [2]] [])))) (pr_inner_fd x) @ pr_buf x = [0x41, 0xFF]"
proof -
  let ?ts = "[ReaderTurn, ReaderTurn, FlusherTurn]"
  let ?w' = "fold (world_turn (sample_sys 9)) ?ts (sample_world 3 [[2], [5], [2]] [])"
  have "ps_handles (sh_pump (w_shared ?w')) 42 \<noteq> None" by code_simp
  then obtain x where x: "ps_handles (sh_pump (w_shared ?w')) 42 = Some x" by blast
  have ps: "\<forall>p \<in> set [[2], [5], [2]]. \<forall>f. frame_parse (y_api (sample_sys 9)) p = Some f \<and> frame_typ (y_api (sample_sys 9)) f = ascii ''recv'' \<longrightarrow>
      frame_id (y_api (sample_sys 9)) f = None"
    by (simp add: sample_sys_def ipose_api_def table_json_def frame_defs)
  have d: "concat (map (stream_data (y_api (sample_sys 9)) 42) (take (count_list ?ts ReaderTurn) [[2], [5], [2]])) = [0x41, 0xFF]" by code_simp
  have "socket_kernel (y_ops (sample_sys 9)) ux_wrote ux_shut ux_pipe ux_pair ux_room"
    using unix_socket.socket_kernel_axioms [of 9] by (simp add: sample_sys_def)
  note t = interposed_stream [OF this _ _ _ _ ps refl x, of "sample_conn [[2], [5], [2]] [] (sample_shared 3)" None]
  have "sh_stream ux_wrote (w_shared (sample_world 3 [[2], [5], [2]] [])) 42 = []"
    by (simp add: sh_stream_def recv_stream_def sample_world_def sample_shared_def empty_shared_def pump_register_def new_pump_def
        ux_socketpair_def Let_def empty_unix_def)
  then have "ux_wrote (sh_kernel (w_shared ?w')) (pr_inner_fd x) @ pr_buf x = [0x41, 0xFF]"
    using t d sample_shared_ok by (simp add: sample_world_def sample_conn_def new_client_def feeds_def MAX_FRAME_def)
  with x show ?thesis by blast
qed

text \<open>C3 (bypassed output comes first). When an interposed write succeeds, the wire has grown by the frames of
  everything the application had written past the interposed calls, in pieces of at most 4096
  bytes, followed by those of its own data, and nothing of the bypassed bytes is left behind:
  whatever arrives from the engine meanwhile and however it answers the first frames.\<close>

theorem bypassed_first:
  assumes "socket_kernel (y_ops sys) wrote shut pipe pair room" and "sh_out (w_shared w) h = Some inner"
    and "outgoing pipe pair app inner q (w_shared w)" and "length q \<le> k_fuel (y_ops sys)"
    and "tcp_room (rc_writer c) = None" and "serialises (y_api sys)" and "data \<noteq> []"
    and "send_ordered sys h data c w = (Inr (), c', w')"
  shows "\<exists>ws. sends_wire (y_api sys) h (1 + rc_next_id c) (chunks OUT_CHUNK q @ chunks MAX_SEND_CHUNK data) = Some ws \<and>
    tcp_sent (rc_writer c') = tcp_sent (rc_writer c) @ ws \<and> pipe (sh_kernel (w_shared w')) app = []"
proof -
  obtain c1 w1 where d: "drain_locked sys (k_fuel (y_ops sys)) h inner c w = (c1, w1)"
    by (cases "drain_locked sys (k_fuel (y_ops sys)) h inner c w")
  obtain ws where ws: "sends_wire (y_api sys) h (1 + rc_next_id c) (chunks OUT_CHUNK q) = Some ws"
    "tcp_sent (rc_writer c1) = tcp_sent (rc_writer c) @ ws" "rc_next_id c1 = rc_next_id c + of_nat (length (chunks OUT_CHUNK q))"
    "outgoing pipe pair app inner [] (w_shared w1)"
    using socket_kernel.drain_sent [OF assms(1,3,4) refl assms(5,6) d] by blast
  let ?r = "rhp_send (y_api sys) (y_sink sys) h data (c1\<lparr>rc_sink := w_shared w1\<rparr>)"
  have r: "fst ?r = Inr ()" "snd ?r = c'" "w_shared w' = rc_sink c'"
    using assms(2,8) d by (auto simp: send_ordered_def out_flush_def on_client_def split: prod.splits sum.splits)
  then have "send_chunks (y_api sys) (y_sink sys) h (chunks MAX_SEND_CHUNK data) (c1\<lparr>rc_sink := w_shared w1\<rparr>) = (Inr (), c')"
    using assms(7) by (simp add: rhp_send_def prod_eq_iff)
  from send_chunks_wire [OF this] obtain ws' where "sends_wire (y_api sys) h (1 + rc_next_id c1) (chunks MAX_SEND_CHUNK data) = Some ws'"
    "tcp_sent (rc_writer c') = tcp_sent (rc_writer c1) @ ws'" by auto
  moreover have "outgoing pipe pair app inner [] (rc_sink (snd ?r))"
    using socket_kernel.send_outgoing [OF assms(1) _ refl, of app inner "[]" "c1\<lparr>rc_sink := w_shared w1\<rparr>"] ws(4) by simp
  ultimately show ?thesis using sends_wire_append [OF ws(1)] ws r by (auto simp: algebra_simps outgoing_def)
qed

lemma ipose_api_serialises: "serialises ipose_api"
  by (simp add: serialises_def ipose_api_def table_json_def MAX_FRAME_def ascii_def)

theorem bypassed_first_witness:
  "\<exists>ws. sends_wire ipose_api 42 1 [[0x58, 0x59], [0x5A]] = Some ws \<and>
     tcp_sent (rc_writer (fst (snd (send_ordered (sample_sys 9) 42 [0x5A] (the (w_client bypassed_world)) bypassed_world)))) = ws"
proof -
  let ?c = "the (w_client bypassed_world)"
  let ?r = "send_ordered (sample_sys 9) 42 [0x5A] ?c bypassed_world"
  have "fst ?r = Inr ()" by code_simp
  then have r: "?r = (Inr (), fst (snd ?r), snd (snd ?r))" by (metis prod.collapse)
  have sk: "socket_kernel (y_ops (sample_sys 9)) ux_wrote ux_shut ux_pipe ux_pair ux_room"
    using unix_socket.socket_kernel_axioms [of 9] by (simp add: sample_sys_def)
  note defs = bypassed_world_def sample_world_def sample_shared_def empty_shared_def map_shared_def pump_register_def new_pump_def
    ux_socketpair_def Let_def empty_unix_def ux_send_def ux_pair_def ux_pipe_def empty_world_def
  have og: "outgoing ux_pipe ux_pair 100 101 [0x58, 0x59] (w_shared bypassed_world)" "sh_out (w_shared bypassed_world) 42 = Some 101"
    by (simp_all add: outgoing_def undisturbed_def defs)
  have c: "tcp_room (rc_writer ?c) = None" "rc_next_id ?c = 0" "tcp_sent (rc_writer ?c) = []"
    by (simp_all add: bypassed_world_def map_shared_def sample_world_def sample_conn_def new_client_def)
  have "chunks OUT_CHUNK [0x58, 0x59 :: byte] = [[0x58, 0x59]]" "chunks MAX_SEND_CHUNK [0x5A :: byte] = [[0x5A]]"
    by (simp_all add: chunks.simps OUT_CHUNK_def MAX_SEND_CHUNK_def)
  moreover have "length [0x58, 0x59 :: byte] \<le> k_fuel (y_ops (sample_sys 9))" by (simp add: sample_sys_def unix_kernel_def)
  moreover have "y_api (sample_sys 9) = ipose_api" by (simp add: sample_sys_def)
  ultimately show ?thesis using bypassed_first [OF sk og(2,1) _ c(1) _ _ r] c(2,3) ipose_api_serialises by simp
qed

end
