(* ===== verification/Ipose_Calls.thy ===== *)
theory Ipose_Calls
  imports Ipose_State
begin

text \<open>
  \<^verbatim>\<open>crates/ax25-interpose/src/lib.rs\<close>: the interposed C entry points. A call on a descriptor that is
  not in the table goes to the real function, a parameter; \<open>syscall\<close> lists these with their
  arguments. Buffers of the caller are the bytes they hold. A call that can block returns an
  option: \<open>None\<close> is a call that has not returned when the reader thread has made the
  iterations of its wait.
\<close>

section \<open>Definitions\<close>

subsection \<open>Constants\<close>

definition AF_AX25_INT :: int where "AF_AX25_INT = 3"

definition SOCK_SEQPACKET :: int where "SOCK_SEQPACKET = 5"

definition SOCK_DGRAM :: int where "SOCK_DGRAM = 2"

definition SOCK_CLOEXEC :: int where "SOCK_CLOEXEC = 0x80000"

definition SOCK_NONBLOCK :: int where "SOCK_NONBLOCK = 0x800"

definition SOL_AX25 :: int where "SOL_AX25 = 257"

definition SOL_SOCKET :: int where "SOL_SOCKET = 1"

definition SO_ERROR :: int where "SO_ERROR = 4"

definition MSG_DONTWAIT :: int where "MSG_DONTWAIT = 0x40"

definition ENFILE :: int where "ENFILE = 23"

definition EDESTADDRREQ :: int where "EDESTADDRREQ = 89"

definition ECONNABORTED :: int where "ECONNABORTED = 103"

definition EINPROGRESS :: int where "EINPROGRESS = 115"

definition AX25_WINDOW :: int where "AX25_WINDOW = 1"

definition AX25_T1 :: int where "AX25_T1 = 2"

definition AX25_N2 :: int where "AX25_N2 = 3"

definition AX25_T3 :: int where "AX25_T3 = 4"

definition AX25_T2 :: int where "AX25_T2 = 5"

definition AX25_EXTSEQ :: int where "AX25_EXTSEQ = 7"

definition AX25_PIDINCL :: int where "AX25_PIDINCL = 8"

definition AX25_PACLEN :: int where "AX25_PACLEN = 10"

definition AX25_PID_NO_L3 :: byte where "AX25_PID_NO_L3 = 0xF0"

subsection \<open>The real functions\<close>

datatype syscall =
    RSocket int int int
  | RBind int "byte list option" nat
  | RListen int int
  | RConnect int "byte list option" nat
  | RAccept int "byte list option" "nat option"
  | RGetsockname int "byte list option" "nat option"
  | RGetpeername int "byte list option" "nat option"
  | RSetsockopt int int int "byte list option" nat
  | RGetsockopt int int int "byte list option" "nat option"
  | RRead int "byte list" nat
  | RRecv int "byte list" nat int
  | RRecvfrom int "byte list" nat int "byte list option" "nat option"
  | RWrite int "byte list"
  | RSend int "byte list" int
  | RSendto int "byte list" int "byte list option" nat
  | RSelect int "int list" "int list" "int list" "int option"
  | RPoll "(int \<times> int) list" int
  | RClose int

text \<open>What a call gives back: its value and the caller's buffer, address and length after it.\<close>

record result =
  r_ret :: int
  r_buf :: "byte list"
  r_addr :: "byte list option"
  r_len :: "nat option"

text \<open>The real functions, with the \<^verbatim>\<open>errno\<close> they set, and what the padding of a struct on the stack holds.\<close>

record 'k libc =
  lc_real :: "syscall \<Rightarrow> 'k \<Rightarrow> (result \<times> int option) \<times> 'k"
  lc_pad :: "byte list"

definition set_errno :: "int \<Rightarrow> ('j, 'k) world \<Rightarrow> ('j, 'k) world" where
  "set_errno e w = w\<lparr>w_errno := e\<rparr>"

definition real_call :: "'k libc \<Rightarrow> syscall \<Rightarrow> ('j, 'k) world \<Rightarrow> result \<times> ('j, 'k) world" where
  "real_call lc c w =
     (case lc_real lc c (sh_kernel (w_shared w)) of ((r, e), k) \<Rightarrow>
        (r, (case e of None \<Rightarrow> id | Some e \<Rightarrow> set_errno e) (map_shared (sh_kernel_update (\<lambda>_. k)) w)))"

definition real_int :: "'k libc \<Rightarrow> syscall \<Rightarrow> ('j, 'k) world \<Rightarrow> int \<times> ('j, 'k) world" where
  "real_int lc c w = (case real_call lc c w of (r, w1) \<Rightarrow> (r_ret r, w1))"

definition fail :: "int \<Rightarrow> ('j, 'k) world \<Rightarrow> int \<times> ('j, 'k) world" where
  "fail e w = (-1, set_errno e w)"

definition is_nonblocking :: "('j, 'k) sys \<Rightarrow> int \<Rightarrow> ('j, 'k) world \<Rightarrow> bool" where
  "is_nonblocking sys fd w \<longleftrightarrow> k_nonblocking (y_ops sys) (sh_kernel (w_shared w)) fd"

definition fd_field :: "int \<Rightarrow> (fd_state \<Rightarrow> 'a option) \<Rightarrow> ('j, 'k) world \<Rightarrow> 'a option" where
  "fd_field fd f w = and_then (w_fds w fd) f"

subsection \<open>socket, bind, listen, connect\<close>

definition socket_call :: "'k libc \<Rightarrow> ('j, 'k) sys \<Rightarrow> int \<Rightarrow> int \<Rightarrow> int \<Rightarrow> ('j, 'k) world \<Rightarrow> int \<times> ('j, 'k) world" where
  "socket_call lc sys domain ty protocol w =
     (let base = ty AND NOT (SOCK_CLOEXEC OR SOCK_NONBLOCK) in
      if domain = AF_AX25_INT \<and> (base = SOCK_SEQPACKET \<or> base = SOCK_DGRAM)
      then (case create_ax25_fd sys (base = SOCK_DGRAM) w of
          (Some fd, w1) \<Rightarrow> (fd, w1)
        | (None, w1) \<Rightarrow> fail ENFILE w1)
      else real_int lc (RSocket domain ty protocol) w)"

text \<open>The end of \<^verbatim>\<open>ensure_dgram_handle\<close>: the handle is stored and registered, unless another one is there.\<close>

definition store_dgram_handle :: "('j, 'k) sys \<Rightarrow> int \<Rightarrow> u64 \<Rightarrow> ('j, 'k shared) client \<Rightarrow> ('j, 'k) world \<Rightarrow>
    (int + u64) \<times> ('j, 'k) world" where
  "store_dgram_handle sys fd h c w =
     (case w_fds w fd of
        None \<Rightarrow> (case on_client (rhp_close (y_api sys) (y_sink sys) h) c w of (_, _, w1) \<Rightarrow> (Inl EBADF, w1))
      | Some s \<Rightarrow>
          (case fs_handle s of
             Some h' \<Rightarrow> (case on_client (rhp_close (y_api sys) (y_sink sys) h) c w of (_, _, w1) \<Rightarrow> (Inr h', w1))
           | None \<Rightarrow>
               (Inr h, map_shared (\<lambda>sh. sh\<lparr>sh_dgram := dgram_register h (fs_app_fd s) (fs_inner_fd s) (sh_dgram sh)\<rparr>)
                  (map_fd fd (\<lambda>s. s\<lparr>fs_handle := Some h\<rparr>) w))))"

definition ensure_dgram_handle :: "('j, 'k) sys \<Rightarrow> int \<Rightarrow> ('j, 'k) world \<Rightarrow> (int + u64) \<times> ('j, 'k) world" where
  "ensure_dgram_handle sys fd w =
     (case w_fds w fd of
        None \<Rightarrow> (Inl EBADF, w)
      | Some s \<Rightarrow>
          (case fs_handle s of
             Some h \<Rightarrow> (Inr h, w)
           | None \<Rightarrow>
               (case ensure_client sys w of
                  (None, w1) \<Rightarrow> (Inl ECONNREFUSED, w1)
                | (Some c, w1) \<Rightarrow>
                    (case on_client (socket_dgram (y_api sys) (y_sink sys)) c w1 of
                       (Inl e, _, w2) \<Rightarrow> (Inl (to_errno e), w2)
                     | (Inr h, c2, w2) \<Rightarrow>
                         (case fs_local s of
                            None \<Rightarrow> store_dgram_handle sys fd h c2 w2
                          | Some local \<Rightarrow>
                              (case on_client (rhp_bind (y_api sys) (y_sink sys) h local None) c2 w2 of
                                 (Inl e, c3, w3) \<Rightarrow>
                                   (case on_client (rhp_close (y_api sys) (y_sink sys) h) c3 w3 of
                                      (_, _, w4) \<Rightarrow> (Inl (to_errno e), w4))
                               | (Inr _, c3, w3) \<Rightarrow> store_dgram_handle sys fd h c3 w3))))))"

definition bind_call :: "'k libc \<Rightarrow> ('j, 'k) sys \<Rightarrow> int \<Rightarrow> byte list option \<Rightarrow> nat \<Rightarrow> ('j, 'k) world \<Rightarrow> int \<times> ('j, 'k) world" where
  "bind_call lc sys fd addr len w =
     (if \<not> is_ax25_fd fd w then real_int lc (RBind fd addr len) w
      else (let w1 = (case read_call addr len of
                  Some call \<Rightarrow> map_fd fd (\<lambda>s. s\<lparr>fs_local := Some call\<rparr>) w
                | None \<Rightarrow> w) in
        if is_dgram_fd fd w1
        then (case ensure_dgram_handle sys fd w1 of (Inr _, w2) \<Rightarrow> (0, w2) | (Inl e, w2) \<Rightarrow> fail e w2)
        else (0, w1)))"

text \<open>The three requests of \<^verbatim>\<open>listen\<close>, stopping at the first that fails.\<close>

definition open_listener :: "('j, 'k) sys \<Rightarrow> rstr \<Rightarrow> ('j, 'k shared) client \<Rightarrow> ('j, 'k) world \<Rightarrow>
    (rhp_error + u64) \<times> ('j, 'k) world" where
  "open_listener sys local c w =
     (case on_client (rhp_socket (y_api sys) (y_sink sys)) c w of
        (Inl e, _, w1) \<Rightarrow> (Inl e, w1)
      | (Inr h, c1, w1) \<Rightarrow>
          (case on_client (rhp_bind (y_api sys) (y_sink sys) h local None) c1 w1 of
             (Inl e, _, w2) \<Rightarrow> (Inl e, w2)
           | (Inr _, c2, w2) \<Rightarrow>
               (case on_client (rhp_listen (y_api sys) (y_sink sys) h) c2 w2 of
                  (Inl e, _, w3) \<Rightarrow> (Inl e, w3)
                | (Inr _, _, w3) \<Rightarrow> (Inr h, w3))))"

definition listen_call :: "'k libc \<Rightarrow> ('j, 'k) sys \<Rightarrow> int \<Rightarrow> int \<Rightarrow> ('j, 'k) world \<Rightarrow> int \<times> ('j, 'k) world" where
  "listen_call lc sys fd backlog w =
     (if \<not> is_ax25_fd fd w then real_int lc (RListen fd backlog) w
      else (case fd_field fd fs_local w of
          None \<Rightarrow> fail EINVAL w
        | Some local \<Rightarrow>
            (case ensure_client sys w of
               (None, w1) \<Rightarrow> fail ECONNREFUSED w1
             | (Some c, w1) \<Rightarrow>
                 (case open_listener sys local c w1 of
                    (Inr h, w2) \<Rightarrow> (0, map_fd fd (\<lambda>s. s\<lparr>fs_handle := Some h, fs_listening := True\<rparr>) w2)
                  | (Inl e, w2) \<Rightarrow> fail (to_errno e) w2))))"

definition NOCALL :: rstr where "NOCALL = ascii ''NOCALL''"

definition src_call :: "('j, 'k) sys \<Rightarrow> rstr option \<Rightarrow> rstr" where
  "src_call sys local =
     (case local of Some l \<Rightarrow> l | None \<Rightarrow> (case y_src_call sys of Some l \<Rightarrow> l | None \<Rightarrow> NOCALL))"

text \<open>\<^verbatim>\<open>connect\<close> on a datagram socket only records the default destination.\<close>

definition connect_dgram :: "('j, 'k) sys \<Rightarrow> int \<Rightarrow> rstr \<Rightarrow> ('j, 'k) world \<Rightarrow> int \<times> ('j, 'k) world" where
  "connect_dgram sys fd remote w =
     (case ensure_dgram_handle sys fd w of
        (Inl e, w1) \<Rightarrow> fail e w1
      | (Inr _, w1) \<Rightarrow> (0, map_fd fd (\<lambda>s. s\<lparr>fs_remote := Some remote\<rparr>) w1))"

text \<open>After the open was accepted: the handle is recorded and registered, then the gate is armed or the
  outcome waited for.\<close>

definition finish_connect :: "('j, 'k) sys \<Rightarrow> int \<Rightarrow> rstr \<Rightarrow> rstr list \<Rightarrow> u64 \<Rightarrow> ('j, 'k shared) client \<Rightarrow> ('j, 'k) world \<Rightarrow>
    int option \<times> ('j, 'k) world" where
  "finish_connect sys fd remote digis h c w =
     (case w_fds w fd of
        None \<Rightarrow> (case fail EBADF w of (r, w1) \<Rightarrow> (Some r, w1))
      | Some s \<Rightarrow>
          (let w1 = map_fd fd (\<lambda>s. s\<lparr>fs_handle := Some h, fs_remote := Some remote, fs_digis := digis\<rparr>) w;
               w2 = map_shared (\<lambda>sh. sh\<lparr>sh_pump := pump_register h (fs_inner_fd s) (sh_pump sh)\<rparr>) w1
           in if is_nonblocking sys fd w2
              then (let w3 = map_shared (arm_connect_gate (y_ops sys) h (fs_app_fd s) (fs_inner_fd s)) w2;
                        w4 = (if connect_result h c \<noteq> None then map_shared (resolve_connect_gate (y_ops sys) h) w3 else w3)
                    in case fail EINPROGRESS w4 of (r, w5) \<Rightarrow> (Some r, w5))
              else (case on_client (wait_connected (y_api sys) (y_sink sys) h True) c w2 of
                  (None, _, w3) \<Rightarrow> (None, w3)
                | (Some (Inr _), _, w3) \<Rightarrow>
                    (Some 0, map_shared (\<lambda>sh. sh\<lparr>sh_out := out_register h (fs_inner_fd s) (sh_out sh)\<rparr>) w3)
                | (Some (Inl e), _, w3) \<Rightarrow> (case fail e w3 of (r, w4) \<Rightarrow> (Some r, w4)))))"

definition returns :: "int \<times> ('j, 'k) world \<Rightarrow> int option \<times> ('j, 'k) world" where
  "returns r = (Some (fst r), snd r)"

definition connect_call :: "'k libc \<Rightarrow> ('j, 'k) sys \<Rightarrow> int \<Rightarrow> byte list option \<Rightarrow> nat \<Rightarrow> ('j, 'k) world \<Rightarrow>
    int option \<times> ('j, 'k) world" where
  "connect_call lc sys fd addr len w =
     (if \<not> is_ax25_fd fd w then returns (real_int lc (RConnect fd addr len) w)
      else (case read_call addr len of
          None \<Rightarrow> returns (fail EINVAL w)
        | Some remote \<Rightarrow>
            (let digis = read_digipeaters addr len in
             if is_dgram_fd fd w then returns (connect_dgram sys fd remote w)
             else (case ensure_client sys w of
                 (None, w1) \<Rightarrow> returns (fail ECONNREFUSED w1)
               | (Some c, w1) \<Rightarrow>
                   (case on_client (open_connect (y_api sys) (y_sink sys) (src_call sys (fd_field fd fs_local w)) remote digis) c w1 of
                      (Inl e, _, w2) \<Rightarrow> returns (fail (to_errno e) w2)
                    | (Inr res, c2, w2) \<Rightarrow> finish_connect sys fd remote digis (or_handle res) c2 w2)))))"

subsection \<open>accept, getsockname, getpeername\<close>

definition bare :: "int \<Rightarrow> byte list option \<Rightarrow> nat option \<Rightarrow> result" where
  "bare r addr len = \<lparr>r_ret = r, r_buf = [], r_addr = addr, r_len = len\<rparr>"

text \<open>The descriptor of an accepted child.\<close>

definition adopt_child :: "'k libc \<Rightarrow> ('j, 'k) sys \<Rightarrow> accept_info \<Rightarrow> rstr option \<Rightarrow> byte list option \<Rightarrow> nat option \<Rightarrow>
    ('j, 'k) world \<Rightarrow> result \<times> ('j, 'k) world" where
  "adopt_child lc sys info local addr len w =
     (case create_ax25_fd sys False w of
        (None, w1) \<Rightarrow> (case fail ENFILE w1 of (r, w2) \<Rightarrow> (bare r addr len, w2))
      | (Some child_fd, w1) \<Rightarrow>
          (let h = ai_child_handle info;
               w2 = map_fd child_fd (\<lambda>s. s\<lparr>fs_handle := Some h, fs_remote := ai_remote info,
                      fs_local := (case ai_local info of Some l \<Rightarrow> Some l | None \<Rightarrow> local)\<rparr>) w1;
               inner = unwrap_or 0 (map_option fs_inner_fd (w_fds w2 child_fd));
               w3 = map_shared (\<lambda>sh. sh\<lparr>sh_pump := pump_register h inner (sh_pump sh),
                      sh_out := out_register h inner (sh_out sh)\<rparr>) w2
           in case ai_remote info of
                None \<Rightarrow> (bare child_fd addr len, w3)
              | Some remote \<Rightarrow>
                  (case write_call (lc_pad lc) remote addr len of (addr', len') \<Rightarrow> (bare child_fd addr' len', w3))))"

definition accept_call :: "'k libc \<Rightarrow> ('j, 'k) sys \<Rightarrow> int \<Rightarrow> byte list option \<Rightarrow> nat option \<Rightarrow> ('j, 'k) world \<Rightarrow>
    result option \<times> ('j, 'k) world" where
  "accept_call lc sys fd addr len w =
     (let failed = (\<lambda>e w. case fail e w of (r, w') \<Rightarrow> (Some (bare r addr len), w')) in
      if \<not> is_ax25_fd fd w then (case real_call lc (RAccept fd addr len) w of (r, w1) \<Rightarrow> (Some r, w1))
      else (case w_fds w fd of
          None \<Rightarrow> failed EBADF w
        | Some s \<Rightarrow>
            (case fs_handle s of
               None \<Rightarrow> failed EINVAL w
             | Some l \<Rightarrow>
                 (case ensure_client sys w of
                    (None, w1) \<Rightarrow> failed ECONNABORTED w1
                  | (Some c, w1) \<Rightarrow>
                      if is_nonblocking sys fd w1
                      then (case on_client (try_accept l) c w1 of
                          (None, _, w2) \<Rightarrow> failed EAGAIN w2
                        | (Some info, _, w2) \<Rightarrow>
                            (case adopt_child lc sys info (fs_local s) addr len w2 of (r, w3) \<Rightarrow> (Some r, w3)))
                      else (case on_client (wait_accept (y_api sys) (y_sink sys) l False) c w1 of
                          (None, _, w2) \<Rightarrow> (None, w2)
                        | (Some None, _, w2) \<Rightarrow> failed ECONNABORTED w2
                        | (Some (Some info), _, w2) \<Rightarrow>
                            (case adopt_child lc sys info (fs_local s) addr len w2 of (r, w3) \<Rightarrow> (Some r, w3)))))))"

definition getsockname_call :: "'k libc \<Rightarrow> int \<Rightarrow> byte list option \<Rightarrow> nat option \<Rightarrow> ('j, 'k) world \<Rightarrow> result \<times> ('j, 'k) world" where
  "getsockname_call lc fd addr len w =
     (if is_ax25_fd fd w
      then (case write_sockname (unwrap_or [] (fd_field fd fs_local w)) addr len of (addr', len') \<Rightarrow> (bare 0 addr' len', w))
      else real_call lc (RGetsockname fd addr len) w)"

definition getpeername_call :: "'k libc \<Rightarrow> int \<Rightarrow> byte list option \<Rightarrow> nat option \<Rightarrow> ('j, 'k) world \<Rightarrow> result \<times> ('j, 'k) world" where
  "getpeername_call lc fd addr len w =
     (if is_ax25_fd fd w
      then (case write_call (lc_pad lc) (unwrap_or [] (fd_field fd fs_remote w)) addr len of (addr', len') \<Rightarrow> (bare 0 addr' len', w))
      else real_call lc (RGetpeername fd addr len) w)"

subsection \<open>Socket options\<close>

text \<open>A \<^verbatim>\<open>c_int\<close> in memory.\<close>

definition le_bytes :: "32 word \<Rightarrow> byte list" where
  "le_bytes v = [ucast v, ucast (drop_bit 8 v), ucast (drop_bit 16 v), ucast (drop_bit 24 v)]"

definition set_option :: "int \<Rightarrow> 32 word \<Rightarrow> fd_state \<Rightarrow> fd_state" where
  "set_option optname v s =
     (if optname = AX25_WINDOW then s\<lparr>fs_window := Some v\<rparr>
      else if optname = AX25_PACLEN then s\<lparr>fs_paclen := Some v\<rparr>
      else if optname = AX25_PIDINCL then s\<lparr>fs_pidincl := v \<noteq> 0\<rparr>
      else if optname = AX25_T1 then s\<lparr>fs_t1 := Some v\<rparr>
      else if optname = AX25_T2 then s\<lparr>fs_t2 := Some v\<rparr>
      else if optname = AX25_T3 then s\<lparr>fs_t3 := Some v\<rparr>
      else if optname = AX25_N2 then s\<lparr>fs_n2 := Some v\<rparr>
      else if optname = AX25_EXTSEQ then s\<lparr>fs_extseq := Some v\<rparr>
      else s)"

definition get_option :: "int \<Rightarrow> fd_state \<Rightarrow> 32 word" where
  "get_option optname s =
     (if optname = AX25_WINDOW then unwrap_or 0 (fs_window s)
      else if optname = AX25_PACLEN then unwrap_or 0 (fs_paclen s)
      else if optname = AX25_T1 then unwrap_or 0 (fs_t1 s)
      else if optname = AX25_T2 then unwrap_or 0 (fs_t2 s)
      else if optname = AX25_T3 then unwrap_or 0 (fs_t3 s)
      else if optname = AX25_N2 then unwrap_or 0 (fs_n2 s)
      else if optname = AX25_EXTSEQ then unwrap_or 0 (fs_extseq s)
      else if optname = AX25_PIDINCL then (if fs_pidincl s then 1 else 0)
      else 0)"

definition setsockopt_call :: "'k libc \<Rightarrow> int \<Rightarrow> int \<Rightarrow> int \<Rightarrow> byte list option \<Rightarrow> nat \<Rightarrow> ('j, 'k) world \<Rightarrow>
    int \<times> ('j, 'k) world" where
  "setsockopt_call lc fd level optname optval optlen w =
     (if is_ax25_fd fd w
      then (0, (case optval of
            Some mem \<Rightarrow>
              if level = SOL_AX25 \<and> optlen \<ge> 4 then map_fd fd (set_option optname (le32 mem)) w else w
          | None \<Rightarrow> w))
      else real_int lc (RSetsockopt fd level optname optval optlen) w)"

text \<open>Storing a \<^verbatim>\<open>c_int\<close> through the result pointers.\<close>

definition put_int :: "32 word \<Rightarrow> byte list \<Rightarrow> result" where
  "put_int v mem = bare 0 (Some (le_bytes v @ drop 4 mem)) (Some 4)"

definition so_error :: "('j, 'k) sys \<Rightarrow> int \<Rightarrow> ('j, 'k) world \<Rightarrow> int \<times> ('j, 'k) world" where
  "so_error sys fd w =
     (case fd_field fd fs_handle w of
        None \<Rightarrow> (0, w)
      | Some h \<Rightarrow>
          (case ensure_client sys w of
             (None, w1) \<Rightarrow> (0, w1)
           | (Some c, w1) \<Rightarrow> (case on_client (take_connect_error h) c w1 of (e, _, w2) \<Rightarrow> (e, w2))))"

definition getsockopt_call :: "'k libc \<Rightarrow> ('j, 'k) sys \<Rightarrow> int \<Rightarrow> int \<Rightarrow> int \<Rightarrow> byte list option \<Rightarrow> nat option \<Rightarrow> ('j, 'k) world \<Rightarrow>
    result \<times> ('j, 'k) world" where
  "getsockopt_call lc sys fd level optname optval optlen w =
     (if is_ax25_fd fd w
      then (if level = SOL_SOCKET \<and> optname = SO_ERROR
        then (case (optval, optlen) of
            (Some mem, Some n) \<Rightarrow>
              if n < 4 then (case fail EINVAL w of (r, w1) \<Rightarrow> (bare r optval optlen, w1))
              else (case so_error sys fd w of (e, w1) \<Rightarrow> (put_int (word_of_int e) mem, w1))
          | _ \<Rightarrow> (case fail EINVAL w of (r, w1) \<Rightarrow> (bare r optval optlen, w1)))
        else if level = SOL_AX25
        then (case (optval, optlen) of
            (Some mem, Some n) \<Rightarrow>
              (if n \<ge> 4 then put_int (unwrap_or 0 (map_option (get_option optname) (w_fds w fd))) mem
               else bare 0 optval optlen, w)
          | _ \<Rightarrow> (bare 0 optval optlen, w))
        else real_call lc (RGetsockopt fd level optname optval optlen) w)
      else real_call lc (RGetsockopt fd level optname optval optlen) w)"

subsection \<open>Datagrams\<close>

text \<open>The \<^verbatim>\<open>AX25_PIDINCL\<close> convention: what goes on the air for an application buffer, and back.\<close>

definition dgram_wire :: "bool \<Rightarrow> byte list \<Rightarrow> byte list" where
  "dgram_wire pidincl app = (if pidincl then app else AX25_PID_NO_L3 # app)"

definition dgram_payload :: "bool \<Rightarrow> byte list \<Rightarrow> byte list" where
  "dgram_payload pidincl data = (if pidincl \<or> data = [] then data else tl data)"

definition dgram_dest :: "byte list option \<Rightarrow> nat \<Rightarrow> rstr option \<Rightarrow> int + rstr" where
  "dgram_dest dest destlen default_remote =
     (if dest \<noteq> None
      then (case read_call dest destlen of Some r \<Rightarrow> Inr r | None \<Rightarrow> Inl EINVAL)
      else (case default_remote of Some r \<Rightarrow> Inr r | None \<Rightarrow> Inl EDESTADDRREQ))"

definition ax25_dgram_send :: "('j, 'k) sys \<Rightarrow> int \<Rightarrow> byte list \<Rightarrow> byte list option \<Rightarrow> nat \<Rightarrow> ('j, 'k) world \<Rightarrow>
    int \<times> ('j, 'k) world" where
  "ax25_dgram_send sys fd app dest destlen w =
     (case ensure_dgram_handle sys fd w of
        (Inl e, w1) \<Rightarrow> fail e w1
      | (Inr h, w1) \<Rightarrow>
          (case w_fds w1 fd of
             None \<Rightarrow> fail EBADF w1
           | Some s \<Rightarrow>
               (case dgram_dest dest destlen (fs_remote s) of
                  Inl e \<Rightarrow> fail e w1
                | Inr remote \<Rightarrow>
                    (let local = src_call sys (fs_local s); wire = dgram_wire (fs_pidincl s) app in
                     if wire = [] then fail EINVAL w1
                     else (case ensure_client sys w1 of
                         (None, w2) \<Rightarrow> fail EIO w2
                       | (Some c, w2) \<Rightarrow>
                           (case on_client (rhp_sendto (y_api sys) (y_sink sys) h remote local wire) c w2 of
                              (Inr _, _, w3) \<Rightarrow> (int (length app), w3)
                            | (Inl e, _, w3) \<Rightarrow> fail (to_errno e) w3))))))"

text \<open>A received datagram in the caller's buffers.\<close>

definition deliver_dgram :: "'k libc \<Rightarrow> bool \<Rightarrow> byte list \<Rightarrow> nat \<Rightarrow> byte list option \<Rightarrow> nat option \<Rightarrow> datagram \<Rightarrow> result" where
  "deliver_dgram lc pidincl buf len src srclen dg =
     (let payload = dgram_payload pidincl (dg_data dg); n = min (length payload) len;
          (src', srclen') = (if src \<noteq> None then write_call (lc_pad lc) (unwrap_or [] (dg_source dg)) src srclen else (src, srclen))
      in \<lparr>r_ret = int n, r_buf = take n payload @ drop n buf, r_addr = src', r_len = srclen'\<rparr>)"

text \<open>The receive loop; the reader thread makes \<open>n\<close> iterations while the call is parked.\<close>

fun dgram_recv_loop :: "'k libc \<Rightarrow> ('j, 'k) sys \<Rightarrow> nat \<Rightarrow> u64 \<Rightarrow> bool \<Rightarrow> bool \<Rightarrow> byte list \<Rightarrow> nat \<Rightarrow> byte list option \<Rightarrow>
    nat option \<Rightarrow> ('j, 'k) world \<Rightarrow> result option \<times> ('j, 'k) world" where
  "dgram_recv_loop lc sys n h nonblock pidincl buf len src srclen w =
     (let other = (\<lambda>r. \<lparr>r_ret = r, r_buf = buf, r_addr = src, r_len = srclen\<rparr>) in
      case dgram_recv_one (y_ops sys) h (sh_dgram (w_shared w), sh_kernel (w_shared w)) of (out, d, k) \<Rightarrow>
      let w1 = map_shared (\<lambda>sh. sh\<lparr>sh_dgram := d, sh_kernel := k\<rparr>) w in
      case out of
        Got dg \<Rightarrow> (Some (deliver_dgram lc pidincl buf len src srclen dg), w1)
      | Eof \<Rightarrow> (Some (other 0), w1)
      | NoHandle \<Rightarrow> (case fail ENOTCONN w1 of (r, w2) \<Rightarrow> (Some (other r), w2))
      | Empty \<Rightarrow>
          if nonblock then (case fail EAGAIN w1 of (r, w2) \<Rightarrow> (Some (other r), w2))
          else (case n of
              0 \<Rightarrow> (None, w1)
            | Suc m \<Rightarrow> dgram_recv_loop lc sys m h nonblock pidincl buf len src srclen (reader_turn sys w1)))"

declare dgram_recv_loop.simps [simp del]

definition ax25_dgram_recv :: "'k libc \<Rightarrow> ('j, 'k) sys \<Rightarrow> nat \<Rightarrow> int \<Rightarrow> byte list \<Rightarrow> nat \<Rightarrow> int \<Rightarrow> byte list option \<Rightarrow>
    nat option \<Rightarrow> ('j, 'k) world \<Rightarrow> result option \<times> ('j, 'k) world" where
  "ax25_dgram_recv lc sys n fd buf len flags src srclen w =
     (case ensure_dgram_handle sys fd w of
        (Inl e, w1) \<Rightarrow> (case fail e w1 of (r, w2) \<Rightarrow> (Some \<lparr>r_ret = r, r_buf = buf, r_addr = src, r_len = srclen\<rparr>, w2))
      | (Inr h, w1) \<Rightarrow>
          (let pidincl = unwrap_or False (map_option fs_pidincl (w_fds w1 fd));
               nonblock = (is_nonblocking sys fd w1 \<or> flags AND MSG_DONTWAIT \<noteq> 0)
           in dgram_recv_loop lc sys n h nonblock pidincl buf len src srclen w1))"

subsection \<open>read, recv, write, send\<close>

definition finished :: "result \<times> ('j, 'k) world \<Rightarrow> result option \<times> ('j, 'k) world" where
  "finished r = (Some (fst r), snd r)"

definition read_call_fd :: "'k libc \<Rightarrow> ('j, 'k) sys \<Rightarrow> nat \<Rightarrow> int \<Rightarrow> byte list \<Rightarrow> nat \<Rightarrow> ('j, 'k) world \<Rightarrow>
    result option \<times> ('j, 'k) world" where
  "read_call_fd lc sys n fd buf count w =
     (if is_dgram_fd fd w then ax25_dgram_recv lc sys n fd buf count 0 None None w
      else finished (real_call lc (RRead fd buf count) w))"

definition recvfrom_call :: "'k libc \<Rightarrow> ('j, 'k) sys \<Rightarrow> nat \<Rightarrow> int \<Rightarrow> byte list \<Rightarrow> nat \<Rightarrow> int \<Rightarrow> byte list option \<Rightarrow>
    nat option \<Rightarrow> ('j, 'k) world \<Rightarrow> result option \<times> ('j, 'k) world" where
  "recvfrom_call lc sys n fd buf len flags src srclen w =
     (if is_dgram_fd fd w then ax25_dgram_recv lc sys n fd buf len flags src srclen w
      else if is_ax25_fd fd w
      then (case real_call lc (RRecv fd buf len flags) w of (r, w1) \<Rightarrow>
        (case (if r_ret r \<ge> 0 \<and> src \<noteq> None then fd_field fd fs_remote w1 else None) of
           None \<Rightarrow> (Some (r\<lparr>r_addr := src, r_len := srclen\<rparr>), w1)
         | Some remote \<Rightarrow>
             (case write_call (lc_pad lc) remote src srclen of (src', srclen') \<Rightarrow>
                (Some (r\<lparr>r_addr := src', r_len := srclen'\<rparr>), w1))))
      else finished (real_call lc (RRecvfrom fd buf len flags src srclen) w))"

definition recv_call :: "'k libc \<Rightarrow> ('j, 'k) sys \<Rightarrow> nat \<Rightarrow> int \<Rightarrow> byte list \<Rightarrow> nat \<Rightarrow> int \<Rightarrow> ('j, 'k) world \<Rightarrow>
    result option \<times> ('j, 'k) world" where
  "recv_call lc sys n fd buf len flags w =
     (if is_dgram_fd fd w then recvfrom_call lc sys n fd buf len flags None None w
      else finished (real_call lc (RRecv fd buf len flags) w))"

definition ax25_send :: "('j, 'k) sys \<Rightarrow> int \<Rightarrow> byte list \<Rightarrow> ('j, 'k) world \<Rightarrow> int \<times> ('j, 'k) world" where
  "ax25_send sys fd data w =
     (case fd_field fd fs_handle w of
        None \<Rightarrow> fail ENOTCONN w
      | Some h \<Rightarrow>
          (case ensure_client sys w of
             (None, w1) \<Rightarrow> fail EIO w1
           | (Some c, w1) \<Rightarrow>
               (case send_ordered sys h data c w1 of
                  (Inr _, _, w2) \<Rightarrow> (int (length data), w2)
                | (Inl e, _, w2) \<Rightarrow> fail e w2)))"

definition write_call_fd :: "'k libc \<Rightarrow> ('j, 'k) sys \<Rightarrow> int \<Rightarrow> byte list \<Rightarrow> ('j, 'k) world \<Rightarrow> int \<times> ('j, 'k) world" where
  "write_call_fd lc sys fd buf w =
     (if is_dgram_fd fd w then ax25_dgram_send sys fd buf None 0 w
      else if is_ax25_fd fd w then ax25_send sys fd buf w
      else real_int lc (RWrite fd buf) w)"

definition send_call :: "'k libc \<Rightarrow> ('j, 'k) sys \<Rightarrow> int \<Rightarrow> byte list \<Rightarrow> int \<Rightarrow> ('j, 'k) world \<Rightarrow> int \<times> ('j, 'k) world" where
  "send_call lc sys fd buf flags w =
     (if is_dgram_fd fd w then ax25_dgram_send sys fd buf None 0 w
      else if is_ax25_fd fd w then ax25_send sys fd buf w
      else real_int lc (RSend fd buf flags) w)"

definition sendto_call :: "'k libc \<Rightarrow> ('j, 'k) sys \<Rightarrow> int \<Rightarrow> byte list \<Rightarrow> int \<Rightarrow> byte list option \<Rightarrow> nat \<Rightarrow> ('j, 'k) world \<Rightarrow>
    int \<times> ('j, 'k) world" where
  "sendto_call lc sys fd buf flags dest destlen w =
     (if is_dgram_fd fd w then ax25_dgram_send sys fd buf dest destlen w
      else if is_ax25_fd fd w then ax25_send sys fd buf w
      else real_int lc (RSendto fd buf flags dest destlen) w)"

subsection \<open>select, poll, close\<close>

definition select_call :: "'k libc \<Rightarrow> int \<Rightarrow> int list \<Rightarrow> int list \<Rightarrow> int list \<Rightarrow> int option \<Rightarrow> ('j, 'k) world \<Rightarrow> result \<times> ('j, 'k) world" where
  "select_call lc nfds r x e t w = real_call lc (RSelect nfds r x e t) w"

definition poll_call :: "'k libc \<Rightarrow> (int \<times> int) list \<Rightarrow> int \<Rightarrow> ('j, 'k) world \<Rightarrow> result \<times> ('j, 'k) world" where
  "poll_call lc pfds timeout w = real_call lc (RPoll pfds timeout) w"

definition close_call :: "'k libc \<Rightarrow> ('j, 'k) sys \<Rightarrow> int \<Rightarrow> ('j, 'k) world \<Rightarrow> int \<times> ('j, 'k) world" where
  "close_call lc sys fd w =
     (if is_ax25_fd fd w
      then (let w1 = (case fd_field fd fs_handle w of
                None \<Rightarrow> w
              | Some h \<Rightarrow>
                  (case ensure_client sys w of
                     (None, w1) \<Rightarrow> w1
                   | (Some c, w1) \<Rightarrow> (case on_client (rhp_close (y_api sys) (y_sink sys) h) c w1 of (_, _, w2) \<Rightarrow> w2)))
            in (0, destroy_ax25_fd sys fd w1))
      else real_int lc (RClose fd) w)"

subsection \<open>The process\<close>

text \<open>The steps of a process: a call of the application, or a turn of a background thread.\<close>

inductive proc_step :: "'k libc \<Rightarrow> ('j, 'k) sys \<Rightarrow> ('j, 'k) world \<Rightarrow> ('j, 'k) world \<Rightarrow> bool"
  for lc :: "'k libc" and sys :: "('j, 'k) sys" where
  ps_socket: "proc_step lc sys w (snd (socket_call lc sys d t p w))"
| ps_bind: "proc_step lc sys w (snd (bind_call lc sys fd addr len w))"
| ps_listen: "proc_step lc sys w (snd (listen_call lc sys fd backlog w))"
| ps_connect: "proc_step lc sys w (snd (connect_call lc sys fd addr len w))"
| ps_accept: "proc_step lc sys w (snd (accept_call lc sys fd addr olen w))"
| ps_getsockname: "proc_step lc sys w (snd (getsockname_call lc fd addr olen w))"
| ps_getpeername: "proc_step lc sys w (snd (getpeername_call lc fd addr olen w))"
| ps_setsockopt: "proc_step lc sys w (snd (setsockopt_call lc fd level optname optval len w))"
| ps_getsockopt: "proc_step lc sys w (snd (getsockopt_call lc sys fd level optname optval olen w))"
| ps_read: "proc_step lc sys w (snd (read_call_fd lc sys n fd buf len w))"
| ps_recv: "proc_step lc sys w (snd (recv_call lc sys n fd buf len flags w))"
| ps_recvfrom: "proc_step lc sys w (snd (recvfrom_call lc sys n fd buf len flags addr olen w))"
| ps_write: "proc_step lc sys w (snd (write_call_fd lc sys fd buf w))"
| ps_send: "proc_step lc sys w (snd (send_call lc sys fd buf flags w))"
| ps_sendto: "proc_step lc sys w (snd (sendto_call lc sys fd buf flags addr len w))"
| ps_select: "proc_step lc sys w (snd (select_call lc nfds rs ws es t w))"
| ps_poll: "proc_step lc sys w (snd (poll_call lc pfds timeout w))"
| ps_close: "proc_step lc sys w (snd (close_call lc sys fd w))"
| ps_reader: "proc_step lc sys w (reader_turn sys w)"
| ps_orphan: "proc_step lc sys w (orphan_turn sys i w)"
| ps_flusher: "proc_step lc sys w (flusher_turn sys w)"
| ps_outbound: "proc_step lc sys w (outbound_turn sys ready w)"

text \<open>The table is keyed by the application's descriptor, a listener has a handle, and a failed connect
  has a reason.\<close>

definition fd_ok :: "int \<Rightarrow> fd_state \<Rightarrow> bool" where
  "fd_ok fd s \<longleftrightarrow> fs_app_fd s = fd \<and> (fs_listening s \<longrightarrow> fs_handle s \<noteq> None)"

definition world_ok :: "('j, 'k) world \<Rightarrow> bool" where
  "world_ok w \<longleftrightarrow> (\<forall>fd s. w_fds w fd = Some s \<longrightarrow> fd_ok fd s) \<and> (\<forall>c. w_client w = Some c \<longrightarrow> failures_ok (rc_conns c))"

text \<open>A libc that answers every call with success, for the samples.\<close>

definition zero_libc :: "unix libc" where
  "zero_libc = \<lparr>lc_real = (\<lambda>c k. ((\<lparr>r_ret = 0, r_buf = [], r_addr = None, r_len = None\<rparr>, None), k)), lc_pad = [0, 0, 0]\<rparr>"

text \<open>A listener with one waiting child, and a datagram socket with one queued datagram.\<close>

definition listening_world :: "(json, unix) world" where
  "listening_world = (sample_world 9 [] [])\<lparr>w_client := Some ((sample_conn [] [] (sample_shared 9))\<lparr>rc_accepts :=
     [42 \<mapsto> [\<lparr>ai_child_handle = 10, ai_remote = Some (ascii ''M0ABC-2''), ai_local = None\<rparr>]]\<rparr>)\<rparr>"

definition dgram_world :: "byte list \<Rightarrow> (json, unix) world" where
  "dgram_world data = map_shared (\<lambda>s. s\<lparr>sh_dgram := [42 \<mapsto> \<lparr>de_app_fd = 100, de_inner_fd = 101,
       de_queue = [\<lparr>dg_source = Some (ascii ''M0ABC-2''), dg_data = data\<rparr>], de_signaled = True, de_eof = False\<rparr>]\<rparr>)
     ((sample_world 9 [[1]] [1])\<lparr>w_fds := [100 \<mapsto> (new_fd_state 100 101 True)\<lparr>fs_handle := Some 42\<rparr>]\<rparr>)"

section \<open>What a step leaves alone\<close>

lemma map_shared_simps [simp]:
  "w_fds (map_shared f w) = w_fds w" "w_client (map_shared f w) = w_client w" "w_dials (map_shared f w) = w_dials w"
  "w_errno (map_shared f w) = w_errno w" "w_shared (map_shared f w) = f (w_shared w)" "world_ok (map_shared f w) = world_ok w"
  by (simp_all add: map_shared_def world_ok_def)

lemma set_errno_simps [simp]:
  "w_fds (set_errno e w) = w_fds w" "w_client (set_errno e w) = w_client w" "w_dials (set_errno e w) = w_dials w"
  "w_errno (set_errno e w) = e" "w_shared (set_errno e w) = w_shared w" "world_ok (set_errno e w) = world_ok w"
  by (simp_all add: set_errno_def world_ok_def)

lemma fail_simps [simp]: "fst (fail e w) = -1" "snd (fail e w) = set_errno e w"
  by (simp_all add: fail_def)

lemma map_fd_simps [simp]:
  "w_client (map_fd fd f w) = w_client w" "w_shared (map_fd fd f w) = w_shared w" "w_dials (map_fd fd f w) = w_dials w"
  "w_errno (map_fd fd f w) = w_errno w"
  by (simp_all add: map_fd_def split: option.splits)

lemma map_fd_ok: "world_ok w \<Longrightarrow> (\<And>s. fd_ok fd s \<Longrightarrow> fd_ok fd (f s)) \<Longrightarrow> world_ok (map_fd fd f w)"
  by (auto simp: world_ok_def map_fd_def split: option.splits)

lemma real_call_keeps:
  "w_fds (snd (real_call lc c w)) = w_fds w" "w_client (snd (real_call lc c w)) = w_client w"
  "w_dials (snd (real_call lc c w)) = w_dials w" "world_ok (snd (real_call lc c w)) = world_ok w"
  "w_shared (snd (real_call lc c w)) = (w_shared w)\<lparr>sh_kernel := sh_kernel (w_shared (snd (real_call lc c w)))\<rparr>"
  by (simp_all add: real_call_def prod.case_eq_if split: option.splits)

lemma real_int_snd [simp]: "snd (real_int lc c w) = snd (real_call lc c w)" "fst (real_int lc c w) = r_ret (fst (real_call lc c w))"
  by (simp_all add: real_int_def prod.case_eq_if)

lemma on_client_keeps:
  "w_fds (snd (snd (on_client f c w))) = w_fds w" "w_client (snd (snd (on_client f c w))) = Some (fst (snd (on_client f c w)))"
  "fst (on_client f c w) = fst (f (c\<lparr>rc_sink := w_shared w\<rparr>))" "fst (snd (on_client f c w)) = snd (f (c\<lparr>rc_sink := w_shared w\<rparr>))"
  "w_shared (snd (snd (on_client f c w))) = rc_sink (fst (snd (on_client f c w)))"
  by (simp_all add: on_client_def prod.case_eq_if)

text \<open>Client operations keep the reasons of failures.\<close>

lemmas failures_operations =
  failures.operations_inv [unfolded failures.holds_def] failures.wait_connected_inv [unfolded failures.holds_def]
  failures.wait_accept_inv [unfolded failures.holds_def] failures.step_inv

lemma on_client_ok:
  assumes "\<And>st. failures_ok (rc_conns st) \<Longrightarrow> failures_ok (rc_conns (snd (f st)))" and "world_ok w" and "failures_ok (rc_conns c)"
  shows "world_ok (snd (snd (on_client f c w)))" and "failures_ok (rc_conns (fst (snd (on_client f c w))))"
  using assms(2,3) assms(1) [of "c\<lparr>rc_sink := w_shared w\<rparr>"] by (auto simp: on_client_def world_ok_def prod.case_eq_if)

lemmas client_ok =
  on_client_ok [OF failures_operations(1)] on_client_ok [OF failures_operations(2)] on_client_ok [OF failures_operations(3)]
  on_client_ok [OF failures_operations(5)] on_client_ok [OF failures_operations(6)] on_client_ok [OF failures_operations(7)]
  on_client_ok [OF failures_operations(8)] on_client_ok [OF failures_operations(9)] on_client_ok [OF failures_operations(10)]
  on_client_ok [OF failures_operations(11)] on_client_ok [OF failures_operations(12)]

lemma ensure_client_ok:
  assumes "world_ok w"
  shows "world_ok (snd (ensure_client sys w))" and "w_fds (snd (ensure_client sys w)) = w_fds w"
    and "fst (ensure_client sys w) = Some c \<Longrightarrow> failures_ok (rc_conns c)"
    and "fst (ensure_client sys w) = Some c \<Longrightarrow> w_client (snd (ensure_client sys w)) = Some c"
proof -
  have empty: "failures_ok Map.empty" by (simp add: failures_ok_def)
  have d: "world_ok w1 \<and> w_fds w1 = w_fds w \<and> (\<forall>c. y = Some c \<longrightarrow> failures_ok (rc_conns c) \<and> w_client w1 = Some c)"
    if "dial_client sys w = (y, w1)" for y w1
    using that assms failures.connect_to_inv(1) [OF empty, of "y_api sys" "y_sink sys"]
    by (auto simp: dial_client_def world_ok_def failures.holds_def split: list.splits sum.splits prod.splits)
  obtain x w' where e: "ensure_client sys w = (x, w')" by (cases "ensure_client sys w")
  then have "world_ok w' \<and> w_fds w' = w_fds w \<and> (\<forall>c. x = Some c \<longrightarrow> failures_ok (rc_conns c) \<and> w_client w' = Some c)"
    using assms d by (auto simp: ensure_client_def world_ok_def split: option.splits if_splits)
  then show "world_ok (snd (ensure_client sys w))" "w_fds (snd (ensure_client sys w)) = w_fds w"
    "fst (ensure_client sys w) = Some c \<Longrightarrow> failures_ok (rc_conns c)"
    "fst (ensure_client sys w) = Some c \<Longrightarrow> w_client (snd (ensure_client sys w)) = Some c"
    using e by auto
qed

lemma wait_connected_timed: "fst (wait_connected api snk h True st) \<noteq> None"
proof -
  have "fst (wait_connected_for api snk h True n st) \<noteq> None" for n st
    by (induction n arbitrary: st; subst wait_connected_for.simps) (auto split: option.splits)
  then show ?thesis by (simp add: wait_connected_def prod.case_eq_if)
qed

section \<open>The invariant of the process\<close>

lemma create_ok: "world_ok w \<Longrightarrow> world_ok (snd (create_ax25_fd sys dgram w))"
  by (auto simp: create_ax25_fd_def world_ok_def fd_ok_def new_fd_state_def split: prod.splits option.splits if_splits)

lemma destroy_ok: "world_ok w \<Longrightarrow> world_ok (destroy_ax25_fd sys fd w)"
  by (auto simp: destroy_ax25_fd_def world_ok_def split: option.splits if_splits)

lemma store_dgram_ok: "world_ok w \<Longrightarrow> failures_ok (rc_conns c) \<Longrightarrow> world_ok (snd (store_dgram_handle sys fd h c w))"
  by (auto simp: store_dgram_handle_def client_ok prod.case_eq_if fd_ok_def intro!: map_fd_ok split: option.splits)

lemma socket_dgram_ok:
  "world_ok w \<Longrightarrow> failures_ok (rc_conns c) \<Longrightarrow> world_ok (snd (snd (on_client (socket_dgram api snk) c w)))"
  "world_ok w \<Longrightarrow> failures_ok (rc_conns c) \<Longrightarrow> failures_ok (rc_conns (fst (snd (on_client (socket_dgram api snk) c w))))"
  "world_ok w \<Longrightarrow> failures_ok (rc_conns c) \<Longrightarrow> world_ok (snd (snd (on_client (rhp_socket api snk) c w)))"
  "world_ok w \<Longrightarrow> failures_ok (rc_conns c) \<Longrightarrow> failures_ok (rc_conns (fst (snd (on_client (rhp_socket api snk) c w))))"
  using failures_operations(7) by (auto intro!: on_client_ok simp: socket_dgram_def rhp_socket_def)

lemma ensure_dgram_ok: "world_ok w \<Longrightarrow> world_ok (snd (ensure_dgram_handle sys fd w))"
  by (simp add: ensure_dgram_handle_def prod.case_eq_if client_ok socket_dgram_ok ensure_client_ok store_dgram_ok
      split: option.splits sum.splits)

lemma bind_ok: "world_ok w \<Longrightarrow> world_ok (snd (bind_call lc sys fd addr len w))"
  by (auto simp: bind_call_def Let_def prod.case_eq_if real_call_keeps fd_ok_def
      intro!: ensure_dgram_ok map_fd_ok split: option.splits sum.splits)

lemma listener_ok: "world_ok w \<Longrightarrow> failures_ok (rc_conns c) \<Longrightarrow> world_ok (snd (open_listener sys local c w))"
  by (simp add: open_listener_def prod.case_eq_if client_ok socket_dgram_ok split: sum.splits)

lemma listen_ok: "world_ok w \<Longrightarrow> world_ok (snd (listen_call lc sys fd backlog w))"
  by (auto simp: listen_call_def prod.case_eq_if real_call_keeps fd_ok_def ensure_client_ok
      intro!: listener_ok map_fd_ok split: option.splits sum.splits)

lemma finish_connect_ok:
  "world_ok w \<Longrightarrow> failures_ok (rc_conns c) \<Longrightarrow> world_ok (snd (finish_connect sys fd remote digis h c w))"
  by (auto simp: finish_connect_def Let_def prod.case_eq_if fd_ok_def
      intro!: client_ok map_fd_ok split: option.splits sum.splits)

lemma connect_ok: "world_ok w \<Longrightarrow> world_ok (snd (connect_call lc sys fd addr len w))"
  by (auto simp: connect_call_def returns_def connect_dgram_def Let_def prod.case_eq_if real_call_keeps fd_ok_def ensure_client_ok
      intro!: client_ok map_fd_ok finish_connect_ok ensure_dgram_ok split: option.splits sum.splits)

lemma adopt_ok: "world_ok w \<Longrightarrow> world_ok (snd (adopt_child lc sys info local addr len w))"
  by (auto simp: adopt_child_def Let_def prod.case_eq_if fd_ok_def intro!: map_fd_ok create_ok split: option.splits)

lemma accept_ok: "world_ok w \<Longrightarrow> world_ok (snd (accept_call lc sys fd addr len w))"
  by (auto simp: accept_call_def Let_def prod.case_eq_if real_call_keeps ensure_client_ok
      intro!: adopt_ok client_ok split: option.splits)

lemma set_option_ok: "fd_ok fd s \<Longrightarrow> fd_ok fd (set_option optname v s)"
  by (simp add: fd_ok_def set_option_def)

lemma so_error_ok: "world_ok w \<Longrightarrow> world_ok (snd (so_error sys fd w))"
  by (auto simp: so_error_def prod.case_eq_if ensure_client_ok intro!: client_ok split: option.splits)

lemma drain_locked_ok:
  "world_ok w \<Longrightarrow> failures_ok (rc_conns c) \<Longrightarrow> world_ok (snd (drain_locked sys n h inner c w)) \<and>
     failures_ok (rc_conns (fst (drain_locked sys n h inner c w)))"
  by (induction n arbitrary: c w) (simp_all add: prod.case_eq_if Let_def client_ok)

lemma out_flush_ok:
  "world_ok w \<Longrightarrow> failures_ok (rc_conns c) \<Longrightarrow> world_ok (snd (out_flush sys h c w)) \<and> failures_ok (rc_conns (fst (out_flush sys h c w)))"
  by (simp add: out_flush_def drain_locked_ok split: option.splits)

lemma send_ordered_ok: "world_ok w \<Longrightarrow> failures_ok (rc_conns c) \<Longrightarrow> world_ok (snd (snd (send_ordered sys h data c w)))"
  by (auto simp: send_ordered_def prod.case_eq_if out_flush_ok intro!: client_ok split: sum.splits)

lemma ax25_send_ok: "world_ok w \<Longrightarrow> world_ok (snd (ax25_send sys fd data w))"
  by (auto simp: ax25_send_def prod.case_eq_if ensure_client_ok intro!: send_ordered_ok split: option.splits sum.splits)

lemma dgram_send_ok: "world_ok w \<Longrightarrow> world_ok (snd (ax25_dgram_send sys fd app dest destlen w))"
  using ensure_client_ok [of "snd (ensure_dgram_handle sys fd w)" sys] ensure_dgram_ok [of w sys fd]
  by (simp add: ax25_dgram_send_def Let_def prod.case_eq_if client_ok split: option.splits sum.splits)

lemma reader_turn_ok: "world_ok w \<Longrightarrow> world_ok (reader_turn sys w)"
proof (cases "w_client w")
  case (Some c)
  assume ok: "world_ok w"
  then have "failures_ok (rc_conns c)" using Some by (simp add: world_ok_def)
  then have "world_ok (snd (snd (on_client (\<lambda>c. ((), reader_step (y_api sys) (y_sink sys) c)) c w)))"
    by (intro on_client_ok) (simp_all add: failures_operations(13) ok)
  then show ?thesis using Some by (simp add: reader_turn_def prod.case_eq_if)
qed (simp add: reader_turn_def)

lemma orphan_turn_ok: "world_ok (orphan_turn sys i w) = world_ok w"
  by (simp add: orphan_turn_def world_ok_def Let_def)

lemma dgram_loop_ok: "world_ok w \<Longrightarrow> world_ok (snd (dgram_recv_loop lc sys n h nb pid buf len src srclen w))"
  by (cases nb; induction n arbitrary: w; subst dgram_recv_loop.simps)
     (simp_all add: Let_def prod.case_eq_if reader_turn_ok split: dgram_outcome.splits)

lemma dgram_recv_ok: "world_ok w \<Longrightarrow> world_ok (snd (ax25_dgram_recv lc sys n fd buf len flags src srclen w))"
  by (simp add: ax25_dgram_recv_def Let_def prod.case_eq_if ensure_dgram_ok dgram_loop_ok split: sum.splits)

lemma flush_each_ok: "world_ok w \<Longrightarrow> failures_ok (rc_conns c) \<Longrightarrow> world_ok (flush_each sys hs c w)"
  by (induction hs arbitrary: c w) (simp_all add: prod.case_eq_if out_flush_ok)

lemma proc_step_ok: "proc_step lc sys w w' \<Longrightarrow> world_ok w \<Longrightarrow> world_ok w'"
proof (induction rule: proc_step.induct)
  case (ps_socket w d t p)
  then show ?case by (simp add: socket_call_def Let_def prod.case_eq_if real_call_keeps create_ok split: option.splits)
next
  case (ps_getsockopt w fd level optname optval olen)
  then show ?case by (simp add: getsockopt_call_def prod.case_eq_if real_call_keeps so_error_ok split: option.splits)
next
  case (ps_setsockopt w fd level optname optval len)
  then show ?case by (auto simp: setsockopt_call_def real_call_keeps intro!: map_fd_ok set_option_ok split: option.splits)
next
  case (ps_close w fd)
  then show ?case by (auto simp: close_call_def Let_def prod.case_eq_if real_call_keeps ensure_client_ok
      intro!: destroy_ok client_ok split: option.splits)
next
  case (ps_outbound w ready)
  then show ?case using ensure_client_ok [of w sys] by (simp add: outbound_turn_def prod.case_eq_if flush_each_ok split: option.splits)
qed (simp_all add: bind_ok listen_ok connect_ok accept_ok getsockname_call_def getpeername_call_def read_call_fd_def recv_call_def
    recvfrom_call_def write_call_fd_def send_call_def sendto_call_def select_call_def poll_call_def finished_def prod.case_eq_if
    real_call_keeps dgram_recv_ok dgram_send_ok ax25_send_ok reader_turn_ok orphan_turn_ok flusher_turn_def split: option.splits)

section \<open>Options and addresses\<close>

lemma le32_le_bytes: "le32 (le_bytes v @ rest) = v"
proof (rule bit_word_eqI)
  fix i assume "i < LENGTH(32)"
  then consider "i < 8" | "8 \<le> i" "i < 16" | "16 \<le> i" "i < 24" | "24 \<le> i" "i < 32" by fastforce
  then show "bit (le32 (le_bytes v @ rest)) i = bit v i"
    by cases (auto simp: le32_def le_bytes_def bit_simps)
qed

lemma get_set_option:
  "optname \<in> {AX25_WINDOW, AX25_PACLEN, AX25_T1, AX25_T2, AX25_T3, AX25_N2, AX25_EXTSEQ} \<Longrightarrow> get_option optname (set_option optname v s) = v"
  "get_option AX25_PIDINCL (set_option AX25_PIDINCL v s) = (if v = 0 then 0 else 1)"
  "optname \<noteq> other \<Longrightarrow> get_option other (set_option optname v s) = get_option other s"
  by (auto simp: get_option_def set_option_def AX25_WINDOW_def AX25_PACLEN_def AX25_T1_def AX25_T2_def AX25_T3_def AX25_N2_def
      AX25_EXTSEQ_def AX25_PIDINCL_def)

lemma pid_round_trip: "dgram_payload p (dgram_wire p app) = app"
  by (simp add: dgram_payload_def dgram_wire_def)

lemma read_write_call:
  assumes "valid_base p" and "ssid < 16" and "size_of_sockaddr_ax25 \<le> n" and "9 \<le> m"
  shows "read_call (fst (write_call pad (call_text p ssid) (Some mem) (Some n))) m = Some (call_text p ssid)"
proof -
  have "mem_call (take size_of_sockaddr_ax25 (sockaddr_bytes (encode (call_text p ssid)) pad 0) @ rest) = encode (call_text p ssid)" for rest
    by (simp add: mem_call_def sockaddr_bytes_def size_of_sockaddr_ax25_def)
  moreover have "decode (encode (call_text p ssid)) = call_text p ssid" using ipose_codec.round_trip [OF assms(1,2)] by simp
  ultimately show ?thesis using assms(3,4) by (simp add: read_call_def write_call_def Let_def min_absorb2)
qed

lemma wait_connected_result:
  assumes "wait_connected api snk h timed st = (r, st')" and "failures_ok (rc_conns st)"
  shows "r = Some (Inr ()) \<Longrightarrow> connect_result h st' = Some (Inr ())" and "r = Some (Inl e) \<Longrightarrow> e \<noteq> 0"
proof -
  have "(r = Some (Inr ()) \<longrightarrow> connect_result h st' = Some (Inr ())) \<and> (r = Some (Inl e) \<longrightarrow> e \<noteq> 0)"
    if "wait_connected_for api snk h timed n st = (r, st')" "failures_ok (rc_conns st)" for n st
    using that
  proof (induction n arbitrary: st)
    case 0
    then show ?case by (subst (asm) wait_connected_for.simps)
       (auto simp: connect_result_def conn_result_def failures_ok_def ECONNRESET_def ETIMEDOUT_def split: option.splits conn_phase.splits if_splits)
  next
    case (Suc n)
    have "failures_ok (rc_conns (reader_step api snk st))" using Suc.prems(2) failures_operations(13) by blast
    from Suc.prems Suc.IH [OF _ this] show ?case by (simp only: wait_connected_for.simps [of api snk h timed "Suc n" st])
       (auto simp: connect_result_def conn_result_def failures_ok_def ECONNRESET_def ETIMEDOUT_def split: option.splits conn_phase.splits if_splits)
  qed
  moreover have "failures_ok (rc_conns (snd (next_wait st)))" using assms(2) by (simp add: next_wait_def split: list.splits)
  ultimately show "r = Some (Inr ()) \<Longrightarrow> connect_result h st' = Some (Inr ())" "r = Some (Inl e) \<Longrightarrow> e \<noteq> 0"
    using assms(1) by (auto simp: wait_connected_def prod.case_eq_if)
qed

lemma finish_connect_outcome:
  assumes "finish_connect sys fd remote digis h c w = (r, w')" and "failures_ok (rc_conns c)" and "w_fds w fd = Some s"
  shows "(r = Some 0 \<and> (\<exists>s' c'. w_fds w' fd = Some s' \<and> fs_handle s' = Some h \<and> fs_remote s' = Some remote \<and>
       w_client w' = Some c' \<and> connect_result h c' = Some (Inr ()) \<and> sh_out (w_shared w') h \<noteq> None)) \<or>
     (r = Some (-1) \<and> w_errno w' \<noteq> 0)"
proof -
  let ?w1 = "map_fd fd (\<lambda>s. s\<lparr>fs_handle := Some h, fs_remote := Some remote, fs_digis := digis\<rparr>) w"
  let ?w2 = "map_shared (\<lambda>sh. sh\<lparr>sh_pump := pump_register h (fs_inner_fd s) (sh_pump sh)\<rparr>) ?w1"
  show ?thesis
  proof (cases "is_nonblocking sys fd ?w2")
    case True
    then show ?thesis using assms(1,3) by (auto simp: finish_connect_def Let_def prod.case_eq_if EINPROGRESS_def)
  next
    case False
    obtain oc c' w3 where oc: "on_client (wait_connected (y_api sys) (y_sink sys) h True) c ?w2 = (oc, c', w3)" using prod_cases3 by blast
    then have wc: "wait_connected (y_api sys) (y_sink sys) h True (c\<lparr>rc_sink := w_shared ?w2\<rparr>) = (oc, c')"
      and w3: "w_client w3 = Some c'" "w_fds w3 = w_fds ?w2"
      using on_client_keeps [of "wait_connected (y_api sys) (y_sink sys) h True" c ?w2] by (auto simp: prod_eq_iff)
    have res: "oc = Some (Inr ()) \<Longrightarrow> connect_result h c' = Some (Inr ())" "\<And>e. oc = Some (Inl e) \<Longrightarrow> e \<noteq> 0" "oc \<noteq> None"
      using wait_connected_result [OF wc] assms(2) wait_connected_timed [of "y_api sys" "y_sink sys" h "c\<lparr>rc_sink := w_shared ?w2\<rparr>"] wc by auto
    then obtain v where v: "oc = Some v" by blast
    have f: "finish_connect sys fd remote digis h c w = (case v of
          Inr _ \<Rightarrow> (Some 0, map_shared (\<lambda>sh. sh\<lparr>sh_out := out_register h (fs_inner_fd s) (sh_out sh)\<rparr>) w3)
        | Inl e \<Rightarrow> (Some (-1), set_errno e w3))"
      using False assms(3) oc v by (auto simp: finish_connect_def Let_def prod.case_eq_if split: sum.splits)
    show ?thesis
    proof (cases v)
      case (Inl e)
      then show ?thesis using f assms(1) res(2) v by auto
    next
      case (Inr u)
      then show ?thesis using f assms(1,3) res(1) v w3
        by (auto simp: map_fd_def out_register_def split: option.splits)
    qed
  qed
qed

text \<open>Connecting again on the same socket replaces its handle but leaves the receive entry of the first one:
  after the descriptor is torn down, the pump still holds it with the closed end of the socketpair.\<close>

lemma retry_leaves_entry:
  assumes "w_fds w fd = Some s" and "fs_handle s = Some g" and "ps_handles (sh_pump (w_shared w)) g = Some e"
    and "pr_inner_fd e = fs_inner_fd s" and "h \<noteq> g" and "is_nonblocking sys fd w"
    and "finish_connect sys fd remote digis h c w = (r, w1)" and "w2 = destroy_ax25_fd sys fd w1"
  shows "w_fds w2 fd = None \<and> ps_handles (sh_pump (w_shared w2)) g = Some e \<and>
    sh_kernel (w_shared w2) = k_close (y_ops sys) (fs_app_fd s) (k_close (y_ops sys) (pr_inner_fd e) (sh_kernel (w_shared w1)))"
proof -
  let ?s = "s\<lparr>fs_handle := Some h, fs_remote := Some remote, fs_digis := digis\<rparr>"
  have nb: "is_nonblocking sys fd (map_shared (\<lambda>sh. sh\<lparr>sh_pump := pump_register h (fs_inner_fd s) (sh_pump sh)\<rparr>)
      (map_fd fd (\<lambda>s. s\<lparr>fs_handle := Some h, fs_remote := Some remote, fs_digis := digis\<rparr>) w))"
    using assms(6) by (simp add: is_nonblocking_def)
  have gate: "sh_pump (resolve_connect_gate ops h' sh) = sh_pump sh" "sh_pump (arm_connect_gate ops h' a i sh) = sh_pump sh"
    for ops :: "'b kernel" and h' a i sh
    by (simp_all add: resolve_connect_gate_def arm_connect_gate_def split: option.splits)
  have w1: "w_fds w1 fd = Some ?s" "sh_pump (w_shared w1) = pump_register h (fs_inner_fd s) (sh_pump (w_shared w))"
    using assms(1,7) nb by (auto simp: finish_connect_def Let_def prod.case_eq_if map_fd_def gate)
  then have "ps_handles (sh_pump (w_shared w1)) g = Some e" using assms(3,5) by (simp add: pump_register_def Let_def)
  then show ?thesis using w1(1) assms(4,5,8)
    by (simp add: destroy_ax25_fd_def forget_handle_def pump_unregister_def Let_def)
qed

section \<open>Which descriptors the entries name\<close>













section \<open>Readers left behind\<close>



section \<open>Properties\<close>

text \<open>C9 (the process invariant). From any state in which it holds, whatever calls the application makes and
  whatever the background threads do in between, the descriptor table is keyed by the
  application's descriptors, every listener has a handle and every failed connect has a non-zero
  reason.\<close>

theorem process_invariant:
  assumes "(proc_step lc sys)\<^sup>*\<^sup>* w w'" and "world_ok w"
  shows "world_ok w'"
  using assms by (induction rule: rtranclp_induct) (auto dest: proc_step_ok)

theorem process_invariant_witness:
  "world_ok (snd (socket_call zero_libc (sample_sys 9) AF_AX25_INT SOCK_DGRAM 0 (empty_world 9 [])))"
proof -
  have "(proc_step zero_libc (sample_sys 9))\<^sup>*\<^sup>* (empty_world 9 []) (snd (socket_call zero_libc (sample_sys 9) AF_AX25_INT SOCK_DGRAM 0 (empty_world 9 [])))"
    using ps_socket by (rule r_into_rtranclp)
  from process_invariant [OF this] show ?thesis by (simp add: world_ok_def empty_world_def)
qed

text \<open>C6 (what connect reports). On a stream socket \<open>connect\<close> returns, since its wait has a timeout. It returns 0 only when the
  engine has reported the link up for the handle now stored in the descriptor, and then bypassed
  output of that handle is being forwarded; otherwise it returns -1 with a non-zero \<^verbatim>\<open>errno\<close>.\<close>

theorem connect_outcome:
  assumes "world_ok w" and "is_ax25_fd fd w" and "\<not> is_dgram_fd fd w" and "connect_call lc sys fd addr len w = (r, w')"
  shows "(r = Some 0 \<and> (\<exists>s h c. w_fds w' fd = Some s \<and> fs_handle s = Some h \<and> fs_remote s = read_call addr len \<and>
       w_client w' = Some c \<and> connect_result h c = Some (Inr ()) \<and> sh_out (w_shared w') h \<noteq> None)) \<or>
     (r = Some (-1) \<and> w_errno w' \<noteq> 0)"
proof -
  obtain s where s: "w_fds w fd = Some s" using assms(2) by (auto simp: is_ax25_fd_def)
  show ?thesis
  proof (cases "read_call addr len")
    case None
    then show ?thesis using assms(2,4) by (auto simp: connect_call_def returns_def EINVAL_def)
  next
    case (Some remote)
    obtain x w1 where e: "ensure_client sys w = (x, w1)" by (cases "ensure_client sys w")
    show ?thesis
    proof (cases x)
      case None
      then show ?thesis using assms(2-4) Some e by (auto simp: connect_call_def returns_def ECONNREFUSED_def Let_def)
    next
      case (Some c)
      let ?f = "open_connect (y_api sys) (y_sink sys) (src_call sys (fd_field fd fs_local w)) remote (read_digipeaters addr len)"
      obtain oc c2 w2 where oc: "on_client ?f c w1 = (oc, c2, w2)" using prod_cases3 by blast
      have ok: "world_ok w2" "failures_ok (rc_conns c2)" "w_fds w2 fd = Some s"
        using ensure_client_ok [OF assms(1), of sys] e Some on_client_ok [where f = ?f and w = w1 and c = c, OF failures_operations(8)] on_client_keeps(1) [of ?f c w1] oc s
        by (auto simp: prod_eq_iff)
      show ?thesis
      proof (cases oc)
        case (Inl err)
        then have "to_errno err \<noteq> 0" using open_connect_errno [of "y_api sys" "y_sink sys"] on_client_keeps(3,4) [of ?f c w1] oc
          by (metis fst_conv prod.collapse snd_conv)
        then show ?thesis using assms(2-4) \<open>read_call addr len = Some remote\<close> e Some oc Inl
          by (auto simp: connect_call_def returns_def Let_def)
      next
        case (Inr res)
        have "(r, w') = finish_connect sys fd remote (read_digipeaters addr len) (or_handle res) c2 w2"
          using assms(2-4) \<open>read_call addr len = Some remote\<close> e Some oc Inr by (simp add: connect_call_def Let_def)
        then show ?thesis using finish_connect_outcome [OF _ ok(2,3)] \<open>read_call addr len = Some remote\<close> by metis
      qed
    qed
  qed
qed

theorem connect_outcome_witness:
  "\<exists>s h c. w_fds (snd (connect_call zero_libc (sample_sys 9) 100 (Some (replicate 16 0x82)) 16
       (snd (socket_call zero_libc (sample_sys 9) AF_AX25_INT SOCK_SEQPACKET 0 (empty_world 9 [ipose_dial [[1], [3]] [1, 1]]))))) 100 = Some s \<and>
     fs_handle s = Some h \<and> w_client (snd (connect_call zero_libc (sample_sys 9) 100 (Some (replicate 16 0x82)) 16
       (snd (socket_call zero_libc (sample_sys 9) AF_AX25_INT SOCK_SEQPACKET 0 (empty_world 9 [ipose_dial [[1], [3]] [1, 1]]))))) = Some c \<and>
     connect_result h c = Some (Inr ())"
proof -
  let ?w = "snd (socket_call zero_libc (sample_sys 9) AF_AX25_INT SOCK_SEQPACKET 0 (empty_world 9 [ipose_dial [[1], [3]] [1, 1]]))"
  let ?r = "connect_call zero_libc (sample_sys 9) 100 (Some (replicate 16 0x82)) 16 ?w"
  have "world_ok (empty_world 9 ds)" for ds by (simp add: world_ok_def empty_world_def)
  then have ok: "world_ok ?w" using proc_step_ok [OF ps_socket] by blast
  have fd: "is_ax25_fd 100 ?w" "\<not> is_dgram_fd 100 ?w" and z: "fst ?r = Some 0" by code_simp+
  from connect_outcome [OF ok fd, of zero_libc "sample_sys 9" "Some (replicate 16 0x82)" 16 "fst ?r" "snd ?r"] z
  show ?thesis by auto
qed

text \<open>C12 (the non-blocking connect idiom). When the open of a non-blocking socket was accepted, \<open>connect\<close>
  fails with \<^verbatim>\<open>EINPROGRESS\<close>. When it returns, and the link was not resolved, the socket is not writable
  and its gate is armed; if the outcome was there when the gate had been armed, the gate is open again:
  the socket is writable, empty, and its bypassed output is forwarded. Received data is not touched.\<close>

theorem nonblocking_connect:
  assumes "socket_kernel (y_ops sys) wrote shut pipe pair room" and "w_fds w fd = Some s" and "is_nonblocking sys fd w"
    and "k = sh_kernel (w_shared w)" and "pair k (fs_app_fd s) = Some (fs_inner_fd s)" and "fs_app_fd s \<noteq> fs_inner_fd s"
    and "\<not> shut k (fs_app_fd s)" and "pipe k (fs_app_fd s) = []"
    and "room (k_set_sndbuf (y_ops sys) (fs_app_fd s) GATE_CHUNK k) (fs_app_fd s) \<le> k_fuel (y_ops sys)"
    and "finish_connect sys fd remote digis h c w = (r, w')" and "k' = sh_kernel (w_shared w')"
  shows "r = Some (-1) \<and> w_errno w' = EINPROGRESS \<and> pipe k' (fs_inner_fd s) = pipe k (fs_inner_fd s) \<and>
    (if connect_result h c = None then room k' (fs_app_fd s) = 0 \<and> sh_gates (w_shared w') h = Some (fs_inner_fd s)
     else 0 < room k' (fs_app_fd s) \<and> pipe k' (fs_app_fd s) = [] \<and> sh_gates (w_shared w') h = None \<and> sh_out (w_shared w') h \<noteq> None)"
proof -
  let ?s0 = "(w_shared w)\<lparr>sh_pump := pump_register h (fs_inner_fd s) (sh_pump (w_shared w))\<rparr>"
  let ?s1 = "arm_connect_gate (y_ops sys) h (fs_app_fd s) (fs_inner_fd s) ?s0"
  let ?s2 = "resolve_connect_gate (y_ops sys) h ?s1"
  have nb: "is_nonblocking sys fd (map_shared (\<lambda>sh. sh\<lparr>sh_pump := pump_register h (fs_inner_fd s) (sh_pump sh)\<rparr>)
      (map_fd fd (\<lambda>s. s\<lparr>fs_handle := Some h, fs_remote := Some remote, fs_digis := digis\<rparr>) w))"
    using assms(3) by (simp add: is_nonblocking_def)
  have w': "r = Some (-1)" "w_errno w' = EINPROGRESS" "w_shared w' = (if connect_result h c = None then ?s1 else ?s2)"
    using assms(2,10) nb by (auto simp: finish_connect_def Let_def prod.case_eq_if)
  have g: "room (sh_kernel ?s1) (fs_app_fd s) = 0" "pipe (sh_kernel ?s1) (fs_inner_fd s) = pipe k (fs_inner_fd s)"
    "pipe (sh_kernel ?s2) (fs_app_fd s) = []" "0 < room (sh_kernel ?s2) (fs_app_fd s)" "sh_gates ?s2 h = None"
    "sh_out ?s2 = out_register h (fs_inner_fd s) (sh_out (w_shared w))" "pipe (sh_kernel ?s2) (fs_inner_fd s) = pipe k (fs_inner_fd s)"
    using gate_cycle [OF assms(1), of ?s0 "fs_app_fd s" "fs_inner_fd s" ?s1 h ?s2] assms(4-9) by simp_all
  have "sh_gates ?s1 h = Some (fs_inner_fd s)" by (simp add: arm_connect_gate_def)
  moreover have "out_register h (fs_inner_fd s) m h \<noteq> None" for m by (simp add: out_register_def split: option.splits)
  ultimately show ?thesis using w' g assms(11) by simp
qed

theorem nonblocking_connect_witness:
  "sh_gates (w_shared (snd (finish_connect (sample_sys 1024) 100 [] [] 42 (sample_conn [] [] (sample_shared 9))
      (map_shared (\<lambda>s. s\<lparr>sh_kernel := (sh_kernel s)\<lparr>ux_nonblock := (\<lambda>fd. True)\<rparr>\<rparr>) (sample_world 9 [] []))))) 42 = Some 101"
proof -
  let ?w = "map_shared (\<lambda>s. s\<lparr>sh_kernel := (sh_kernel s)\<lparr>ux_nonblock := (\<lambda>fd. True)\<rparr>\<rparr>) (sample_world 9 [] [])"
  let ?c = "sample_conn [] [] (sample_shared 9)" and ?s = "(new_fd_state 100 101 False)\<lparr>fs_handle := Some 42\<rparr>"
  let ?k = "sh_kernel (w_shared ?w)" and ?r = "finish_connect (sample_sys 1024) 100 [] [] 42 ?c ?w"
  have s: "w_fds ?w 100 = Some ?s" "is_nonblocking (sample_sys 1024) 100 ?w" "connect_result 42 ?c = None"
    by (simp_all add: sample_world_def is_nonblocking_def sample_sys_def unix_kernel_def connect_result_def sample_conn_def
        new_client_def conn_result_def)
  have sk: "socket_kernel (y_ops (sample_sys 1024)) ux_wrote ux_shut ux_pipe ux_pair ux_room"
    using unix_socket.socket_kernel_axioms [of 1024] by (simp add: sample_sys_def)
  have k: "ux_pair ?k (fs_app_fd ?s) = Some (fs_inner_fd ?s)" "fs_app_fd ?s \<noteq> fs_inner_fd ?s" "\<not> ux_shut ?k (fs_app_fd ?s)"
    "ux_pipe ?k (fs_app_fd ?s) = []"
    "ux_room (k_set_sndbuf (y_ops (sample_sys 1024)) (fs_app_fd ?s) GATE_CHUNK ?k) (fs_app_fd ?s) \<le> k_fuel (y_ops (sample_sys 1024))"
    by (simp_all add: sample_world_def sample_shared_def ux_socketpair_def empty_unix_def Let_def ux_pair_def ux_pipe_def ux_room_def
        sample_sys_def unix_kernel_def GATE_CHUNK_def new_fd_state_def)
  have "?r = (fst ?r, snd ?r)" by simp
  from nonblocking_connect [OF sk s(1,2) refl k this refl] s(3) show ?thesis by (simp add: new_fd_state_def)
qed

text \<open>C15 (accepted children). When a child waits on a listening socket, \<open>accept\<close> takes the first one: it gives
  a new descriptor that carries the child's handle, its remote callsign and its local callsign, or
  the listener's when the engine sent none; the descriptor is registered to receive, with what had
  arrived early, and to forward; the peer address is the remote callsign; the other children stay.\<close>

theorem accept_child:
  assumes "w_fds w fd = Some s" and "fs_handle s = Some l" and "w_client w = Some c" and "\<not> rc_closed c"
    and "rc_accepts c l = Some (a # q)" and "k_socketpair (y_ops sys) (sh_kernel (w_shared w)) = (Some (app, inner), k)"
    and "accept_call lc sys fd addr len w = (r, w')"
  shows "\<exists>x c'. r = Some x \<and> r_ret x = app \<and>
    w_fds w' = (w_fds w)(app \<mapsto> (new_fd_state app inner False)\<lparr>fs_handle := Some (ai_child_handle a), fs_remote := ai_remote a,
      fs_local := (if ai_local a = None then fs_local s else ai_local a)\<rparr>) \<and>
    sh_pump (w_shared w') = pump_register (ai_child_handle a) inner (sh_pump (w_shared w)) \<and>
    sh_out (w_shared w') = out_register (ai_child_handle a) inner (sh_out (w_shared w)) \<and>
    w_client w' = Some c' \<and> rc_accepts c' = (rc_accepts c)(l \<mapsto> q) \<and>
    (\<forall>p n. ai_remote a = Some (call_text p n) \<and> valid_base p \<and> n < 16 \<and> addr \<noteq> None \<and> (\<exists>m \<ge> size_of_sockaddr_ax25. len = Some m) \<longrightarrow>
       read_call (r_addr x) size_of_sockaddr_ax25 = Some (call_text p n))"
proof -
  have e: "ensure_client sys w = (Some c, w)" using assms(3,4) by (simp add: ensure_client_def)
  have pop: "accept_pop l (rc_accepts c) = (Some a, (rc_accepts c)(l \<mapsto> q))" using assms(5) by (simp add: accept_pop_def)
  define w1 where "w1 = (if is_nonblocking sys fd w then snd (snd (on_client (try_accept l) c w))
      else snd (snd (on_client (wait_accept (y_api sys) (y_sink sys) l False) c w)))"
  have w1: "w_shared w1 = w_shared w" "w_fds w1 = w_fds w" "\<exists>c'. w_client w1 = Some c' \<and> rc_accepts c' = (rc_accepts c)(l \<mapsto> q)"
    and acc: "(Some (fst (adopt_child lc sys a (fs_local s) addr len w1)), snd (adopt_child lc sys a (fs_local s) addr len w1)) = (r, w')"
    using assms(1,2,7) e pop
    by (auto simp: w1_def accept_call_def is_ax25_fd_def Let_def on_client_def try_accept_def wait_accept_def next_wait_def
        wait_accept_for.simps prod.case_eq_if split: list.splits if_splits)
  let ?x = "fst (adopt_child lc sys a (fs_local s) addr len w1)"
  have cr: "create_ax25_fd sys False w1 = (Some app, map_shared (sh_kernel_update (\<lambda>_. k))
      (w1\<lparr>w_fds := (w_fds w1)(app \<mapsto> new_fd_state app inner False)\<rparr>))"
    using assms(6) w1 by (simp add: create_ax25_fd_def)
  have ad: "r_ret ?x = app \<and> r_addr ?x = (case ai_remote a of None \<Rightarrow> addr | Some remote \<Rightarrow> fst (write_call (lc_pad lc) remote addr len))"
    by (simp add: adopt_child_def cr Let_def bare_def prod.case_eq_if split: option.splits)
  have "read_call (r_addr ?x) size_of_sockaddr_ax25 = Some (call_text p n)"
    if "ai_remote a = Some (call_text p n) \<and> valid_base p \<and> n < 16 \<and> addr \<noteq> None \<and> (\<exists>m \<ge> size_of_sockaddr_ax25. len = Some m)" for p n
    using that ad read_write_call [of p n] by (auto simp: size_of_sockaddr_ax25_def)
  moreover have "w_fds w' = (w_fds w)(app \<mapsto> (new_fd_state app inner False)\<lparr>fs_handle := Some (ai_child_handle a), fs_remote := ai_remote a,
      fs_local := (if ai_local a = None then fs_local s else ai_local a)\<rparr>)"
    "sh_pump (w_shared w') = pump_register (ai_child_handle a) inner (sh_pump (w_shared w))"
    "sh_out (w_shared w') = out_register (ai_child_handle a) inner (sh_out (w_shared w))"
    "\<exists>c'. w_client w' = Some c' \<and> rc_accepts c' = (rc_accepts c)(l \<mapsto> q)"
    using acc w1 by (auto simp: adopt_child_def cr Let_def map_fd_def new_fd_state_def prod.case_eq_if split: option.splits)
  ultimately show ?thesis using acc ad by blast
qed

theorem accept_child_witness:
  "\<exists>s. w_fds (snd (accept_call zero_libc (sample_sys 9) 100 (Some (replicate 16 0)) (Some 16) listening_world)) 102 = Some s \<and>
     fs_handle s = Some 10 \<and> fs_inner_fd s = 103"
proof -
  let ?r = "accept_call zero_libc (sample_sys 9) 100 (Some (replicate 16 0)) (Some 16) listening_world"
  let ?c = "(sample_conn [] [] (sample_shared 9))\<lparr>rc_accepts := [42 \<mapsto> [\<lparr>ai_child_handle = 10, ai_remote = Some (ascii ''M0ABC-2''), ai_local = None\<rparr>]]\<rparr>"
  have w: "w_fds listening_world 100 = Some ((new_fd_state 100 101 False)\<lparr>fs_handle := Some 42\<rparr>)" "w_client listening_world = Some ?c"
    "\<not> rc_closed ?c" "rc_accepts ?c 42 = Some [\<lparr>ai_child_handle = 10, ai_remote = Some (ascii ''M0ABC-2''), ai_local = None\<rparr>]"
    by (simp_all add: listening_world_def sample_world_def sample_conn_def new_client_def)
  have p: "\<exists>k. k_socketpair (y_ops (sample_sys 9)) (sh_kernel (w_shared listening_world)) = (Some (102, 103), k)"
    by (simp add: listening_world_def sample_world_def sample_sys_def unix_kernel_def ux_socketpair_def sample_shared_def empty_unix_def Let_def)
  have r: "?r = (fst ?r, snd ?r)" by simp
  from p obtain k where "k_socketpair (y_ops (sample_sys 9)) (sh_kernel (w_shared listening_world)) = (Some (102, 103), k)" by blast
  from accept_child [OF w(1) _ w(2-4) this r] show ?thesis by (auto simp: new_fd_state_def)
qed

text \<open>C26 (socket options). On an AX.25 socket, reading an option back gives the value that was set: window,
  packet length, the timers, the retry count and extended sequence numbers exactly,
  \<^verbatim>\<open>AX25_PIDINCL\<close> as 0 or 1. Setting one option changes no other option and no other descriptor.\<close>

theorem option_round_trip:
  assumes "w_fds w fd = Some s" and "4 \<le> optlen" and "4 \<le> n"
    and "setsockopt_call lc fd SOL_AX25 optname (Some (le_bytes v @ rest)) optlen w = (r, w')"
  shows "r = 0 \<and>
    getsockopt_call lc sys fd SOL_AX25 other (Some mem) (Some n) w' =
      (if other \<noteq> optname then fst (getsockopt_call lc sys fd SOL_AX25 other (Some mem) (Some n) w)
       else if optname = AX25_PIDINCL then put_int (if v = 0 then 0 else 1) mem
       else put_int (if optname \<in> {AX25_WINDOW, AX25_PACLEN, AX25_T1, AX25_T2, AX25_T3, AX25_N2, AX25_EXTSEQ} then v else 0) mem, w') \<and>
    (fd' \<noteq> fd \<longrightarrow> w_fds w' fd' = w_fds w fd')"
proof -
  have l: "SOL_AX25 \<noteq> SOL_SOCKET" by (simp add: SOL_AX25_def SOL_SOCKET_def)
  have w': "r = 0" "w' = map_fd fd (set_option optname v) w"
    using assms(1,2,4) by (auto simp: setsockopt_call_def is_ax25_fd_def le32_le_bytes)
  then have s': "w_fds w' = (w_fds w)(fd \<mapsto> set_option optname v s)" using assms(1) by (simp add: map_fd_def)
  have unknown: "optname \<notin> {AX25_WINDOW, AX25_PACLEN, AX25_T1, AX25_T2, AX25_T3, AX25_N2, AX25_EXTSEQ} \<Longrightarrow>
      optname \<noteq> AX25_PIDINCL \<Longrightarrow> get_option optname (set_option optname v s) = 0" by (simp add: get_option_def)
  have get: "getsockopt_call lc sys fd SOL_AX25 other (Some mem) (Some n) w' = (put_int (get_option other (set_option optname v s)) mem, w')"
    "fst (getsockopt_call lc sys fd SOL_AX25 other (Some mem) (Some n) w) = put_int (get_option other s) mem"
    using assms(1,3) s' l by (simp_all add: getsockopt_call_def is_ax25_fd_def)
  show ?thesis using w' s' get get_set_option(1) [of optname v s] get_set_option(2) [of v s] get_set_option(3) [of optname other v s] unknown by (cases "other = optname") auto
qed

theorem option_round_trip_witness:
  "getsockopt_call zero_libc (sample_sys 9) 100 SOL_AX25 AX25_T1 (Some [7, 7, 7, 7]) (Some 4)
     (snd (setsockopt_call zero_libc 100 SOL_AX25 AX25_T1 (Some (le_bytes 300 @ [])) 4 (sample_world 9 [] []))) =
   (put_int 300 [7, 7, 7, 7], snd (setsockopt_call zero_libc 100 SOL_AX25 AX25_T1 (Some (le_bytes 300 @ [])) 4 (sample_world 9 [] [])))"
proof -
  let ?w = "sample_world 9 [] []"
  let ?r = "setsockopt_call zero_libc 100 SOL_AX25 AX25_T1 (Some (le_bytes 300 @ [])) 4 ?w"
  have "w_fds ?w 100 = Some ((new_fd_state 100 101 False)\<lparr>fs_handle := Some 42\<rparr>)" by (simp add: sample_world_def)
  from option_round_trip [OF this, of 4 4 zero_libc AX25_T1 300 "[]" "fst ?r" "snd ?r"] show ?thesis
    by (simp add: AX25_T1_def AX25_PIDINCL_def)
qed

text \<open>C22 (receiving a datagram). With a datagram waiting, \<open>recvfrom\<close> returns at once. What a peer sent with
  the same setting of \<^verbatim>\<open>AX25_PIDINCL\<close> arrives as the peer's application gave it, cut to the
  buffer; bytes of the buffer behind it keep their value, and the source address reads back as the
  sender's callsign.\<close>

theorem datagram_received:
  assumes "w_fds w fd = Some s" and "fs_dgram s" and "fs_handle s = Some h"
    and "sh_dgram (w_shared w) h = Some e" and "de_queue e = dg # q" and "dg_data dg = dgram_wire (fs_pidincl s) app"
    and "dg_source dg = Some (call_text p ssid)" and "valid_base p" and "ssid < 16" and "size_of_sockaddr_ax25 \<le> m"
    and "recvfrom_call lc sys n fd buf len flags (Some src) (Some m) w = (r, w')"
  shows "\<exists>x. r = Some x \<and> r_ret x = int (min (length app) len) \<and>
    r_buf x = take len app @ drop (min (length app) len) buf \<and> read_call (r_addr x) size_of_sockaddr_ax25 = Some (call_text p ssid) \<and>
    dgram_view (sh_dgram (w_shared w')) h = Some (q, de_eof e)"
proof -
  have h: "ensure_dgram_handle sys fd w = (Inr h, w)" using assms(1,3) by (simp add: ensure_dgram_handle_def)
  have "is_dgram_fd fd w" using assms(1,2) by (simp add: is_dgram_fd_def)
  then obtain nb where r: "dgram_recv_loop lc sys n h nb (fs_pidincl s) buf len (Some src) (Some m) w = (r, w')"
    using assms(1,11) h by (auto simp: recvfrom_call_def ax25_dgram_recv_def Let_def)
  obtain g d k where g: "dgram_recv_one (y_ops sys) h (sh_dgram (w_shared w), sh_kernel (w_shared w)) = (g, d, k)" using prod_cases3 by blast
  then have "g = Got dg" "dgram_view d h = Some (q, de_eof e)"
    using assms(4,5) by (auto simp: dgram_recv_one_def Let_def dgram_view_def split: prod.splits if_splits)
  with g have one: "dgram_recv_one (y_ops sys) h (sh_dgram (w_shared w), sh_kernel (w_shared w)) = (Got dg, d, k)"
    "dgram_view d h = Some (q, de_eof e)" by simp_all
  have x: "r = Some (deliver_dgram lc (fs_pidincl s) buf len (Some src) (Some m) dg)" "sh_dgram (w_shared w') = d"
    using r one(1) by (auto simp: dgram_recv_loop.simps [of lc sys n] Let_def)
  have "read_call (r_addr (deliver_dgram lc (fs_pidincl s) buf len (Some src) (Some m) dg)) size_of_sockaddr_ax25 = Some (call_text p ssid)"
    using assms(7-10) read_write_call [of p ssid m size_of_sockaddr_ax25 "lc_pad lc" src]
    by (simp add: deliver_dgram_def Let_def prod.case_eq_if size_of_sockaddr_ax25_def)
  then show ?thesis using x one(2) assms(6)
    by (simp add: deliver_dgram_def Let_def prod.case_eq_if pid_round_trip min.commute)
qed

theorem datagram_received_witness:
  "\<exists>x. fst (recvfrom_call zero_libc (sample_sys 9) 0 100 [9, 9, 9, 9] 4 0 (Some (replicate 16 0)) (Some 16) (dgram_world (dgram_wire False [1, 2]))) = Some x \<and>
     r_ret x = 2 \<and> r_buf x = [1, 2, 9, 9] \<and> read_call (r_addr x) 16 = Some (ascii ''M0ABC-2'')"
proof -
  let ?w = "dgram_world (dgram_wire False [1, 2])" and ?s = "(new_fd_state 100 101 True)\<lparr>fs_handle := Some 42\<rparr>"
  let ?r = "recvfrom_call zero_libc (sample_sys 9) 0 100 [9, 9, 9, 9] 4 0 (Some (replicate 16 0)) (Some 16) ?w"
  have v: "valid_base (ascii ''M0ABC'')" by code_simp
  have c: "call_text (ascii ''M0ABC'') 2 = ascii ''M0ABC-2''" by (simp add: call_text_def ascii_def dec_digits.simps)
  have s: "w_fds ?w 100 = Some ?s" "fs_dgram ?s" "fs_handle ?s = Some 42" "\<not> fs_pidincl ?s" by (simp_all add: dgram_world_def new_fd_state_def)
  have z: "size_of_sockaddr_ax25 = 16" by (simp add: size_of_sockaddr_ax25_def)
  have "?r = (fst ?r, snd ?r)" by simp
  from datagram_received [OF s(1-3) _ _ _ _ v _ _ this, of "\<lparr>de_app_fd = 100, de_inner_fd = 101,
       de_queue = [\<lparr>dg_source = Some (ascii ''M0ABC-2''), dg_data = dgram_wire False [1, 2]\<rparr>], de_signaled = True, de_eof = False\<rparr>"
      "\<lparr>dg_source = Some (ascii ''M0ABC-2''), dg_data = dgram_wire False [1, 2]\<rparr>" "[]" "[1, 2]" 2] c s(4) z
  show ?thesis by (auto simp: dgram_world_def)
qed

text \<open>C23 (sending a datagram). When a send on a datagram socket that has its handle, with the client connected,
  succeeds, it reports the whole buffer, and the wire has grown by one frame: the \<^verbatim>\<open>sendto\<close> request from the
  local callsign to the destination given, or without one to the connected remote, whose data begin with the PID, the application's own or 0xF0.\<close>

theorem datagram_on_wire:
  assumes "w_fds w fd = Some s" and "fs_dgram s" and "fs_handle s = Some h" and "w_client w = Some c" and "\<not> rc_closed c"
    and "read_call dest destlen = Some remote \<or> dest = None \<and> fs_remote s = Some remote" and "sendto_call lc sys fd app flags dest destlen w = (r, w')" and "0 \<le> r"
  shows "r = int (length app) \<and> (\<exists>body c'. w_client w' = Some c' \<and> tcp_sent (rc_writer c') = tcp_sent (rc_writer c) @ frame_bytes body \<and>
    to_vec (y_api sys) (req_fields (SendToReq (ascii ''sendto'') (1 + rc_next_id c) h remote (src_call sys (fs_local s))
      (to_wire_string (if fs_pidincl s then app else 0xF0 # app)))) = Some body)"
proof -
  have e: "ensure_client sys w = (Some c, w)" using assms(4,5) by (simp add: ensure_client_def)
  have h: "ensure_dgram_handle sys fd w = (Inr h, w)" using assms(1,3) by (simp add: ensure_dgram_handle_def)
  have d: "is_dgram_fd fd w" using assms(1,2) by (simp add: is_dgram_fd_def)
  have dest: "dgram_dest dest destlen (fs_remote s) = Inr remote" using assms(6) by (auto simp: dgram_dest_def read_call_def)
  let ?wire = "dgram_wire (fs_pidincl s) app" and ?c = "c\<lparr>rc_sink := w_shared w\<rparr>"
  let ?mk = "\<lambda>rid. SendToReq (ascii ''sendto'') rid h remote (src_call sys (fs_local s)) (to_wire_string ?wire)"
  obtain v c' where call: "rhp_call (y_api sys) (y_sink sys) ?mk ?c = (v, c')"
    by (cases "rhp_call (y_api sys) (y_sink sys) ?mk ?c")
  have out: "(r, w') = (if ?wire = [] then fail EINVAL w else case v of
      Inr _ \<Rightarrow> (int (length app), w\<lparr>w_client := Some c', w_shared := rc_sink c'\<rparr>)
    | Inl x \<Rightarrow> fail (to_errno x) (w\<lparr>w_client := Some c', w_shared := rc_sink c'\<rparr>))"
    using assms(1,7) e h d dest call
    by (auto simp: sendto_call_def ax25_dgram_send_def Let_def on_client_def rhp_sendto_def ignore_reply_def split: sum.splits)
  then obtain f where v: "v = Inr f" "r = int (length app)" "w_client w' = Some c'"
    using assms(8) by (cases v) (auto simp: fail_def split: if_splits)
  obtain body where "to_vec (y_api sys) (req_fields (?mk (1 + rc_next_id c))) = Some body"
    "tcp_sent (rc_writer c') = tcp_sent (rc_writer c) @ frame_bytes body"
    using rhp_call_ok [of "y_api sys" "y_sink sys" ?mk ?c f c'] call v(1) by auto
  then show ?thesis using v by (auto simp: dgram_wire_def AX25_PID_NO_L3_def cong: if_cong)
qed

theorem datagram_on_wire_witness:
  "\<exists>c'. w_client (snd (sendto_call zero_libc (sample_sys 9) 100 [1, 2] 0 (Some (replicate 16 0x82)) 16 (dgram_world []))) = Some c' \<and>
     (\<exists>body. tcp_sent (rc_writer c') = frame_bytes body)"
proof -
  let ?w = "dgram_world []" and ?s = "(new_fd_state 100 101 True)\<lparr>fs_handle := Some 42\<rparr>" and ?c = "sample_conn [[1]] [1] (sample_shared 9)"
  let ?r = "sendto_call zero_libc (sample_sys 9) 100 [1, 2] 0 (Some (replicate 16 0x82)) 16 ?w"
  have s: "w_fds ?w 100 = Some ?s" "fs_dgram ?s" "fs_handle ?s = Some 42" "w_client ?w = Some ?c" "\<not> rc_closed ?c" "tcp_sent (rc_writer ?c) = []"
    by (simp_all add: dgram_world_def new_fd_state_def sample_world_def sample_conn_def new_client_def)
  have d: "\<exists>x. read_call (Some (replicate 16 0x82)) 16 = Some x" by (simp add: read_call_def)
  have p: "0 \<le> fst ?r" by code_simp
  have r: "?r = (fst ?r, snd ?r)" by simp
  from d obtain x where "read_call (Some (replicate 16 0x82)) 16 = Some x" by blast
  from datagram_on_wire [OF s(1-5) disjI1 [OF this] r p] s(6) show ?thesis by auto
qed





text \<open>A lost transport is not reported. When the connection to the engine drops during a non-blocking
  connect, its failure is recorded in the client that is gone; reading \<^verbatim>\<open>SO_ERROR\<close> asks a fresh
  client, or none, and gives 0, as for a successful connect.\<close>

theorem so_error_after_drop:
  assumes "w_fds w fd = Some s" and "w_client w = Some c" and "rc_closed c" and "y_user sys = None" and "4 \<le> n"
  shows "fst (getsockopt_call lc sys fd SOL_SOCKET SO_ERROR (Some mem) (Some n) w) = put_int 0 mem"
proof -
  have "fst (so_error sys fd w) = 0"
    using assms(1-4)
    by (auto simp: so_error_def ensure_client_def dial_client_def connect_to_def on_client_def take_connect_error_def take_error_def
        new_client_def Let_def split: option.splits list.splits sum.splits prod.splits)
  then show ?thesis using assms(1,5) by (simp add: getsockopt_call_def is_ax25_fd_def prod.case_eq_if)
qed

theorem so_error_after_drop_witness:
  "fst (getsockopt_call zero_libc (sample_sys 9) 100 SOL_SOCKET SO_ERROR (Some [9, 9, 9, 9]) (Some 4)
     ((sample_world 9 [] [])\<lparr>w_client := Some (reader_exit NullSink ((sample_conn [] [] (sample_shared 9))\<lparr>rc_conns := [42 \<mapsto> Pending]\<rparr>))\<rparr>))
   = put_int 0 [9, 9, 9, 9]"
  by (rule so_error_after_drop [where c = "reader_exit NullSink ((sample_conn [] [] (sample_shared 9))\<lparr>rc_conns := [42 \<mapsto> Pending]\<rparr>)"])
     (simp_all add: sample_world_def sample_sys_def reader_exit_def)

end
