(* ===== verification/Monitor.thy ===== *)
theory Monitor
  imports Prelude
begin

text \<open>
  Rust's \<^verbatim>\<open>Mutex\<close> and \<^verbatim>\<open>Condvar\<close> as the sources use them: some data under a lock, a flag beside it that
  is read and stored without the lock, threads that wait until the data or the flag lets them go,
  and threads that change the data and notify. The steps are those of the threads between
  two accesses to shared state, so that every interleaving is a run of \<open>monitor_step\<close>.

  The question is the lost wakeup: can a thread sleep although what it waits for has happened and
  nobody will wake it? The locale \<open>monitor_calls\<close> has the answer once for all monitors of the
  sources: not if every operation that can end a wait notifies afterwards, and a store to the flag
  is followed by a visit to the lock before the notification.
\<close>

section \<open>Definitions\<close>

text \<open>A waiting call: what it looks for in the data (and takes out of it), what it returns when the
  flag is set (nothing, if it does not look at the flag), what it returns when its time is up, and
  whether it has a timeout.\<close>

record ('m, 'r) wait_call =
  wc_poll :: "'m \<Rightarrow> 'r option \<times> 'm"
  wc_closed :: "'r option"
  wc_late :: 'r
  wc_timed :: bool

text \<open>Where a waiting thread is: before the lock, holding it with the data not ready, holding it with
  the flag read as unset, asleep, notified, past its timeout, or back with a result.\<close>

datatype 'r wait_pc = Outside | Entering | Holding | Parking | Parked | Woken | Late | Returned 'r

text \<open>What the other threads do: an access to the data under the lock, which may notify before it
  lets go; a notification without the lock; a store to the flag.\<close>

datatype 'm monitor_op = Locked "'m \<Rightarrow> 'm \<times> bool" | NotifyAll | StoreFlag

record ('m, 'r) monitor =
  mo_data :: 'm
  mo_flag :: bool
  mo_lock :: "nat option"
  mo_pc :: "nat \<Rightarrow> 'r wait_pc"
  mo_todo :: "nat \<Rightarrow> 'm monitor_op list"

definition wake_all :: "(nat \<Rightarrow> 'r wait_pc) \<Rightarrow> nat \<Rightarrow> 'r wait_pc" where
  "wake_all pcs = (\<lambda>i. if pcs i = Parked then Woken else pcs i)"

definition set_pc :: "nat \<Rightarrow> 'r wait_pc \<Rightarrow> ('m, 'r) monitor \<Rightarrow> ('m, 'r) monitor" where
  "set_pc i pc s = s\<lparr>mo_pc := (mo_pc s)(i := pc)\<rparr>"

text \<open>The next step of a waiting thread; \<open>None\<close> while it cannot go on by itself.\<close>

definition wait_step :: "(nat \<Rightarrow> ('m, 'r) wait_call) \<Rightarrow> nat \<Rightarrow> ('m, 'r) monitor \<Rightarrow> ('m, 'r) monitor option" where
  "wait_step calls i s =
     (case mo_pc s i of
        Holding \<Rightarrow>
          (case wc_closed (calls i) of
             Some r \<Rightarrow> if mo_flag s then Some (set_pc i (Returned r) (s\<lparr>mo_lock := None\<rparr>)) else Some (set_pc i Parking s)
           | None \<Rightarrow> Some (set_pc i Parking s))
      | Parking \<Rightarrow> Some (set_pc i Parked (s\<lparr>mo_lock := None\<rparr>))
      | pc \<Rightarrow>
          if (pc = Entering \<or> pc = Woken \<or> pc = Late) \<and> mo_lock s = None
          then (case wc_poll (calls i) (mo_data s) of
              (Some r, m) \<Rightarrow> Some (set_pc i (Returned r) (s\<lparr>mo_data := m\<rparr>))
            | (None, _) \<Rightarrow>
                if pc = Late then Some (set_pc i (Returned (wc_late (calls i))) s)
                else Some (set_pc i Holding (s\<lparr>mo_lock := Some i\<rparr>)))
          else None)"

definition op_step :: "nat \<Rightarrow> ('m, 'r) monitor \<Rightarrow> ('m, 'r) monitor option" where
  "op_step j s =
     (case mo_todo s j of
        [] \<Rightarrow> None
      | Locked f # p \<Rightarrow>
          if mo_lock s \<noteq> None then None
          else (case f (mo_data s) of (m, notify) \<Rightarrow>
            Some (s\<lparr>mo_data := m, mo_todo := (mo_todo s)(j := p), mo_pc := (if notify then wake_all (mo_pc s) else mo_pc s)\<rparr>))
      | NotifyAll # p \<Rightarrow> Some (s\<lparr>mo_todo := (mo_todo s)(j := p), mo_pc := wake_all (mo_pc s)\<rparr>)
      | StoreFlag # p \<Rightarrow> Some (s\<lparr>mo_todo := (mo_todo s)(j := p), mo_flag := True\<rparr>))"

text \<open>Besides these, a timeout ends a sleep, and a sleep may end for no reason at all; \<open>spurious\<close>
  says whether the latter happens.\<close>

inductive monitor_step :: "bool \<Rightarrow> (nat \<Rightarrow> ('m, 'r) wait_call) \<Rightarrow> ('m, 'r) monitor \<Rightarrow> ('m, 'r) monitor \<Rightarrow> bool"
  for spurious :: bool and calls :: "nat \<Rightarrow> ('m, 'r) wait_call" where
  ms_wait: "wait_step calls i s = Some s' \<Longrightarrow> monitor_step spurious calls s s'"
| ms_op: "op_step j s = Some s' \<Longrightarrow> monitor_step spurious calls s s'"
| ms_timeout: "mo_pc s i = Parked \<Longrightarrow> wc_timed (calls i) \<Longrightarrow> monitor_step spurious calls s (set_pc i Late s)"
| ms_spurious: "spurious \<Longrightarrow> mo_pc s i = Parked \<Longrightarrow> monitor_step spurious calls s (set_pc i Woken s)"

abbreviation monitor_run :: "bool \<Rightarrow> (nat \<Rightarrow> ('m, 'r) wait_call) \<Rightarrow> ('m, 'r) monitor \<Rightarrow> ('m, 'r) monitor \<Rightarrow> bool" where
  "monitor_run spurious calls \<equiv> (monitor_step spurious calls)\<^sup>*\<^sup>*"

text \<open>The start: the first \<open>n\<close> threads are about to wait, the others have their operations to do.\<close>

definition monitor_start :: "nat \<Rightarrow> 'm \<Rightarrow> (nat \<Rightarrow> 'm monitor_op list) \<Rightarrow> ('m, 'r) monitor" where
  "monitor_start n m todo =
     \<lparr>mo_data = m, mo_flag = False, mo_lock = None, mo_pc = (\<lambda>i. if i < n then Entering else Outside), mo_todo = todo\<rparr>"

text \<open>A run by a given schedule, and what a program does to the data when nothing interferes.\<close>

datatype monitor_turn = Waiter nat | Thread nat

fun monitor_exec :: "(nat \<Rightarrow> ('m, 'r) wait_call) \<Rightarrow> monitor_turn list \<Rightarrow> ('m, 'r) monitor \<Rightarrow> ('m, 'r) monitor option" where
  "monitor_exec calls [] s = Some s"
| "monitor_exec calls (Waiter i # ts) s = (case wait_step calls i s of None \<Rightarrow> None | Some s' \<Rightarrow> monitor_exec calls ts s')"
| "monitor_exec calls (Thread j # ts) s = (case op_step j s of None \<Rightarrow> None | Some s' \<Rightarrow> monitor_exec calls ts s')"

fun run_ops :: "'m monitor_op list \<Rightarrow> 'm \<Rightarrow> 'm" where
  "run_ops [] m = m"
| "run_ops (Locked f # p) m = run_ops p (fst (f m))"
| "run_ops (_ # p) m = run_ops p m"

subsection \<open>Disciplined programs\<close>

text \<open>An access to the data that ends nobody's wait unless it notifies.\<close>

definition quiet :: "(nat \<Rightarrow> ('m, 'r) wait_call) \<Rightarrow> ('m \<Rightarrow> 'm \<times> bool) \<Rightarrow> bool" where
  "quiet calls f \<longleftrightarrow> (\<forall>m i. \<not> snd (f m) \<and> fst (wc_poll (calls i) m) = None \<longrightarrow>
     fst (wc_poll (calls i) (fst (f m))) = None)"

fun relocks :: "'m monitor_op list \<Rightarrow> bool" where
  "relocks [] = False"
| "relocks (Locked f # p) = (NotifyAll \<in> set p)"
| "relocks (_ # p) = relocks p"

fun disciplined :: "(nat \<Rightarrow> ('m, 'r) wait_call) \<Rightarrow> 'm monitor_op list \<Rightarrow> bool" where
  "disciplined calls [] = True"
| "disciplined calls (Locked f # p) = ((quiet calls f \<or> NotifyAll \<in> set p) \<and> disciplined calls p)"
| "disciplined calls (NotifyAll # p) = disciplined calls p"
| "disciplined calls (StoreFlag # p) = (relocks p \<and> disciplined calls p)"

text \<open>What holds in every reachable state: only a thread inside its critical section has the lock; one
  that has decided to sleep, or sleeps, has nothing to return for, or a notification is still to
  come.\<close>

definition nothing_yet :: "('m, 'r) wait_call \<Rightarrow> 'm \<Rightarrow> bool" where
  "nothing_yet c m \<longleftrightarrow> fst (wc_poll c m) = None"

definition notice_due :: "('m, 'r) monitor \<Rightarrow> bool" where
  "notice_due s \<longleftrightarrow> (\<exists>j. NotifyAll \<in> set (mo_todo s j))"

definition relock_due :: "('m, 'r) monitor \<Rightarrow> bool" where
  "relock_due s \<longleftrightarrow> (\<exists>j. relocks (mo_todo s j))"

definition monitor_ok :: "(nat \<Rightarrow> ('m, 'r) wait_call) \<Rightarrow> ('m, 'r) monitor \<Rightarrow> bool" where
  "monitor_ok calls s \<longleftrightarrow>
     (\<forall>j. disciplined calls (mo_todo s j)) \<and>
     (\<forall>i. mo_pc s i \<in> {Holding, Parking} \<longleftrightarrow> mo_lock s = Some i) \<and>
     (\<forall>i. mo_pc s i \<in> {Holding, Parking} \<longrightarrow> nothing_yet (calls i) (mo_data s)) \<and>
     (\<forall>i. mo_pc s i = Parking \<and> mo_flag s \<and> wc_closed (calls i) \<noteq> None \<longrightarrow> relock_due s) \<and>
     (\<forall>i. mo_pc s i = Parked \<and> \<not> notice_due s \<longrightarrow>
        nothing_yet (calls i) (mo_data s) \<and> \<not> (mo_flag s \<and> wc_closed (calls i) \<noteq> None))"

text \<open>What is left of a wait whose thread needs nobody else any more.\<close>

fun pc_rank :: "'r wait_pc \<Rightarrow> nat" where
  "pc_rank Entering = 2"
| "pc_rank Woken = 2"
| "pc_rank Late = 1"
| "pc_rank Holding = 1"
| "pc_rank _ = 0"

text \<open>The other threads are done and the flag is set: only the waiters are left.\<close>

definition winding_down :: "(nat \<Rightarrow> ('m, 'r) wait_call) \<Rightarrow> nat \<Rightarrow> ('m, 'r) monitor \<Rightarrow> bool" where
  "winding_down calls n s \<longleftrightarrow> monitor_ok calls s \<and> mo_flag s \<and> (\<forall>j. mo_todo s j = []) \<and>
     (\<forall>i. mo_pc s i = Outside \<longleftrightarrow> n \<le> i)"

section \<open>Programs\<close>

lemma relocks_notifies: "relocks p \<Longrightarrow> NotifyAll \<in> set p"
  by (induction p rule: relocks.induct) auto

lemma relocks_append: "relocks q \<Longrightarrow> relocks (p @ q)"
  by (induction p rule: relocks.induct) (auto dest: relocks_notifies)

lemma disciplined_append:
  "disciplined calls p \<Longrightarrow> disciplined calls q \<Longrightarrow> disciplined calls (p @ q)"
proof (induction calls p rule: disciplined.induct)
  case (4 calls p)
  then show ?case using relocks_notifies by (induction p rule: relocks.induct) auto
qed auto

lemma disciplined_concat: "(\<And>p. p \<in> set ps \<Longrightarrow> disciplined calls p) \<Longrightarrow> disciplined calls (concat ps)"
  by (induction ps) (simp_all add: disciplined_append)

lemma disciplined_quiet:
  "(\<And>f. f \<in> set fs \<Longrightarrow> quiet calls f) \<Longrightarrow> disciplined calls (map Locked fs)"
  by (induction fs) auto

section \<open>No wakeup is lost\<close>

lemma wait_step_simps:
  "mo_pc s i = Outside \<Longrightarrow> wait_step calls i s = None"
  "mo_pc s i = Parked \<Longrightarrow> wait_step calls i s = None"
  "mo_pc s i = Returned r \<Longrightarrow> wait_step calls i s = None"
  by (simp_all add: wait_step_def)

lemma wait_step_cases:
  assumes "wait_step calls i s = Some s'"
  obtains
    (found) m r where "mo_pc s i \<in> {Entering, Woken, Late}" "mo_lock s = None"
      "wc_poll (calls i) (mo_data s) = (Some r, m)" "s' = set_pc i (Returned r) (s\<lparr>mo_data := m\<rparr>)"
  | (gives_up) "mo_pc s i = Late" "mo_lock s = None" "nothing_yet (calls i) (mo_data s)"
      "s' = set_pc i (Returned (wc_late (calls i))) s"
  | (missed) "mo_pc s i \<in> {Entering, Woken}" "mo_lock s = None" "nothing_yet (calls i) (mo_data s)"
      "s' = set_pc i Holding (s\<lparr>mo_lock := Some i\<rparr>)"
  | (closed) r where "mo_pc s i = Holding" "mo_flag s" "wc_closed (calls i) = Some r"
      "s' = set_pc i (Returned r) (s\<lparr>mo_lock := None\<rparr>)"
  | (decides) "mo_pc s i = Holding" "\<not> (mo_flag s \<and> wc_closed (calls i) \<noteq> None)" "s' = set_pc i Parking s"
  | (sleeps) "mo_pc s i = Parking" "s' = set_pc i Parked (s\<lparr>mo_lock := None\<rparr>)"
  using assms unfolding wait_step_def nothing_yet_def
  by (cases "mo_pc s i") (auto split: if_splits option.splits prod.splits)

lemma op_step_cases:
  assumes "op_step j s = Some s'"
  obtains
    (locked) f p where "mo_todo s j = Locked f # p" "mo_lock s = None"
      "s' = s\<lparr>mo_data := fst (f (mo_data s)), mo_todo := (mo_todo s)(j := p),
              mo_pc := (if snd (f (mo_data s)) then wake_all (mo_pc s) else mo_pc s)\<rparr>"
  | (notify) p where "mo_todo s j = NotifyAll # p" "s' = s\<lparr>mo_todo := (mo_todo s)(j := p), mo_pc := wake_all (mo_pc s)\<rparr>"
  | (store) p where "mo_todo s j = StoreFlag # p" "s' = s\<lparr>mo_todo := (mo_todo s)(j := p), mo_flag := True\<rparr>"
  using assms unfolding op_step_def by (auto split: list.splits monitor_op.splits if_splits prod.splits)

lemma wake_all_pc [simp]:
  "wake_all pcs i \<noteq> Parked"
  "wake_all pcs i = Holding \<longleftrightarrow> pcs i = Holding"
  "wake_all pcs i = Parking \<longleftrightarrow> pcs i = Parking"
  by (simp_all add: wake_all_def)

lemma set_pc_sel [simp]:
  "mo_pc (set_pc i pc s) = (mo_pc s)(i := pc)" "mo_data (set_pc i pc s) = mo_data s"
  "mo_flag (set_pc i pc s) = mo_flag s" "mo_lock (set_pc i pc s) = mo_lock s" "mo_todo (set_pc i pc s) = mo_todo s"
  by (simp_all add: set_pc_def)

lemma dues_todo [simp]:
  "notice_due (set_pc i pc s) \<longleftrightarrow> notice_due s" "relock_due (set_pc i pc s) \<longleftrightarrow> relock_due s"
  "notice_due (s\<lparr>mo_data := m\<rparr>) \<longleftrightarrow> notice_due s" "relock_due (s\<lparr>mo_data := m\<rparr>) \<longleftrightarrow> relock_due s"
  "notice_due (s\<lparr>mo_lock := l\<rparr>) \<longleftrightarrow> notice_due s" "relock_due (s\<lparr>mo_lock := l\<rparr>) \<longleftrightarrow> relock_due s"
  by (simp_all add: notice_due_def relock_due_def)

lemma relock_notice: "relock_due s \<Longrightarrow> notice_due s"
  using relocks_notifies unfolding relock_due_def notice_due_def by blast

text \<open>The duties after the first operation of a thread is done.\<close>

lemma notice_due_rest:
  assumes "mo_todo s j = a # p" and "a \<noteq> NotifyAll" and "mo_todo s' = (mo_todo s)(j := p)"
  shows "notice_due s' \<longleftrightarrow> notice_due s"
  using assms unfolding notice_due_def by (metis fun_upd_apply set_ConsD list.set_intros(2))

lemma relock_due_rest:
  assumes "mo_todo s j = a # p" and "\<And>f. a \<noteq> Locked f" and "mo_todo s' = (mo_todo s)(j := p)"
  shows "relock_due s' \<longleftrightarrow> relock_due s"
proof -
  have "relocks (a # p) = relocks p" using assms(2) by (cases a) auto
  then have "relocks (mo_todo s' k) = relocks (mo_todo s k)" for k using assms(1,3) by simp
  then show ?thesis by (simp add: relock_due_def)
qed

text \<open>The parts of the invariant.\<close>

lemma monitor_okI:
  assumes "\<And>j. disciplined calls (mo_todo s j)"
    and "\<And>i. mo_pc s i \<in> {Holding, Parking} \<longleftrightarrow> mo_lock s = Some i"
    and "\<And>i. mo_pc s i \<in> {Holding, Parking} \<Longrightarrow> nothing_yet (calls i) (mo_data s)"
    and "\<And>i. mo_pc s i = Parking \<Longrightarrow> mo_flag s \<Longrightarrow> wc_closed (calls i) \<noteq> None \<Longrightarrow> relock_due s"
    and "\<And>i. mo_pc s i = Parked \<Longrightarrow> \<not> notice_due s \<Longrightarrow>
      nothing_yet (calls i) (mo_data s) \<and> \<not> (mo_flag s \<and> wc_closed (calls i) \<noteq> None)"
  shows "monitor_ok calls s"
  using assms unfolding monitor_ok_def by blast

lemma monitor_okD:
  assumes "monitor_ok calls s"
  shows "disciplined calls (mo_todo s j)"
    and "mo_pc s i \<in> {Holding, Parking} \<longleftrightarrow> mo_lock s = Some i"
    and "mo_pc s i \<in> {Holding, Parking} \<Longrightarrow> nothing_yet (calls i) (mo_data s)"
    and "mo_pc s i = Parking \<Longrightarrow> mo_flag s \<Longrightarrow> wc_closed (calls i) \<noteq> None \<Longrightarrow> relock_due s"
    and "mo_pc s i = Parked \<Longrightarrow> \<not> notice_due s \<Longrightarrow>
      nothing_yet (calls i) (mo_data s) \<and> \<not> (mo_flag s \<and> wc_closed (calls i) \<noteq> None)"
  using assms unfolding monitor_ok_def by blast+

lemma sole_holder:
  assumes "monitor_ok calls s" and "mo_pc s i = Holding \<or> mo_pc s i = Parking" and "k \<noteq> i"
  shows "mo_pc s k \<noteq> Holding" "mo_pc s k \<noteq> Parking"
  using monitor_okD(2) [OF assms(1), of i] monitor_okD(2) [OF assms(1), of k] assms(2,3) by auto

lemma leave_critical_ok:
  assumes ok: "monitor_ok calls s" and pc: "mo_pc s i = Holding \<or> mo_pc s i = Parking"
    and new: "pc \<noteq> Holding" "pc \<noteq> Parking"
    and sleep: "pc = Parked \<Longrightarrow> \<not> notice_due s \<Longrightarrow> \<not> (mo_flag s \<and> wc_closed (calls i) \<noteq> None)"
  shows "monitor_ok calls (set_pc i pc (s\<lparr>mo_lock := None\<rparr>))" (is "monitor_ok calls ?t")
proof (rule monitor_okI)
  have others: "mo_pc ?t k \<notin> {Holding, Parking}" for k using sole_holder [OF ok pc, of k] new by auto
  show "mo_pc ?t k \<in> {Holding, Parking} \<longleftrightarrow> mo_lock ?t = Some k" for k using others [of k] by simp
  show "nothing_yet (calls k) (mo_data ?t)" if "mo_pc ?t k \<in> {Holding, Parking}" for k
    using that others by blast
  show "relock_due ?t" if "mo_pc ?t k = Parking" for k using that others [of k] by simp
  show "nothing_yet (calls k) (mo_data ?t) \<and> \<not> (mo_flag ?t \<and> wc_closed (calls k) \<noteq> None)"
    if "mo_pc ?t k = Parked" "\<not> notice_due ?t" for k
    using that monitor_okD(5) [OF ok, of k] monitor_okD(3) [OF ok, of i] pc sleep by (cases "k = i") simp_all
qed (use monitor_okD(1) [OF ok] in simp)

lemma decide_ok:
  assumes ok: "monitor_ok calls s" and pc: "mo_pc s i = Holding"
    and open': "\<not> (mo_flag s \<and> wc_closed (calls i) \<noteq> None)"
  shows "monitor_ok calls (set_pc i Parking s)" (is "monitor_ok calls ?t")
proof (rule monitor_okI)
  show "mo_pc ?t k \<in> {Holding, Parking} \<longleftrightarrow> mo_lock ?t = Some k" for k
    using monitor_okD(2) [OF ok, of k] pc by (cases "k = i") simp_all
  show "nothing_yet (calls k) (mo_data ?t)" if "mo_pc ?t k \<in> {Holding, Parking}" for k
    using that monitor_okD(3) [OF ok, of k] pc by (cases "k = i") simp_all
  show "relock_due ?t" if "mo_pc ?t k = Parking" "mo_flag ?t" "wc_closed (calls k) \<noteq> None" for k
    using that monitor_okD(4) [OF ok, of k] open' by (cases "k = i") simp_all
  show "nothing_yet (calls k) (mo_data ?t) \<and> \<not> (mo_flag ?t \<and> wc_closed (calls k) \<noteq> None)"
    if "mo_pc ?t k = Parked" "\<not> notice_due ?t" for k
    using that monitor_okD(5) [OF ok, of k] by (cases "k = i") simp_all
qed (use monitor_okD(1) [OF ok] in simp)

text \<open>Calls that wait on the same data do not end each other's waits.\<close>

locale monitor_calls =
  fixes calls :: "nat \<Rightarrow> ('m, 'r) wait_call"
  assumes poll_quiet: "nothing_yet (calls i) m \<Longrightarrow> nothing_yet (calls i) (snd (wc_poll (calls k) m))"
begin

lemma wait_keeps_ok:
  assumes ok: "monitor_ok calls s" and step: "wait_step calls i s = Some s'"
  shows "monitor_ok calls s'"
  using step
proof (cases rule: wait_step_cases)
  case (found m r)
  have kept: "nothing_yet (calls k) m" if "nothing_yet (calls k) (mo_data s)" for k
    using poll_quiet [OF that, of i] found(3) by simp
  show ?thesis
    by (rule monitor_okI; use monitor_okD [OF ok] kept found(1,2) in \<open>auto simp: found(4) split: if_splits\<close>)
next
  case gives_up
  show ?thesis
    by (rule monitor_okI; use monitor_okD [OF ok] gives_up(1,2) in \<open>auto simp: gives_up(4) split: if_splits\<close>)
next
  case missed
  show ?thesis
    by (rule monitor_okI; use monitor_okD [OF ok] missed(1-3) in \<open>auto simp: missed(4) split: if_splits\<close>)
next
  case (closed r)
  show ?thesis unfolding closed(4) using ok closed(1) by (intro leave_critical_ok) simp_all
next
  case decides
  then show ?thesis using ok by (simp add: decide_ok)
next
  case sleeps
  show ?thesis unfolding sleeps(2)
    using ok sleeps(1) monitor_okD(4) [OF ok, of i] relock_notice by (intro leave_critical_ok) blast+
qed

lemma op_keeps_ok:
  assumes ok: "monitor_ok calls s" and step: "op_step j s = Some s'"
  shows "monitor_ok calls s'"
  using step
proof (cases rule: op_step_cases)
  case (locked f p)
  have disc: "disciplined calls (Locked f # p)" using monitor_okD(1) [OF ok, of j] locked(1) by simp
  have due: "notice_due s' \<longleftrightarrow> notice_due s" by (rule notice_due_rest [OF locked(1)]) (simp_all add: locked(3))
  have free: "mo_pc s i \<notin> {Holding, Parking}" for i using monitor_okD(2) [OF ok, of i] locked(2) by simp
  have kept: "nothing_yet (calls i) (fst (f (mo_data s)))"
    if "\<not> notice_due s" "\<not> snd (f (mo_data s))" "nothing_yet (calls i) (mo_data s)" for i
  proof -
    have "NotifyAll \<notin> set (Locked f # p)" using that(1) locked(1) unfolding notice_due_def by metis
    then have "quiet calls f" using disc by simp
    then show ?thesis using that(2,3) by (simp add: quiet_def nothing_yet_def)
  qed
  show ?thesis
  proof (rule monitor_okI)
    show "disciplined calls (mo_todo s' k)" for k using monitor_okD(1) [OF ok, of k] disc locked(3) by simp
    show "mo_pc s' i \<in> {Holding, Parking} \<longleftrightarrow> mo_lock s' = Some i" for i using free [of i] locked by simp
    show "nothing_yet (calls i) (mo_data s')" if "mo_pc s' i \<in> {Holding, Parking}" for i
      using that free [of i] locked by (simp split: if_splits)
    show "relock_due s'" if "mo_pc s' i = Parking" for i using that free [of i] locked by (simp split: if_splits)
    show "nothing_yet (calls i) (mo_data s') \<and> \<not> (mo_flag s' \<and> wc_closed (calls i) \<noteq> None)"
      if "mo_pc s' i = Parked" "\<not> notice_due s'" for i
      using that due kept [of i] monitor_okD(5) [OF ok, of i] locked(3) by (simp split: if_splits)
  qed
next
  case (notify p)
  have due: "relock_due s' \<longleftrightarrow> relock_due s" by (rule relock_due_rest [OF notify(1)]) (simp_all add: notify(2))
  have disc: "disciplined calls p" using monitor_okD(1) [OF ok, of j] notify(1) by simp
  show ?thesis
  proof (rule monitor_okI)
    show "disciplined calls (mo_todo s' k)" for k using monitor_okD(1) [OF ok, of k] disc notify(2) by simp
  qed (use monitor_okD(2-4) [OF ok] notify(2) due in \<open>simp_all\<close>)
next
  case (store p)
  have disc: "relocks p" "disciplined calls p" using monitor_okD(1) [OF ok, of j] store(1) by simp_all
  have due: "relock_due s'" unfolding relock_due_def by (rule exI [of _ j]) (simp add: store(2) disc(1))
  show ?thesis
  proof (rule monitor_okI)
    show "disciplined calls (mo_todo s' k)" for k using monitor_okD(1) [OF ok, of k] disc store(2) by simp
  qed (use monitor_okD(2,3) [OF ok] store(2) due relock_notice [OF due] in \<open>simp_all\<close>)
qed

lemma end_of_sleep_ok:
  assumes ok: "monitor_ok calls s" and "mo_pc s i = Parked" and "pc = Late \<or> pc = Woken"
  shows "monitor_ok calls (set_pc i pc s)"
proof (rule monitor_okI)
  show "mo_pc (set_pc i pc s) k \<in> {Holding, Parking} \<longleftrightarrow> mo_lock (set_pc i pc s) = Some k" for k
    using monitor_okD(2) [OF ok, of k] assms(2,3) by auto
qed (use monitor_okD [OF ok] assms(3) in \<open>auto split: if_splits\<close>)

lemma step_keeps_ok:
  assumes "monitor_step spurious calls s s'" and "monitor_ok calls s"
  shows "monitor_ok calls s'"
  using assms
proof (induction rule: monitor_step.induct)
  case (ms_wait i s s')
  then show ?case by (blast intro: wait_keeps_ok)
next
  case (ms_op j s s')
  then show ?case by (blast intro: op_keeps_ok)
next
  case (ms_timeout s i)
  then show ?case by (blast intro: end_of_sleep_ok)
next
  case (ms_spurious s i)
  then show ?case by (blast intro: end_of_sleep_ok)
qed

lemma run_ok:
  assumes "monitor_run spurious calls (monitor_start n m todo) s" and "\<And>j. disciplined calls (todo j)"
  shows "monitor_ok calls s"
  using assms(1)
proof (induction rule: rtranclp_induct)
  case base
  show ?case using assms(2) by (simp add: monitor_ok_def monitor_start_def)
next
  case (step s s')
  then show ?case by (blast intro: step_keeps_ok)
qed

text \<open>A thread that sleeps while no notification is to come has nothing to return for.\<close>

lemma sleeper_has_nothing:
  assumes "monitor_run spurious calls (monitor_start n m todo) s" and "\<And>j. disciplined calls (todo j)"
    and "\<not> notice_due s" and "mo_pc s i = Parked"
  shows "nothing_yet (calls i) (mo_data s)" and "mo_flag s \<Longrightarrow> wc_closed (calls i) = None"
  using monitor_okD(5) [OF run_ok [OF assms(1,2)] assms(4,3)] by simp_all

lemma winding_down_awake:
  assumes "winding_down calls n s" and "wc_closed (calls i) \<noteq> None"
  shows "mo_pc s i \<noteq> Parked" "mo_pc s i \<noteq> Parking"
proof -
  from assms(1) have ok: "monitor_ok calls s" and "\<not> notice_due s" "\<not> relock_due s" "mo_flag s"
    by (simp_all add: winding_down_def notice_due_def relock_due_def)
  then show "mo_pc s i \<noteq> Parked" "mo_pc s i \<noteq> Parking"
    using monitor_okD(4,5) [OF ok, of i] assms(2) by blast+
qed

lemma winding_down_step:
  assumes wd: "winding_down calls n s" and flags: "\<And>i. wc_closed (calls i) \<noteq> None"
    and step: "monitor_step spurious calls s s'"
  shows "winding_down calls n s'" and "(\<Sum>i<n. pc_rank (mo_pc s' i)) < (\<Sum>i<n. pc_rank (mo_pc s i))"
proof -
  note awake = winding_down_awake [OF wd flags]
  obtain i where i: "wait_step calls i s = Some s'"
    using step wd awake by (cases rule: monitor_step.cases) (auto simp: op_step_def winding_down_def)
  have "\<exists>pc. pc \<noteq> Outside \<and> mo_pc s i \<noteq> Outside \<and> pc_rank pc < pc_rank (mo_pc s i) \<and>
      mo_pc s' = (mo_pc s)(i := pc) \<and> mo_todo s' = mo_todo s \<and> mo_flag s' = mo_flag s"
    using i
  proof (cases rule: wait_step_cases)
    case decides
    then show ?thesis using wd flags by (simp add: winding_down_def)
  next
    case sleeps
    then show ?thesis using awake by blast
  qed auto
  then obtain pc where pc: "pc \<noteq> Outside" "mo_pc s i \<noteq> Outside" "pc_rank pc < pc_rank (mo_pc s i)"
      "mo_pc s' = (mo_pc s)(i := pc)" "mo_todo s' = mo_todo s" "mo_flag s' = mo_flag s" by blast
  have "monitor_ok calls s'" using wait_keeps_ok [OF _ i] wd by (simp add: winding_down_def)
  then show "winding_down calls n s'" using wd pc by (auto simp: winding_down_def)
  have "i < n" using wd pc(2) by (simp add: winding_down_def not_le)
  then show "(\<Sum>i<n. pc_rank (mo_pc s' i)) < (\<Sum>i<n. pc_rank (mo_pc s i))"
    using pc(3,4) by (intro sum_strict_mono_ex1) auto
qed

lemma winding_down_stuck:
  assumes wd: "winding_down calls n s" and flags: "\<And>i. wc_closed (calls i) \<noteq> None"
    and stuck: "\<And>s'. \<not> monitor_step spurious calls s s'" and "i < n"
  shows "\<exists>r. mo_pc s i = Returned r"
proof -
  have none: "wait_step calls k s = None" for k using stuck ms_wait not_None_eq by metis
  have ok: "monitor_ok calls s" using wd by (simp add: winding_down_def)
  have nohold: "mo_pc s k \<noteq> Holding" for k
    using none [of k] by (auto simp: wait_step_def split: option.splits if_splits)
  have free: "mo_lock s = None"
  proof (rule ccontr)
    assume "mo_lock s \<noteq> None"
    then obtain k where "mo_pc s k \<in> {Holding, Parking}" using monitor_okD(2) [OF ok] by auto
    then show False using nohold winding_down_awake(2) [OF wd flags] by auto
  qed
  have "mo_pc s i \<noteq> Outside" using wd \<open>i < n\<close> by (simp add: winding_down_def)
  then show ?thesis
    using none [of i] nohold [of i] free winding_down_awake [OF wd flags, of i]
    by (cases "mo_pc s i") (auto simp: wait_step_def split: option.splits prod.splits)
qed

lemma winding_down_run:
  assumes "(monitor_step spurious calls ^^ k) s s'" and "winding_down calls n s" and "\<And>i. wc_closed (calls i) \<noteq> None"
  shows "winding_down calls n s' \<and> k + (\<Sum>i<n. pc_rank (mo_pc s' i)) \<le> (\<Sum>i<n. pc_rank (mo_pc s i))"
  using assms(1)
proof (induction k arbitrary: s')
  case 0
  then show ?case using assms(2) by simp
next
  case (Suc k)
  then obtain t where t: "(monitor_step spurious calls ^^ k) s t" "monitor_step spurious calls t s'" by auto
  then show ?case using Suc.IH [OF t(1)] winding_down_step [OF _ assms(3) t(2)] by fastforce
qed

end

section \<open>Schedules and threads outside\<close>

lemma monitor_exec_run: "monitor_exec calls ts s = Some s' \<Longrightarrow> monitor_run spurious calls s s'"
proof (induction calls ts s rule: monitor_exec.induct)
  case (2 calls i ts s)
  then show ?case using ms_wait by (fastforce split: option.splits intro: converse_rtranclp_into_rtranclp)
next
  case (3 calls j ts s)
  then show ?case using ms_op by (fastforce split: option.splits intro: converse_rtranclp_into_rtranclp)
qed simp


lemma step_outside:
  assumes "monitor_step spurious calls s s'"
  shows "mo_pc s' i = Outside \<longleftrightarrow> mo_pc s i = Outside"
  using assms
  by (cases rule: monitor_step.cases)
    (auto elim!: wait_step_cases op_step_cases simp: wake_all_def split: if_splits)

lemma run_outside:
  assumes "monitor_run spurious calls (monitor_start n m todo) s"
  shows "mo_pc s i = Outside \<longleftrightarrow> n \<le> i"
  using assms
  by (induction rule: rtranclp_induct) (simp_all add: monitor_start_def step_outside)

lemma step_flag:
  assumes "monitor_step spurious calls s s'" and "mo_flag s \<or> StoreFlag \<in> set (mo_todo s j)"
  shows "mo_flag s' \<or> StoreFlag \<in> set (mo_todo s' j)"
  using assms
  by (cases rule: monitor_step.cases) (auto elim!: wait_step_cases op_step_cases split: if_splits)

text \<open>A thread that is done has stored the flag, if that was among its operations.\<close>

lemma flag_stored:
  assumes "monitor_run spurious calls (monitor_start n m todo) s" and "StoreFlag \<in> set (todo j)" and "mo_todo s j = []"
  shows "mo_flag s"
proof -
  from assms(1) have "mo_flag s \<or> StoreFlag \<in> set (mo_todo s j)"
    by (induction rule: rtranclp_induct) (use assms(2) step_flag in \<open>simp add: monitor_start_def, blast\<close>)
  with assms(3) show ?thesis by simp
qed

lemma pc_ranks_bound: "(\<Sum>i<n. pc_rank (pcs i)) \<le> 2 * n"
proof -
  have "pc_rank pc \<le> 2" for pc :: "'a wait_pc" by (cases pc) simp_all
  then have "(\<Sum>i<n. pc_rank (pcs i)) \<le> (\<Sum>i<n. 2)" by (intro sum_mono)
  then show ?thesis by simp
qed

text \<open>Where every notification is made under the lock, none is ever to come.\<close>

lemma step_todo:
  assumes "monitor_step spurious calls s s'"
  shows "set (mo_todo s' j) \<subseteq> set (mo_todo s j)"
  using assms
  by (cases rule: monitor_step.cases) (auto elim!: wait_step_cases op_step_cases split: if_splits)

lemma no_notice_due:
  assumes "monitor_run spurious calls (monitor_start n m todo) s" and "\<And>j. NotifyAll \<notin> set (todo j)"
  shows "\<not> notice_due s"
proof -
  from assms(1) have "set (mo_todo s j) \<subseteq> set (todo j)" for j
    by (induction rule: rtranclp_induct) (use step_todo in \<open>simp add: monitor_start_def, blast\<close>)
  with assms(2) show ?thesis unfolding notice_due_def by blast
qed

text \<open>A single waiting thread whose data are ready is back or will be with its next step.\<close>

lemma ready_returns:
  assumes ok: "monitor_ok calls s" and only: "\<And>i. mo_pc s i = Outside \<longleftrightarrow> 1 \<le> i"
    and ready: "\<not> nothing_yet (calls 0) (mo_data s)" and "\<not> notice_due s"
  shows "(\<exists>r. mo_pc s 0 = Returned r) \<or> (\<exists>s' r. wait_step calls 0 s = Some s' \<and> mo_pc s' 0 = Returned r)"
proof -
  have "mo_lock s = None"
  proof (rule ccontr)
    assume "mo_lock s \<noteq> None"
    then obtain k where k: "mo_pc s k \<in> {Holding, Parking}" using monitor_okD(2) [OF ok] by auto
    then have "k = 0" using only [of k] by auto
    then show False using monitor_okD(3) [OF ok k] ready by simp
  qed
  moreover have "mo_pc s 0 \<noteq> Parked" "mo_pc s 0 \<notin> {Holding, Parking}"
    using monitor_okD(5) [OF ok, of 0] monitor_okD(3) [OF ok, of 0] ready assms(4) by auto
  ultimately show ?thesis using ready only [of 0]
    by (cases "mo_pc s 0") (auto simp: wait_step_def nothing_yet_def split: prod.splits option.splits)
qed

end
