(* ===== verification/Rhp_Wakeup.thy ===== *)
theory Rhp_Wakeup
  imports Monitor Rhp_Client
begin

text \<open>
  The condition variables of \<^verbatim>\<open>crates/rhpv2/src/client.rs\<close>: \<^verbatim>\<open>ConnRegistry\<close> with \<^verbatim>\<open>wait_connected\<close>, and
  \<^verbatim>\<open>AcceptRegistry\<close> with \<^verbatim>\<open>wait_accept\<close>, as monitors. \<open>Rhp_Client\<close> lets a waiting call see every
  iteration of the reader; here the threads run step by step, and it is shown which waits are
  really woken. The operations of a thread on a registry are its accesses under the lock and
  its notifications, in the order of the code; \<open>conn_push_effect\<close> and its neighbours tie them to
  the reader thread of \<open>Rhp_Client\<close>.
\<close>

section \<open>Definitions\<close>

definition registry_op :: "('m \<Rightarrow> 'm) \<Rightarrow> 'm monitor_op" where
  "registry_op f = Locked (\<lambda>m. (f m, False))"

subsection \<open>Connects\<close>

definition wait_connected_call :: "u64 \<Rightarrow> bool \<Rightarrow> (conn_registry, int + unit) wait_call" where
  "wait_connected_call h timed =
     \<lparr>wc_poll = (\<lambda>m. (conn_result h m, m)), wc_closed = Some (Inl ECONNRESET), wc_late = Inl ETIMEDOUT, wc_timed = timed\<rparr>"

definition mark_connected_ops :: "u64 \<Rightarrow> conn_registry monitor_op list" where
  "mark_connected_ops h = [registry_op (mark_connected h), NotifyAll]"

definition mark_failed_ops :: "u64 \<Rightarrow> int \<Rightarrow> conn_registry monitor_op list" where
  "mark_failed_ops h errno = [registry_op (mark_failed h errno), NotifyAll]"

definition fail_all_pending_ops :: "int \<Rightarrow> conn_registry monitor_op list" where
  "fail_all_pending_ops errno = [registry_op (fail_all_pending errno), NotifyAll]"

definition conn_push_ops :: "'j json_api \<Rightarrow> 'j \<Rightarrow> conn_registry monitor_op list" where
  "conn_push_ops api f =
     (case frame_handle api f of
        None \<Rightarrow> []
      | Some h \<Rightarrow>
          if frame_typ api f = ascii ''status''
          then (if frame_status_flags api f AND STATUS_CONNECTED \<noteq> 0 then mark_connected_ops h else [])
          else if frame_typ api f = ascii ''close''
          then mark_failed_ops h (if frame_errcode api f = 0 then ECONNREFUSED else errcode_to_errno (frame_errcode api f))
          else [])"

definition conn_exit_ops :: "conn_registry monitor_op list" where
  "conn_exit_ops = StoreFlag # fail_all_pending_ops ECONNRESET"

text \<open>The whole reader thread, for the frames that reach \<^verbatim>\<open>dispatch_push\<close>.\<close>

definition reader_conn_ops :: "'j json_api \<Rightarrow> 'j list \<Rightarrow> conn_registry monitor_op list" where
  "reader_conn_ops api fs = concat (map (conn_push_ops api) fs) @ conn_exit_ops"

text \<open>What the application's threads do with the registry.\<close>

datatype conn_access = Arm u64 | PeekResult u64 | TakeErr u64 | ForgetConn u64

fun conn_access_op :: "conn_access \<Rightarrow> conn_registry monitor_op" where
  "conn_access_op (Arm h) = registry_op (set_pending h)"
| "conn_access_op (PeekResult h) = registry_op id"
| "conn_access_op (TakeErr h) = registry_op (\<lambda>m. snd (take_error h m))"
| "conn_access_op (ForgetConn h) = registry_op (conn_forget h)"

definition conn_threads :: "'j json_api \<Rightarrow> 'j list \<Rightarrow> (nat \<Rightarrow> conn_access list) \<Rightarrow> nat \<Rightarrow> conn_registry monitor_op list" where
  "conn_threads api fs accesses j = (case j of 0 \<Rightarrow> reader_conn_ops api fs | Suc k \<Rightarrow> map conn_access_op (accesses k))"

subsection \<open>Accepts\<close>

definition wait_accept_call :: "u64 \<Rightarrow> bool \<Rightarrow> (accept_registry, accept_info option) wait_call" where
  "wait_accept_call l timed =
     \<lparr>wc_poll = (\<lambda>m. case accept_pop l m of (a, m') \<Rightarrow> (map_option Some a, m')), wc_closed = Some None, wc_late = None,
      wc_timed = timed\<rparr>"

definition accept_push_ops :: "'j json_api \<Rightarrow> 'j \<Rightarrow> accept_registry monitor_op list" where
  "accept_push_ops api f =
     (if frame_typ api f = ascii ''accept''
      then (case (frame_handle api f, frame_child api f) of
          (Some listener, Some child) \<Rightarrow>
            [registry_op (accept_push listener
               \<lparr>ai_child_handle = child, ai_remote = frame_remote api f, ai_local = frame_local api f\<rparr>), NotifyAll]
        | _ \<Rightarrow> [])
      else [])"

definition accept_exit_ops :: "accept_registry monitor_op list" where
  "accept_exit_ops = [StoreFlag, NotifyAll]"

definition reader_accept_ops :: "'j json_api \<Rightarrow> 'j list \<Rightarrow> accept_registry monitor_op list" where
  "reader_accept_ops api fs = concat (map (accept_push_ops api) fs) @ accept_exit_ops"

datatype accept_access = TryAccept u64 | ForgetAccepts u64

fun accept_access_op :: "accept_access \<Rightarrow> accept_registry monitor_op" where
  "accept_access_op (TryAccept l) = registry_op (\<lambda>m. snd (accept_pop l m))"
| "accept_access_op (ForgetAccepts l) = registry_op (accept_forget l)"

definition accept_threads :: "accept_registry monitor_op list \<Rightarrow> (nat \<Rightarrow> accept_access list) \<Rightarrow> nat \<Rightarrow>
    accept_registry monitor_op list" where
  "accept_threads reader accesses j = (case j of 0 \<Rightarrow> reader | Suc k \<Rightarrow> map accept_access_op (accesses k))"

section \<open>The reader thread\<close>

lemmas ops_defs = registry_op_def mark_connected_ops_def mark_failed_ops_def fail_all_pending_ops_def

lemma conn_push_effect: "rc_conns (dispatch_push api snk f st) = run_ops (conn_push_ops api f) (rc_conns st)"
  by (simp add: dispatch_push_def push_defs conn_push_ops_def ops_defs Let_def ascii_def split: option.splits)

lemma conn_exit_effect: "rc_conns (reader_exit snk st) = run_ops conn_exit_ops (rc_conns st)"
  by (simp add: reader_exit_def conn_exit_ops_def ops_defs)

lemma accept_push_effect: "rc_accepts (dispatch_push api snk f st) = run_ops (accept_push_ops api f) (rc_accepts st)"
  by (simp add: dispatch_push_def push_defs accept_push_ops_def ops_defs Let_def ascii_def split: option.splits)

lemma accept_exit_effect: "rc_accepts (reader_exit snk st) = run_ops accept_exit_ops (rc_accepts st)"
  by (simp add: reader_exit_def accept_exit_ops_def)

section \<open>Connects are woken\<close>

interpretation connects: monitor_calls "\<lambda>i. wait_connected_call (hs i) (timed i)"
  by unfold_locales (simp add: wait_connected_call_def nothing_yet_def)

lemma conn_accesses_quiet: "conn_access_op a = Locked f \<Longrightarrow> quiet (\<lambda>i. wait_connected_call (hs i) (timed i)) f"
  by (cases a) (auto simp: registry_op_def quiet_def wait_connected_call_def conn_result_def set_pending_def take_error_def
      conn_forget_def split: option.splits conn_phase.splits if_splits)

lemma conn_access_disciplined:
  "disciplined (\<lambda>i. wait_connected_call (hs i) (timed i)) (map conn_access_op as)"
proof (induction as)
  case (Cons a as)
  obtain f where f: "conn_access_op a = Locked f" by (cases a) (simp_all add: registry_op_def)
  show ?case using Cons conn_accesses_quiet [OF f] f by simp
qed simp

lemma reader_conn_disciplined:
  "disciplined (\<lambda>i. wait_connected_call (hs i) (timed i)) (reader_conn_ops api fs)"
  unfolding reader_conn_ops_def
  by (intro disciplined_append disciplined_concat) (auto simp: conn_push_ops_def conn_exit_ops_def ops_defs split: option.splits)

lemma conn_threads_disciplined:
  "disciplined (\<lambda>i. wait_connected_call (hs i) (timed i)) (conn_threads api fs accesses j)"
  by (simp add: conn_threads_def reader_conn_disciplined conn_access_disciplined split: nat.splits)

text \<open>A monitor with a reader that has ended: the waits end by themselves.\<close>

lemma connects_winding_down:
  assumes "monitor_run spurious (\<lambda>i. wait_connected_call (hs i) (timed i)) (monitor_start n m (conn_threads api fs accesses)) s"
    and "\<And>j. mo_todo s j = []"
  shows "winding_down (\<lambda>i. wait_connected_call (hs i) (timed i)) n s"
proof -
  have "StoreFlag \<in> set (conn_threads api fs accesses 0)"
    by (simp add: conn_threads_def reader_conn_ops_def conn_exit_ops_def)
  with assms show ?thesis unfolding winding_down_def
    using connects.run_ok [OF assms(1) conn_threads_disciplined] run_outside [OF assms(1)] flag_stored [OF assms(1)] by blast
qed

text \<open>
  C17 (No connect sleeps on). In every interleaving of any number of threads in \<^verbatim>\<open>wait_connected\<close>, the
  reader thread with whatever frames it gets, and threads that arm, query or forget handles: a
  thread that sleeps while no notification is to come waits for a handle without an outcome, and
  the reader has not closed the client. Once the reader and the others are done, every wait
  ends: at most two steps per thread are left, and where no step is possible all have returned.
\<close>

theorem wait_connected_wakes:
  assumes "monitor_run spurious (\<lambda>i. wait_connected_call (hs i) (timed i)) (monitor_start n m (conn_threads api fs accesses)) s"
  shows "(\<not> notice_due s \<longrightarrow> (\<forall>i. mo_pc s i = Parked \<longrightarrow> conn_result (hs i) (mo_data s) = None \<and> \<not> mo_flag s)) \<and>
    ((\<forall>j. mo_todo s j = []) \<longrightarrow>
      (\<forall>k s'. (monitor_step spurious (\<lambda>i. wait_connected_call (hs i) (timed i)) ^^ k) s s' \<longrightarrow>
         k \<le> 2 * n \<and>
         ((\<nexists>s''. monitor_step spurious (\<lambda>i. wait_connected_call (hs i) (timed i)) s' s'') \<longrightarrow>
            (\<forall>i<n. \<exists>r. mo_pc s' i = Returned r))))"
proof (intro conjI impI allI)
  fix i assume "\<not> notice_due s" "mo_pc s i = Parked"
  then show "conn_result (hs i) (mo_data s) = None" "\<not> mo_flag s"
    using connects.sleeper_has_nothing [OF assms conn_threads_disciplined, of i]
    by (auto simp: wait_connected_call_def nothing_yet_def)
next
  fix k s' assume "\<forall>j. mo_todo s j = []"
    and run: "(monitor_step spurious (\<lambda>i. wait_connected_call (hs i) (timed i)) ^^ k) s s'"
  then have wd: "winding_down (\<lambda>i. wait_connected_call (hs i) (timed i)) n s"
    using connects_winding_down [OF assms] by blast
  have flags: "wc_closed (wait_connected_call (hs i) (timed i)) \<noteq> None" for i by (simp add: wait_connected_call_def)
  note end' = connects.winding_down_run [OF run wd flags]
  then show "k \<le> 2 * n" using pc_ranks_bound [of "mo_pc s" n] by linarith
  fix i assume "\<nexists>s''. monitor_step spurious (\<lambda>i. wait_connected_call (hs i) (timed i)) s' s''" "i < n"
  then show "\<exists>r. mo_pc s' i = Returned r" using connects.winding_down_stuck [OF conjunct1 [OF end'] flags] by blast
qed

text \<open>A thread looks at its handle and at the flag, the reader ends meanwhile, the thread sleeps and
  is woken.\<close>

abbreviation sample_wait :: "nat \<Rightarrow> (conn_registry, int + unit) wait_call" where
  "sample_wait \<equiv> \<lambda>i. wait_connected_call 42 False"

definition sample_woken :: "(conn_registry, int + unit) monitor" where
  "sample_woken = the (monitor_exec sample_wait [Waiter 0, Waiter 0, Thread 0, Waiter 0, Thread 0, Thread 0]
     (monitor_start 1 [42 \<mapsto> Pending] (conn_threads sample_api [] (\<lambda>_. []))))"

lemmas sample_simps = monitor_start_def conn_threads_def reader_conn_ops_def conn_exit_ops_def ops_defs wait_step_def
  op_step_def set_pc_def wait_connected_call_def conn_result_def wake_all_def fail_all_pending_def

lemma sample_woken_run:
  "monitor_run False sample_wait (monitor_start 1 [42 \<mapsto> Pending] (conn_threads sample_api [] (\<lambda>_. []))) sample_woken"
  "\<forall>i. mo_pc sample_woken i = (if i = 0 then Woken else Outside)" "\<forall>j. mo_todo sample_woken j = []"
  "mo_lock sample_woken = None" "conn_result 42 (mo_data sample_woken) = Some (Inl ECONNRESET)"
proof -
  have "\<exists>s. monitor_exec sample_wait [Waiter 0, Waiter 0, Thread 0, Waiter 0, Thread 0, Thread 0]
     (monitor_start 1 [42 \<mapsto> Pending] (conn_threads sample_api [] (\<lambda>_. []))) = Some s \<and>
     (\<forall>i. mo_pc s i = (if i = 0 then Woken else Outside)) \<and> (\<forall>j. mo_todo s j = []) \<and> mo_lock s = None \<and>
     conn_result 42 (mo_data s) = Some (Inl ECONNRESET)"
    by (simp add: sample_simps split: nat.splits)
  then obtain s where s: "monitor_exec sample_wait [Waiter 0, Waiter 0, Thread 0, Waiter 0, Thread 0, Thread 0]
     (monitor_start 1 [42 \<mapsto> Pending] (conn_threads sample_api [] (\<lambda>_. []))) = Some s"
     "\<forall>i. mo_pc s i = (if i = 0 then Woken else Outside)" "\<forall>j. mo_todo s j = []" "mo_lock s = None"
     "conn_result 42 (mo_data s) = Some (Inl ECONNRESET)" by blast
  have "sample_woken = s" by (simp only: sample_woken_def s(1) option.sel)
  with monitor_exec_run [OF s(1)] s(2-5) show
    "monitor_run False sample_wait (monitor_start 1 [42 \<mapsto> Pending] (conn_threads sample_api [] (\<lambda>_. []))) sample_woken"
    "\<forall>i. mo_pc sample_woken i = (if i = 0 then Woken else Outside)" "\<forall>j. mo_todo sample_woken j = []"
    "mo_lock sample_woken = None" "conn_result 42 (mo_data sample_woken) = Some (Inl ECONNRESET)" by simp_all
qed

definition sample_back :: "(conn_registry, int + unit) monitor" where
  "sample_back = set_pc 0 (Returned (Inl ECONNRESET)) sample_woken"

lemma sample_back_step: "(monitor_step False sample_wait ^^ 1) sample_woken sample_back"
proof -
  have "wait_step sample_wait 0 sample_woken = Some sample_back"
    using sample_woken_run(2,4,5) by (simp add: wait_step_def wait_connected_call_def sample_back_def set_pc_def)
  then show ?thesis by (simp add: ms_wait eq_OO)
qed

lemma sample_back_stuck: "\<nexists>s'. monitor_step False sample_wait sample_back s'"
proof
  assume "\<exists>s'. monitor_step False sample_wait sample_back s'"
  then obtain s' where "monitor_step False sample_wait sample_back s'" ..
  then show False
    by (cases rule: monitor_step.cases)
      (use sample_woken_run(2,3) in \<open>auto simp: sample_back_def wait_step_def op_step_def split: if_splits\<close>)
qed

theorem wait_connected_wakes_witness:
  "mo_pc sample_woken 0 = Woken \<and> (monitor_step False sample_wait ^^ 1) sample_woken sample_back \<and> 1 \<le> 2 * (1::nat) \<and>
   (\<exists>r. mo_pc sample_back 0 = Returned r)"
  using conjunct2 [OF wait_connected_wakes [OF sample_woken_run(1)], rule_format, OF _ sample_back_step] sample_woken_run(2,3)
    sample_back_stuck sample_back_step by simp

section \<open>Accepts\<close>

interpretation accepts: monitor_calls "\<lambda>i. wait_accept_call (ls i) (timed i)"
  by unfold_locales (auto simp: wait_accept_call_def nothing_yet_def accept_pop_def split: option.splits list.splits if_splits)

lemma accept_access_disciplined:
  "disciplined (\<lambda>i. wait_accept_call (ls i) (timed i)) (map accept_access_op as)"
proof (induction as)
  case (Cons a as)
  obtain f where f: "accept_access_op a = Locked f" by (cases a) (simp_all add: registry_op_def)
  moreover have "quiet (\<lambda>i. wait_accept_call (ls i) (timed i)) f" using f
    by (cases a) (auto simp: registry_op_def quiet_def wait_accept_call_def accept_pop_def accept_forget_def
        split: option.splits list.splits if_splits)
  ultimately show ?case using Cons by simp
qed simp

lemma accept_pushes_disciplined:
  "disciplined (\<lambda>i. wait_accept_call (ls i) (timed i)) (concat (map (accept_push_ops api) fs))"
  by (intro disciplined_concat) (auto simp: accept_push_ops_def registry_op_def split: option.splits)

text \<open>
  While the reader runs, accepts are woken: a thread that sleeps in \<^verbatim>\<open>wait_accept\<close> while no notification
  is to come has no child waiting for it.
\<close>

theorem accept_push_wakes:
  assumes "monitor_run spurious (\<lambda>i. wait_accept_call (ls i) (timed i))
      (monitor_start n m (accept_threads (concat (map (accept_push_ops api) fs)) accesses)) s"
    and "\<not> notice_due s" and "mo_pc s i = Parked"
  shows "fst (accept_pop (ls i) (mo_data s)) = None"
proof -
  have "disciplined (\<lambda>i. wait_accept_call (ls i) (timed i)) (accept_threads (concat (map (accept_push_ops api) fs)) accesses j)" for j
    by (simp add: accept_threads_def accept_pushes_disciplined accept_access_disciplined split: nat.splits)
  from accepts.sleeper_has_nothing(1) [OF assms(1) this assms(2,3)] show ?thesis
    by (simp add: wait_accept_call_def nothing_yet_def split: prod.splits)
qed

text \<open>
  C39 (An accept can sleep for ever). When the transport drops between the moment a thread in
  \<^verbatim>\<open>wait_accept\<close> without a timeout has read the closed flag and the moment it sleeps, the only
  notification comes too early: everything is done, the client is closed, and no step is left for
  the thread but a spurious wakeup.
\<close>

theorem accept_wakeup_lost:
  assumes "fst (accept_pop l m) = None"
  shows "\<exists>s. monitor_run False (\<lambda>i. wait_accept_call l False) (monitor_start 1 m (accept_threads (reader_accept_ops api []) (\<lambda>_. []))) s \<and>
    mo_flag s \<and> (\<forall>j. mo_todo s j = []) \<and> mo_pc s 0 = Parked \<and>
    (\<nexists>s'. monitor_step False (\<lambda>i. wait_accept_call l False) s s')"
proof -
  let ?calls = "\<lambda>i::nat. wait_accept_call l False"
  obtain m' where "accept_pop l m = (None, m')" using assms by (cases "accept_pop l m") simp
  then have "\<exists>s. monitor_exec ?calls [Waiter 0, Waiter 0, Thread 0, Thread 0, Waiter 0]
      (monitor_start 1 m (accept_threads (reader_accept_ops api []) (\<lambda>_. []))) = Some s \<and>
      mo_flag s \<and> (\<forall>j. mo_todo s j = []) \<and> (\<forall>i. mo_pc s i = (if i = 0 then Parked else Outside))"
    by (simp add: monitor_start_def accept_threads_def reader_accept_ops_def accept_exit_ops_def wait_step_def op_step_def
        set_pc_def wait_accept_call_def wake_all_def split: nat.splits)
  then obtain s where exec: "monitor_exec ?calls [Waiter 0, Waiter 0, Thread 0, Thread 0, Waiter 0]
      (monitor_start 1 m (accept_threads (reader_accept_ops api []) (\<lambda>_. []))) = Some s"
    and s: "mo_flag s" "\<forall>j. mo_todo s j = []" "\<forall>i. mo_pc s i = (if i = 0 then Parked else Outside)" by blast
  have "\<not> monitor_step False ?calls s s'" for s'
  proof
    assume "monitor_step False ?calls s s'"
    then show False
      by (cases rule: monitor_step.cases) (auto simp: s wait_step_def op_step_def wait_accept_call_def split: if_splits)
  qed
  with monitor_exec_run [OF exec] s show ?thesis by (intro exI [of _ s]) simp
qed

theorem accept_wakeup_lost_witness:
  "\<exists>s. monitor_run False (\<lambda>i. wait_accept_call 9 False)
      (monitor_start 1 Map.empty (accept_threads (reader_accept_ops sample_api []) (\<lambda>_. []))) s \<and>
    mo_flag s \<and> (\<forall>j. mo_todo s j = []) \<and> mo_pc s 0 = Parked \<and>
    (\<nexists>s'. monitor_step False (\<lambda>i. wait_accept_call 9 False) s s')"
  by (rule accept_wakeup_lost) (simp add: accept_pop_def)

end
