(* ===== verification/Ipose_Wakeup.thy ===== *)
theory Ipose_Wakeup
  imports Monitor Ipose_State
begin

text \<open>
  The condition variables of \<^verbatim>\<open>crates/ax25-interpose/src/state.rs\<close>: the flusher thread parks in
  \<^verbatim>\<open>flusher_loop\<close> until the receive pump has something to deliver, the outbound thread in
  \<^verbatim>\<open>outbound_loop\<close> until a handle is registered. Both pumps notify inside the lock, and
  \<^verbatim>\<open>RecvPump::push\<close> and \<^verbatim>\<open>register\<close> only on some branches: what is shown is that these branches are
  enough, whatever the other threads do and however the socketpairs fill and drain.
\<close>

section \<open>Definitions\<close>

subsection \<open>The receive pump\<close>

text \<open>The handles of a map in iteration order are \<open>keys\<close>, as for the event sink.\<close>

definition flusher_wait :: "((u64 \<Rightarrow> bool) \<Rightarrow> u64 list) \<Rightarrow> (pump_state \<times> 'k, unit) wait_call" where
  "flusher_wait keys =
     \<lparr>wc_poll = (\<lambda>s. (if has_work (keys (\<lambda>h. ps_handles (fst s) h \<noteq> None)) (fst s) then Some () else None, s)),
      wc_closed = None, wc_late = (), wc_timed = False\<rparr>"

definition register_notifies :: "u64 \<Rightarrow> pump_state \<Rightarrow> bool" where
  "register_notifies h st \<longleftrightarrow> unwrap_or [] (ps_early st h) \<noteq> []"

definition push_notifies :: "'k kernel \<Rightarrow> u64 \<Rightarrow> byte list \<Rightarrow> pump_state \<times> 'k \<Rightarrow> bool" where
  "push_notifies ops h data s \<longleftrightarrow>
     (case s of (st, k) \<Rightarrow>
      if data = [] then False
      else (case ps_handles st h of
          None \<Rightarrow> False
        | Some e \<Rightarrow>
            if pr_buf e = []
            then (case nb_write ops (pr_inner_fd e) data k of
                (Wrote n, _) \<Rightarrow> n < length data
              | (WouldBlock, _) \<Rightarrow> True
              | (Fatal, _) \<Rightarrow> False)
            else True))"

definition mark_eof_notifies :: "u64 \<Rightarrow> pump_state \<Rightarrow> bool" where
  "mark_eof_notifies h st \<longleftrightarrow> ps_handles st h \<noteq> None"

text \<open>What the other threads do with the pump. \<open>Elsewhere\<close> is a change of the kernel's state: the
  application reads, or closes its end.\<close>

datatype 'k pump_access =
  Register u64 int | Unregister u64 | Push u64 "byte list" | MarkEof u64 | ShutdownAll | Elsewhere "'k \<Rightarrow> 'k"

fun pump_access_op :: "'k kernel \<Rightarrow> 'k pump_access \<Rightarrow> (pump_state \<times> 'k) monitor_op" where
  "pump_access_op ops (Register h fd) = Locked (\<lambda>(st, k). ((pump_register h fd st, k), register_notifies h st))"
| "pump_access_op ops (Unregister h) = Locked (\<lambda>(st, k). ((pump_unregister h st, k), False))"
| "pump_access_op ops (Push h data) = Locked (\<lambda>s. (pump_push ops h data s, push_notifies ops h data s))"
| "pump_access_op ops (MarkEof h) = Locked (\<lambda>(st, k). ((pump_mark_eof h st, k), mark_eof_notifies h st))"
| "pump_access_op ops ShutdownAll = Locked (\<lambda>(st, k). ((pump_shutdown_all st, k), True))"
| "pump_access_op ops (Elsewhere g) = Locked (\<lambda>(st, k). ((st, g k), False))"

subsection \<open>The outbound pump\<close>

definition outbound_snapshot :: "((u64 \<Rightarrow> bool) \<Rightarrow> u64 list) \<Rightarrow> (u64 \<rightharpoonup> int) \<Rightarrow> (u64 \<times> int) list" where
  "outbound_snapshot keys m = map (\<lambda>h. (h, the (m h))) (keys (\<lambda>h. m h \<noteq> None))"

definition outbound_wait :: "((u64 \<Rightarrow> bool) \<Rightarrow> u64 list) \<Rightarrow> (u64 \<rightharpoonup> int, (u64 \<times> int) list) wait_call" where
  "outbound_wait keys =
     \<lparr>wc_poll = (\<lambda>m. (if outbound_snapshot keys m = [] then None else Some (outbound_snapshot keys m), m)),
      wc_closed = None, wc_late = [], wc_timed = False\<rparr>"

datatype out_access = OutRegister u64 int | OutUnregister u64 | OutLookup u64

fun out_access_op :: "out_access \<Rightarrow> (u64 \<rightharpoonup> int) monitor_op" where
  "out_access_op (OutRegister h fd) = Locked (\<lambda>m. (out_register h fd m, True))"
| "out_access_op (OutUnregister h) = Locked (\<lambda>m. (out_unregister h m, False))"
| "out_access_op (OutLookup h) = Locked (\<lambda>m. (m, False))"

subsection \<open>What there is to do\<close>

definition pump_work :: "pump_state \<Rightarrow> bool" where
  "pump_work st \<longleftrightarrow> (\<exists>h e. ps_handles st h = Some e \<and> entry_work e)"

text \<open>Every iteration order lists the handles of its map.\<close>

definition lists_keys :: "((u64 \<Rightarrow> bool) \<Rightarrow> u64 list) \<Rightarrow> bool" where
  "lists_keys keys \<longleftrightarrow> (\<forall>P h. h \<in> set (keys P) \<longleftrightarrow> P h)"

section \<open>Notifications are enough\<close>

lemma has_work_keys:
  assumes "lists_keys keys"
  shows "has_work (keys (\<lambda>h. ps_handles st h \<noteq> None)) st \<longleftrightarrow> pump_work st"
proof -
  have "h \<in> set (keys (\<lambda>h. ps_handles st h \<noteq> None)) \<longleftrightarrow> ps_handles st h \<noteq> None" for h
    using assms by (simp add: lists_keys_def del: not_None_eq)
  then show ?thesis by (auto simp: has_work_def pump_work_def list_ex_iff Bex_def split: option.splits)
qed

lemma flusher_nothing_yet: "lists_keys keys \<Longrightarrow> nothing_yet (flusher_wait keys) s \<longleftrightarrow> \<not> pump_work (fst s)"
  by (simp add: nothing_yet_def flusher_wait_def has_work_keys del: not_None_eq)

lemma pump_work_upd:
  "pump_work (st\<lparr>ps_handles := (ps_handles st)(h \<mapsto> e)\<rparr>) \<Longrightarrow> \<not> pump_work st \<Longrightarrow> entry_work e"
  by (auto simp: pump_work_def split: if_splits)

lemma pump_work_less:
  "\<not> pump_work st \<Longrightarrow> \<not> pump_work (st\<lparr>ps_handles := (ps_handles st)(h := None)\<rparr>)"
  by (auto simp: pump_work_def split: if_splits)

text \<open>An operation that gives an idle pump something to do notifies.\<close>

lemma push_work:
  assumes "\<not> pump_work st" and "pump_work (fst (pump_push ops h data (st, k)))"
  shows "push_notifies ops h data (st, k)"
proof (cases "ps_handles st h")
  case None
  with assms show ?thesis by (auto simp: pump_push_def stage_early_def pump_work_def Let_def split: if_splits)
next
  case (Some e)
  then have "\<not> entry_work e" using assms(1) by (auto simp: pump_work_def)
  with Some assms show ?thesis
    by (auto simp: pump_push_def push_notifies_def entry_work_def pump_work_less split: if_splits prod.splits write_outcome.splits)
qed

lemma register_work:
  "\<not> pump_work st \<Longrightarrow> pump_work (pump_register h fd st) \<Longrightarrow> register_notifies h st"
  by (auto simp: pump_register_def pump_work_def register_notifies_def entry_work_def Let_def split: if_splits)

lemma mark_eof_work:
  "\<not> pump_work st \<Longrightarrow> pump_work (pump_mark_eof h st) \<Longrightarrow> mark_eof_notifies h st"
  by (auto simp: pump_mark_eof_def mark_eof_notifies_def split: option.splits)

lemma unregister_work: "\<not> pump_work st \<Longrightarrow> \<not> pump_work (pump_unregister h st)"
  by (auto simp: pump_unregister_def pump_work_def split: if_splits)

lemma pump_access_quiet:
  assumes "lists_keys keys" and "pump_access_op ops a = Locked f"
  shows "quiet (\<lambda>i. flusher_wait keys) f"
  using assms(2)
  by (cases a)
    (auto simp: quiet_def nothing_yet_def [symmetric] flusher_nothing_yet [OF assms(1)]
      dest: push_work register_work mark_eof_work unregister_work)

lemma pump_accesses_disciplined:
  assumes "lists_keys keys"
  shows "disciplined (\<lambda>i. flusher_wait keys) (map (pump_access_op ops) as)"
proof (induction as)
  case (Cons a as)
  obtain f where f: "pump_access_op ops a = Locked f" by (cases a) simp_all
  show ?case using Cons pump_access_quiet [OF assms f] f by simp
qed simp

lemma outbound_empty:
  assumes "lists_keys keys"
  shows "outbound_snapshot keys m = [] \<longleftrightarrow> m = Map.empty"
proof -
  have "keys (\<lambda>h. m h \<noteq> None) = [] \<longleftrightarrow> (\<forall>h. m h = None)"
    unfolding set_empty [symmetric] set_eq_iff using assms by (simp add: lists_keys_def del: not_None_eq)
  then show ?thesis by (auto simp: outbound_snapshot_def)
qed

lemma out_accesses_disciplined:
  assumes "lists_keys keys"
  shows "disciplined (\<lambda>i. outbound_wait keys) (map out_access_op as)"
proof (induction as)
  case (Cons a as)
  obtain f where f: "out_access_op a = Locked f" by (cases a) simp_all
  moreover have "quiet (\<lambda>i. outbound_wait keys) f" using f
    by (cases a) (auto simp: quiet_def outbound_wait_def outbound_empty [OF assms] out_unregister_def)
  ultimately show ?case using Cons by simp
qed simp

section \<open>The threads are awake when there is work\<close>

interpretation flusher: monitor_calls "\<lambda>i. flusher_wait keys"
  by unfold_locales (simp add: flusher_wait_def nothing_yet_def)

interpretation outbound: monitor_calls "\<lambda>i. outbound_wait keys"
  by unfold_locales (simp add: outbound_wait_def nothing_yet_def)

lemma pump_accesses_notify: "NotifyAll \<notin> set (map (pump_access_op ops) as)"
proof -
  have "pump_access_op ops a \<noteq> NotifyAll" for a by (cases a) simp_all
  then show ?thesis by (auto simp: image_iff eq_commute [of NotifyAll])
qed

lemma out_accesses_notify: "NotifyAll \<notin> set (map out_access_op as)"
proof -
  have "out_access_op a \<noteq> NotifyAll" for a by (cases a) simp_all
  then show ?thesis by (auto simp: image_iff eq_commute [of NotifyAll])
qed

text \<open>
  C18 (The flusher is awake when there is work). Whatever pushes, registrations, closes and shutdowns
  other threads make, and however the socketpairs fill and drain meanwhile: whenever the receive
  pump has bytes or an end of stream to deliver, the flusher is not asleep: it is past its wait, or
  its next step ends it.
\<close>

theorem flusher_wakes:
  assumes "lists_keys keys"
    and "monitor_run spurious (\<lambda>i. flusher_wait keys) (monitor_start 1 m (\<lambda>j. map (pump_access_op ops) (accesses j))) s"
    and "ps_handles (fst (mo_data s)) h = Some e" and "pr_buf e \<noteq> [] \<or> pr_eof e \<and> \<not> pr_eof_done e"
  shows "mo_pc s 0 \<noteq> Parked \<and>
    (mo_pc s 0 = Returned () \<or> (\<exists>s'. wait_step (\<lambda>i. flusher_wait keys) 0 s = Some s' \<and> mo_pc s' 0 = Returned ()))"
proof -
  have "\<not> nothing_yet (flusher_wait keys) (mo_data s)"
    using assms(3,4) by (auto simp: flusher_nothing_yet [OF assms(1)] pump_work_def entry_work_def)
  moreover have "\<not> notice_due s" by (rule no_notice_due [OF assms(2) pump_accesses_notify])
  ultimately show ?thesis
    using flusher.run_ok [OF assms(2) pump_accesses_disciplined [OF assms(1)]] run_outside [OF assms(2)]
      ready_returns [of "\<lambda>i. flusher_wait keys" s] by (auto simp: wait_step_simps)
qed

text \<open>The flusher goes to sleep on the idle pump of the sample process; then five bytes arrive for a
  socketpair that takes three.\<close>

definition sample_keys :: "(u64 \<Rightarrow> bool) \<Rightarrow> u64 list" where
  "sample_keys P = filter P (map word_of_nat [0..<2 ^ LENGTH(64)])"

definition sample_pushed :: "(pump_state \<times> unix, unit) monitor" where
  "sample_pushed = the (monitor_exec (\<lambda>i. flusher_wait sample_keys) [Waiter 0, Waiter 0, Waiter 0, Thread 0]
     (monitor_start 1 small_pump (\<lambda>j. map (pump_access_op (unix_kernel 0)) (if j = 0 then [Push 7 [1, 2, 3, 4, 5]] else []))))"

lemma sample_keys_ok: "lists_keys sample_keys"
proof -
  have "h \<in> word_of_nat ` {0..<2 ^ LENGTH(64)}" for h :: u64
    by (rule image_eqI [of _ _ "unat h"]) (use unsigned_less [of h] in \<open>simp_all\<close>)
  then show ?thesis unfolding lists_keys_def sample_keys_def set_filter set_map set_upt by blast
qed

lemma sample_pump_idle: "\<not> pump_work (fst small_pump)"
  by (simp add: pump_work_def small_pump_def pump_register_def new_pump_def entry_work_def Let_def)

lemma sample_push:
  "pump_push (unix_kernel 0) 7 [1, 2, 3, 4, 5] small_pump = (fst small_pump\<lparr>ps_handles := [7 \<mapsto>
      \<lparr>pr_inner_fd = 101, pr_buf = [4, 5], pr_eof = False, pr_eof_done = False\<rparr>]\<rparr>,
    snd (snd (ux_send 101 [1, 2, 3, 4, 5] (snd small_pump))))"
  "push_notifies (unix_kernel 0) 7 [1, 2, 3, 4, 5] small_pump"
  by (simp_all add: pump_push_def push_notifies_def small_pump_def pump_register_def new_pump_def ux_socketpair_def
      empty_unix_def unix_kernel_def ux_send_def ux_pair_def nb_write_def Let_def)

lemma sample_pushed_run:
  "monitor_exec (\<lambda>i. flusher_wait sample_keys) [Waiter 0, Waiter 0, Waiter 0, Thread 0]
     (monitor_start 1 small_pump (\<lambda>j. map (pump_access_op (unix_kernel 0)) (if j = 0 then [Push 7 [1, 2, 3, 4, 5]] else []))) =
   Some sample_pushed"
  "mo_data sample_pushed = pump_push (unix_kernel 0) 7 [1, 2, 3, 4, 5] small_pump" "mo_pc sample_pushed 0 = Woken"
proof -
  have poll: "wc_poll (flusher_wait sample_keys) small_pump = (None, small_pump)"
    using flusher_nothing_yet [OF sample_keys_ok, of small_pump] sample_pump_idle
    by (simp add: nothing_yet_def) (simp add: flusher_wait_def)
  have closed: "wc_closed (flusher_wait sample_keys) = None" by (simp add: flusher_wait_def)
  have "\<exists>s. monitor_exec (\<lambda>i. flusher_wait sample_keys) [Waiter 0, Waiter 0, Waiter 0, Thread 0]
     (monitor_start 1 small_pump (\<lambda>j. map (pump_access_op (unix_kernel 0)) (if j = 0 then [Push 7 [1, 2, 3, 4, 5]] else []))) =
       Some s \<and> mo_data s = pump_push (unix_kernel 0) 7 [1, 2, 3, 4, 5] small_pump \<and> mo_pc s 0 = Woken"
    using sample_push(2)
    by (simp add: monitor_start_def wait_step_def op_step_def set_pc_def poll closed wake_all_def)
  then show "monitor_exec (\<lambda>i. flusher_wait sample_keys) [Waiter 0, Waiter 0, Waiter 0, Thread 0]
     (monitor_start 1 small_pump (\<lambda>j. map (pump_access_op (unix_kernel 0)) (if j = 0 then [Push 7 [1, 2, 3, 4, 5]] else []))) =
     Some sample_pushed"
    "mo_data sample_pushed = pump_push (unix_kernel 0) 7 [1, 2, 3, 4, 5] small_pump" "mo_pc sample_pushed 0 = Woken"
    unfolding sample_pushed_def by (elim exE conjE; simp only: option.sel)+
qed

theorem flusher_wakes_witness:
  "mo_pc sample_pushed 0 = Woken \<and>
   (\<exists>s'. wait_step (\<lambda>i. flusher_wait sample_keys) 0 sample_pushed = Some s' \<and> mo_pc s' 0 = Returned ())"
  using flusher_wakes [OF sample_keys_ok monitor_exec_run [OF sample_pushed_run(1)], of 7
      "\<lparr>pr_inner_fd = 101, pr_buf = [4, 5], pr_eof = False, pr_eof_done = False\<rparr>"]
  by (simp add: sample_pushed_run(2,3) sample_push(1))

text \<open>
  The outbound thread sleeps only while no handle is registered.
\<close>

theorem outbound_wakes:
  assumes "lists_keys keys"
    and "monitor_run spurious (\<lambda>i. outbound_wait keys) (monitor_start 1 m (\<lambda>j. map out_access_op (accesses j))) s"
    and "mo_data s h = Some fd"
  shows "mo_pc s 0 \<noteq> Parked"
proof
  assume "mo_pc s 0 = Parked"
  then have "nothing_yet (outbound_wait keys) (mo_data s)"
    using outbound.sleeper_has_nothing(1) [OF assms(2) out_accesses_disciplined [OF assms(1)]
        no_notice_due [OF assms(2) out_accesses_notify]] by simp
  then show False using assms(3) by (simp add: nothing_yet_def outbound_wait_def outbound_empty [OF assms(1)] split: if_splits)
qed

end
