(* ===== verification/Ipose_Bounds.thy ===== *)
theory Ipose_Bounds
  imports Ipose_Calls
begin

text \<open>
  What holds of the two receiving pumps in every run of a process. The interposed calls and the
  background threads reach the pumps only through their operations, so a property that every
  operation keeps is kept by all of them: this is the locale \<open>pumps_inv\<close>. Its instance is the
  bound on memory that the constants \<^verbatim>\<open>EARLY_STAGE_CAP\<close> and \<^verbatim>\<open>DGRAM_QUEUE_CAP\<close> of
  \<^verbatim>\<open>crates/ax25-interpose/src/state.rs\<close> are there for.
\<close>

section \<open>Definitions\<close>

definition staging_bounded :: "pump_state \<Rightarrow> bool" where
  "staging_bounded st \<longleftrightarrow> (\<forall>h. length (unwrap_or [] (ps_early st h)) \<le> EARLY_STAGE_CAP)"

definition queues_bounded :: "dgram_state \<Rightarrow> bool" where
  "queues_bounded st \<longleftrightarrow> (\<forall>h e. st h = Some e \<longrightarrow> length (de_queue e) \<le> DGRAM_QUEUE_CAP)"

section \<open>Properties of the pumps\<close>

locale pumps_inv =
  fixes ops :: "'k kernel" and A :: "pump_state \<Rightarrow> bool" and B :: "dgram_state \<Rightarrow> bool"
  assumes push_inv: "A p \<Longrightarrow> A (fst (pump_push ops h data (p, k)))"
    and drain_inv: "A p \<Longrightarrow> A (fst (snd (drain_entry ops h (p, k))))"
    and register_inv: "A p \<Longrightarrow> A (pump_register h fd p)"
    and unregister_inv: "A p \<Longrightarrow> A (pump_unregister h p)"
    and mark_eof_inv: "A p \<Longrightarrow> A (pump_mark_eof h p)"
    and shutdown_inv: "A p \<Longrightarrow> A (pump_shutdown_all p)"
    and dgram_push_inv: "B d \<Longrightarrow> B (fst (dgram_push ops h dg (d, k)))"
    and dgram_recv_inv: "B d \<Longrightarrow> B (fst (snd (dgram_recv_one ops h (d, k))))"
    and dgram_shutdown_inv: "B d \<Longrightarrow> B (fst (dgram_shutdown_all ops hs (d, k)))"
    and dgram_register_inv: "B d \<Longrightarrow> B (dgram_register h app inner d)"
    and dgram_unregister_inv: "B d \<Longrightarrow> B (dgram_unregister h d)"
begin

definition both :: "'k shared \<Rightarrow> bool" where
  "both s \<longleftrightarrow> A (sh_pump s) \<and> B (sh_dgram s)"

lemma both_upd [simp]:
  "both (s\<lparr>sh_kernel := k\<rparr>) = both s" "both (s\<lparr>sh_out := m\<rparr>) = both s" "both (s\<lparr>sh_gates := g\<rparr>) = both s"
  "both (s\<lparr>sh_pump := p\<rparr>) \<longleftrightarrow> A p \<and> B (sh_dgram s)" "both (s\<lparr>sh_dgram := d\<rparr>) \<longleftrightarrow> A (sh_pump s) \<and> B d"
  "both (sh_kernel_update f s) = both s"
  by (simp_all add: both_def)

lemma resolve_both [simp]: "both (resolve_connect_gate ops h s) = both s"
  by (simp add: resolve_connect_gate_def both_def split: option.splits)

lemma resolve_all_both [simp]: "both (fold (resolve_connect_gate ops) hs s) = both s"
  by (induction hs arbitrary: s) simp_all

lemma arm_both [simp]: "both (arm_connect_gate ops h a i s) = both s"
  by (simp add: arm_connect_gate_def)

lemma sink_both: "sink_inv (InterposeSink ops keys) both"
proof
  fix s :: "'k shared" assume s: "both s"
  then have ab: "A (sh_pump s)" "B (sh_dgram s)" by (simp_all add: both_def)
  show "both (on_recv (InterposeSink ops keys) h d s)" for h d
    using ab push_inv by (simp add: InterposeSink_def prod.case_eq_if)
  show "both (on_dgram (InterposeSink ops keys) h a b d s)" for h a b d
    using ab dgram_push_inv by (simp add: InterposeSink_def prod.case_eq_if)
  show "both (on_accept (InterposeSink ops keys) l c r a s)" for l c r a using s by (simp add: InterposeSink_def)
  show "both (on_status (InterposeSink ops keys) h fl s)" for h fl using s by (simp add: InterposeSink_def)
  have "both (resolve_connect_gate ops h s)" for h using s by simp
  then show "both (on_close (InterposeSink ops keys) h s)" for h
    using mark_eof_inv by (simp add: InterposeSink_def Let_def both_def)
  have "both (fold (resolve_connect_gate ops) hs s)" for hs using s by simp
  then show "both (on_disconnect (InterposeSink ops keys) s)"
    using shutdown_inv dgram_shutdown_inv by (simp add: InterposeSink_def Let_def both_def prod.case_eq_if)
qed

lemma drain_pass_inv: "A p \<Longrightarrow> A (fst (snd (drain_pass ops hs (p, k))))"
proof (induction hs arbitrary: p k)
  case (Cons h hs)
  obtain b p1 k1 where d: "drain_entry ops h (p, k) = (b, p1, k1)" by (cases "drain_entry ops h (p, k)")
  then have "A p1" using drain_inv [OF Cons.prems, of h k] by simp
  then show ?case using Cons.IH [of p1 k1] d by (simp add: prod.case_eq_if)
qed simp

end

text \<open>The same for a process whose kernel this is.\<close>

locale process_inv = pumps_inv "y_ops sys" A B for sys :: "('j, 'k) sys" and A B

sublocale process_inv \<subseteq> sink: sink_inv "y_sink sys" both
  unfolding y_sink_def by (rule sink_both)

context process_inv
begin

definition kept :: "('j, 'k) world \<Rightarrow> bool" where
  "kept w \<longleftrightarrow> both (w_shared w)"

lemma kept_upd [simp]:
  "kept (map_fd fd f w) = kept w" "kept (set_errno e w) = kept w" "kept (map_shared g w) = both (g (w_shared w))"
  "kept (snd (real_call lc c w)) = kept w" "kept (w\<lparr>w_fds := m\<rparr>) = kept w" "kept (w\<lparr>w_dials := ds\<rparr>) = kept w"
  by (simp_all add: kept_def) (subst real_call_keeps(5), simp)

lemma kept_shared [simp]: "both (w_shared w) = kept w"
  by (simp add: kept_def)

lemma kept_pump: "kept w \<Longrightarrow> A (sh_pump (w_shared w))" "kept w \<Longrightarrow> B (sh_dgram (w_shared w))"
  by (simp_all add: kept_def both_def)

lemma on_client_kept:
  assumes "kept w" and "\<And>st. both (rc_sink st) \<Longrightarrow> both (rc_sink (snd (f st)))"
  shows "kept (snd (snd (on_client f c w)))"
  using assms(1) assms(2) [of "c\<lparr>rc_sink := w_shared w\<rparr>"] by (simp add: on_client_def kept_def prod.case_eq_if del: kept_shared)

lemmas client_both =
  sink.reader.operations_inv [unfolded sink.reader.holds_def] sink.reader.wait_connected_inv [unfolded sink.reader.holds_def]
  sink.reader.wait_accept_inv [unfolded sink.reader.holds_def] sink.reader.step_inv

lemma client_kept:
  assumes "kept w"
  shows "kept (snd (snd (on_client (rhp_send api (y_sink sys) h data) c w)))"
    and "kept (snd (snd (on_client (rhp_sendto api (y_sink sys) h remote local data) c w)))"
    and "kept (snd (snd (on_client (rhp_close api (y_sink sys) h) c w)))"
    and "kept (snd (snd (on_client (rhp_bind api (y_sink sys) h local port) c w)))"
    and "kept (snd (snd (on_client (rhp_listen api (y_sink sys) h) c w)))"
    and "kept (snd (snd (on_client (socket_dgram api (y_sink sys)) c w)))"
    and "kept (snd (snd (on_client (rhp_socket api (y_sink sys)) c w)))"
    and "kept (snd (snd (on_client (open_connect api (y_sink sys) local remote via) c w)))"
    and "kept (snd (snd (on_client (take_connect_error h) c w)))"
    and "kept (snd (snd (on_client (try_accept h) c w)))"
    and "kept (snd (snd (on_client (wait_connected api (y_sink sys) h timed) c w)))"
    and "kept (snd (snd (on_client (wait_accept api (y_sink sys) h timed) c w)))"
    and "kept (snd (snd (on_client (\<lambda>c. ((), reader_step api (y_sink sys) c)) c w)))"
  using assms by (auto intro!: on_client_kept client_both simp: socket_dgram_def rhp_socket_def)

lemma ensure_kept: "kept w \<Longrightarrow> kept (snd (ensure_client sys w))"
proof -
  assume w: "kept w"
  then have s: "both (w_shared w)" by simp
  have "kept (snd (dial_client sys w))"
    using w sink.reader.connect_to_inv [OF s, of "y_api sys"]
    by (auto simp: dial_client_def kept_def sink.reader.holds_def simp del: kept_shared split: list.splits sum.splits)
  then show ?thesis using w by (simp add: ensure_client_def split: option.splits)
qed

lemma create_kept: "kept w \<Longrightarrow> kept (snd (create_ax25_fd sys dgram w))"
  by (simp add: create_ax25_fd_def prod.case_eq_if split: option.splits)

lemma destroy_kept: "kept w \<Longrightarrow> kept (destroy_ax25_fd sys fd w)"
  using unregister_inv dgram_unregister_inv
  by (simp add: destroy_ax25_fd_def forget_handle_def Let_def kept_pump both_def split: option.splits)

lemma store_kept: "kept w \<Longrightarrow> kept (snd (store_dgram_handle sys fd h c w))"
  using dgram_register_inv
  by (simp add: store_dgram_handle_def prod.case_eq_if client_kept kept_pump split: option.splits)

lemma ensure_dgram_kept: "kept w \<Longrightarrow> kept (snd (ensure_dgram_handle sys fd w))"
  by (simp add: ensure_dgram_handle_def prod.case_eq_if client_kept ensure_kept store_kept split: option.splits sum.splits)

lemma listener_kept: "kept w \<Longrightarrow> kept (snd (open_listener sys local c w))"
  by (simp add: open_listener_def prod.case_eq_if client_kept split: sum.splits)

lemma finish_kept: "kept w \<Longrightarrow> kept (snd (finish_connect sys fd remote digis h c w))"
proof -
  assume w: "kept w"
  have "kept (map_shared (\<lambda>sh. sh\<lparr>sh_pump := pump_register h i (sh_pump sh)\<rparr>) (map_fd fd f w))" for i f
    using w register_inv kept_pump by simp
  then show ?thesis using w
    by (simp add: finish_connect_def Let_def prod.case_eq_if client_kept del: kept_upd(3) split: option.splits sum.splits)
      (simp add: client_kept)
qed

lemma adopt_kept: "kept w \<Longrightarrow> kept (snd (adopt_child lc sys info local addr len w))"
proof -
  assume "kept w"
  then have "kept (snd (create_ax25_fd sys False w))" by (rule create_kept)
  then show ?thesis using register_inv
    by (simp add: adopt_child_def Let_def prod.case_eq_if kept_pump split: option.splits)
qed

lemma drain_locked_kept: "kept w \<Longrightarrow> kept (snd (drain_locked sys n h inner c w))"
  by (induction n arbitrary: c w) (simp_all add: prod.case_eq_if Let_def client_kept)

lemma out_flush_kept: "kept w \<Longrightarrow> kept (snd (out_flush sys h c w))"
  by (simp add: out_flush_def drain_locked_kept split: option.splits)

lemma ax25_send_kept: "kept w \<Longrightarrow> kept (snd (ax25_send sys fd data w))"
  by (simp add: ax25_send_def send_ordered_def prod.case_eq_if ensure_kept out_flush_kept client_kept split: option.splits sum.splits)

lemma dgram_send_kept: "kept w \<Longrightarrow> kept (snd (ax25_dgram_send sys fd app dest destlen w))"
  by (simp add: ax25_dgram_send_def Let_def prod.case_eq_if client_kept ensure_kept ensure_dgram_kept split: option.splits sum.splits)

lemma reader_turn_kept: "kept w \<Longrightarrow> kept (reader_turn sys w)"
  by (simp add: reader_turn_def prod.case_eq_if client_kept split: option.splits)

lemma orphan_turn_kept: "kept w \<Longrightarrow> kept (orphan_turn sys i w)"
  using sink.reader_step_inv [of "(w_orphans w ! i)\<lparr>rc_sink := w_shared w\<rparr>"] by (simp add: orphan_turn_def kept_def Let_def del: kept_shared)

lemma recv_one_kept:
  assumes "kept w" and "dgram_recv_one (y_ops sys) h (sh_dgram (w_shared w), sh_kernel (w_shared w)) = (out, d, k)"
  shows "kept (map_shared (\<lambda>sh. sh\<lparr>sh_dgram := d, sh_kernel := k\<rparr>) w)"
  using dgram_recv_inv [OF kept_pump(2) [OF assms(1)], of h "sh_kernel (w_shared w)"] assms by (simp add: kept_pump)

lemma dgram_loop_kept: "kept w \<Longrightarrow> kept (snd (dgram_recv_loop lc sys n h nb pid buf len src srclen w))"
proof (induction n arbitrary: w)
  case 0
  then show ?case using recv_one_kept
    by (subst dgram_recv_loop.simps) (auto simp: Let_def fail_def simp del: kept_upd(3) split: dgram_outcome.splits prod.splits)
next
  case (Suc n)
  then show ?case using recv_one_kept reader_turn_kept
    by (subst dgram_recv_loop.simps) (auto simp: Let_def fail_def simp del: kept_upd(3) split: dgram_outcome.splits prod.splits)
qed

lemma dgram_recv_kept: "kept w \<Longrightarrow> kept (snd (ax25_dgram_recv lc sys n fd buf len flags src srclen w))"
  by (simp add: ax25_dgram_recv_def Let_def prod.case_eq_if ensure_dgram_kept dgram_loop_kept split: sum.splits)

lemma flusher_kept: "kept w \<Longrightarrow> kept (flusher_turn sys w)"
  using drain_pass_inv by (simp add: flusher_turn_def prod.case_eq_if kept_pump)

lemma flush_each_kept: "kept w \<Longrightarrow> kept (flush_each sys hs c w)"
  by (induction hs arbitrary: c w) (simp_all add: prod.case_eq_if out_flush_kept)

lemmas calls_kept =
  client_kept ensure_kept create_kept destroy_kept ensure_dgram_kept listener_kept finish_kept adopt_kept ax25_send_kept
  dgram_send_kept reader_turn_kept orphan_turn_kept dgram_recv_kept flusher_kept flush_each_kept

lemma proc_step_kept: "proc_step lc sys w w' \<Longrightarrow> kept w \<Longrightarrow> kept w'"
proof (induction rule: proc_step.induct)
  case (ps_connect w fd addr len)
  then show ?case
    by (simp add: connect_call_def connect_dgram_def returns_def Let_def prod.case_eq_if calls_kept split: option.splits sum.splits)
next
  case (ps_accept w fd addr olen)
  then show ?case by (simp add: accept_call_def Let_def prod.case_eq_if calls_kept split: option.splits)
next
  case (ps_close w fd)
  then show ?case by (simp add: close_call_def Let_def prod.case_eq_if calls_kept split: option.splits)
qed (simp_all add: socket_call_def bind_call_def listen_call_def getsockname_call_def getpeername_call_def setsockopt_call_def
    getsockopt_call_def so_error_def read_call_fd_def recv_call_def recvfrom_call_def write_call_fd_def send_call_def
    sendto_call_def select_call_def poll_call_def outbound_turn_def finished_def Let_def prod.case_eq_if calls_kept
    split: option.splits sum.splits)

lemma process_kept:
  assumes "(proc_step lc sys)\<^sup>*\<^sup>* w w'" and "A (sh_pump (w_shared w))" and "B (sh_dgram (w_shared w))"
  shows "A (sh_pump (w_shared w'))" and "B (sh_dgram (w_shared w'))"
proof -
  from assms(1) have "kept w'"
  proof (induction rule: rtranclp_induct)
    case base
    show ?case using assms(2,3) by (simp add: kept_def both_def del: kept_shared)
  next
    case (step w1 w2)
    then show ?case by (blast intro: proc_step_kept)
  qed
  then show "A (sh_pump (w_shared w'))" "B (sh_dgram (w_shared w'))" by (simp_all add: kept_pump)
qed

end

section \<open>The bound\<close>

lemma stage_early_bounded: "staging_bounded p \<Longrightarrow> staging_bounded (stage_early h data p)"
  by (auto simp: staging_bounded_def stage_early_def Let_def)

lemma dgram_raise_queue: "de_queue (fst (dgram_raise ops e k)) = de_queue e"
  by (simp add: dgram_raise_def prod.case_eq_if)

lemma queues_bounded_upd:
  "queues_bounded d \<Longrightarrow> length (de_queue e) \<le> DGRAM_QUEUE_CAP \<Longrightarrow> queues_bounded (d(h \<mapsto> e))"
  by (simp add: queues_bounded_def)

lemma dgram_shutdown_bounded: "queues_bounded d \<Longrightarrow> queues_bounded (fst (dgram_shutdown_all ops hs (d, k)))"
proof (induction hs arbitrary: d k)
  case (Cons h hs)
  show ?case
  proof (cases "d h")
    case (Some e)
    then have "queues_bounded (d(h \<mapsto> fst (dgram_raise ops (e\<lparr>de_eof := True\<rparr>) k)))"
      using Cons.prems by (intro queues_bounded_upd) (simp_all add: dgram_raise_queue queues_bounded_def)
    then show ?thesis using Cons.IH Some by (simp add: prod.case_eq_if)
  qed (use Cons in simp)
qed simp

lemma staging_frame [simp]: "staging_bounded (p\<lparr>ps_handles := m\<rparr>) = staging_bounded p"
  by (simp add: staging_bounded_def)

lemma drain_entry_bounded: "staging_bounded p \<Longrightarrow> staging_bounded (fst (snd (drain_entry ops h (p, k))))"
  by (simp add: drain_entry_def Let_def split: option.splits prod.splits)

lemma push_bounded: "staging_bounded p \<Longrightarrow> staging_bounded (fst (pump_push ops h data (p, k)))"
  by (simp add: pump_push_def stage_early_bounded split: option.splits prod.splits write_outcome.splits)

lemma forget_staged: "staging_bounded p \<Longrightarrow> length (unwrap_or [] (((ps_early p)(h := None)) g)) \<le> EARLY_STAGE_CAP"
  by (simp add: staging_bounded_def)

lemma dgram_recv_bounded: "queues_bounded d \<Longrightarrow> queues_bounded (fst (snd (dgram_recv_one ops h (d, k))))"
  by (fastforce simp: dgram_recv_one_def queues_bounded_def Let_def prod.case_eq_if split: option.splits list.splits if_splits)

interpretation caps: pumps_inv ops staging_bounded queues_bounded for ops :: "'k kernel"
proof unfold_locales
  show "queues_bounded d \<Longrightarrow> queues_bounded (fst (dgram_push ops h dg (d, k)))" for d h dg k
    by (auto simp: queues_bounded_def dgram_push_def dgram_raise_queue prod.case_eq_if split: option.splits)
  show "staging_bounded p \<Longrightarrow> staging_bounded (pump_register h fd p)" for p h fd
    using forget_staged by (simp add: staging_bounded_def pump_register_def Let_def)
  show "staging_bounded p \<Longrightarrow> staging_bounded (pump_unregister h p)" for p h
    using forget_staged by (simp add: staging_bounded_def pump_unregister_def)
  show "staging_bounded p \<Longrightarrow> staging_bounded (pump_mark_eof h p)" for p h
    by (simp add: pump_mark_eof_def split: option.splits)
qed (simp_all add: push_bounded drain_entry_bounded pump_shutdown_all_def dgram_recv_bounded dgram_shutdown_bounded
    dgram_register_def dgram_unregister_def queues_bounded_upd, simp add: queues_bounded_def)

interpretation memory: process_inv sys staging_bounded queues_bounded for sys :: "('j, 'k) sys"
  by unfold_locales

text \<open>
  C19 (Bounded memory for unclaimed input). However a process runs, from its start: at most 256 KiB are
  staged for a handle that is not registered, and at most 4096 datagrams wait on a handle.
\<close>

theorem resource_bounds:
  assumes "(proc_step lc sys)\<^sup>*\<^sup>* w w'" and "sh_pump (w_shared w) = new_pump" and "sh_dgram (w_shared w) = Map.empty"
  shows "length (unwrap_or [] (ps_early (sh_pump (w_shared w')) h)) \<le> 262144 \<and>
    (case sh_dgram (w_shared w') h of Some e \<Rightarrow> length (de_queue e) \<le> 4096 | None \<Rightarrow> True)"
  using memory.process_kept [OF assms(1)] assms(2,3)
  by (auto simp: staging_bounded_def queues_bounded_def new_pump_def EARLY_STAGE_CAP_def DGRAM_QUEUE_CAP_def split: option.splits)

text \<open>A process whose reader gets data for a handle that nobody has registered.\<close>

definition unclaimed_world :: "(json, unix) world" where
  "unclaimed_world = (empty_world 9 [])\<lparr>w_client := Some (sample_conn [[2]] [] (empty_shared 9))\<rparr>"

theorem resource_bounds_witness:
  "length (unwrap_or [] (ps_early (sh_pump (w_shared (reader_turn (sample_sys 9) unclaimed_world))) 42)) \<le> 262144 \<and>
   (case sh_dgram (w_shared (reader_turn (sample_sys 9) unclaimed_world)) 42 of Some e \<Rightarrow> length (de_queue e) \<le> 4096 | None \<Rightarrow> True)"
proof (rule resource_bounds)
  show "(proc_step zero_libc (sample_sys 9))\<^sup>*\<^sup>* unclaimed_world (reader_turn (sample_sys 9) unclaimed_world)"
    by (rule r_into_rtranclp) (rule ps_reader)
qed (simp_all add: unclaimed_world_def empty_world_def empty_shared_def)

end
