(* ===== verification/Ipose_Serial.thy ===== *)
theory Ipose_Serial
  imports Ipose_State
begin

text \<open>
  The serialiser of the outbound pump in \<^verbatim>\<open>crates/ax25-interpose/src/state.rs\<close>, with the threads that
  use it interleaved step by step: the background thread in \<^verbatim>\<open>flush\<close>, any number of threads in an
  interposed write (\<^verbatim>\<open>send_ordered\<close>), and output that goes past the interposed calls straight into
  the socketpair. The state is that of one handle. Every access to shared state is a step: the
  lookup of the entry, taking its lock, a \<^verbatim>\<open>recv\<close>, a \<^verbatim>\<open>client.send\<close>, which may fail. What is in the
  socketpair, what was handed to the client and what the application has written are byte strings;
  \<open>ln_log\<close> is not part of the program, it records the order of the writes.
\<close>

section \<open>Definitions\<close>

text \<open>What a thread does with a handle: forward bypassed output, or that and then its own data.\<close>

datatype job = Flush | Write "byte list"

datatype lane_pc =
  Away | Found job | Draining job | Forwarding job "byte list" | Finishing "byte list" | Unordered "byte list"

text \<open>The descriptor at our end: the socketpair's, closed, or given to something else since, with bytes
  to read there.\<close>

datatype inner_end = Ours | Closed | Reused "byte list"

text \<open>\<open>ln_open\<close> says that the engine knows the handle; \<open>ln_sends\<close> are the calls of \<^verbatim>\<open>client.send\<close>, with what
  they answered.\<close>

record lane =
  ln_registered :: bool
  ln_open :: bool
  ln_end :: inner_end
  ln_pipe :: "byte list"
  ln_sends :: "(byte list \<times> bool) list"
  ln_serial :: "nat option"
  ln_pc :: "nat \<Rightarrow> lane_pc"
  ln_log :: "byte list"

text \<open>The bytes handed to the client, and those of them it could send.\<close>

definition ln_wire :: "lane \<Rightarrow> byte list" where
  "ln_wire s = concat (map fst (ln_sends s))"

definition ln_accepted :: "lane \<Rightarrow> byte list" where
  "ln_accepted s = concat (map fst (filter snd (ln_sends s)))"

text \<open>
  The steps. \<open>CloseHandle\<close> is the \<^verbatim>\<open>client.close\<close> of \<^verbatim>\<open>close\<close>, and also a handle that ends in the engine; a send on it
  fails from then on, since the close went out on the same connection before it. \<open>Unregister\<close> and \<open>CloseInner\<close> are
  \<^verbatim>\<open>destroy_ax25_fd\<close>, which \<^verbatim>\<open>close\<close> calls after that.
\<close>

datatype lane_act =
  Lookup nat job | Acquire nat | Receive nat nat | Forward nat bool | Finish nat bool | SendRaw nat bool
| Bypass "byte list" | CloseHandle | Unregister | CloseInner | Reuse "byte list"

definition lane_pc_upd :: "nat \<Rightarrow> lane_pc \<Rightarrow> lane \<Rightarrow> lane" where
  "lane_pc_upd i pc s = s\<lparr>ln_pc := (ln_pc s)(i := pc)\<rparr>"

definition client_sends :: "byte list \<Rightarrow> bool \<Rightarrow> lane \<Rightarrow> lane" where
  "client_sends d ok s = s\<lparr>ln_sends := ln_sends s @ [(d, ok)]\<rparr>"

text \<open>The end of \<^verbatim>\<open>drain_locked\<close>: \<^verbatim>\<open>flush\<close> lets go of the lock, \<^verbatim>\<open>send_ordered\<close> sends its own data first.\<close>

definition drained :: "nat \<Rightarrow> job \<Rightarrow> lane \<Rightarrow> lane" where
  "drained i j s =
     (case j of
        Flush \<Rightarrow> lane_pc_upd i Away (s\<lparr>ln_serial := None\<rparr>)
      | Write d \<Rightarrow> lane_pc_upd i (Finishing d) (s\<lparr>ln_log := ln_log s @ d\<rparr>))"

text \<open>One \<^verbatim>\<open>recv\<close> of the loop: at most a buffer full, possibly less than there is.\<close>

definition receive :: "nat \<Rightarrow> job \<Rightarrow> nat \<Rightarrow> lane \<Rightarrow> lane option" where
  "receive i j n s =
     (case ln_end s of
        Closed \<Rightarrow> Some (drained i j s)
      | Ours \<Rightarrow>
          if ln_pipe s = [] then Some (drained i j s)
          else if 0 < n \<and> n \<le> min OUT_CHUNK (length (ln_pipe s))
          then Some (lane_pc_upd i (Forwarding j (take n (ln_pipe s))) (s\<lparr>ln_pipe := drop n (ln_pipe s)\<rparr>))
          else None
      | Reused q \<Rightarrow>
          if q = [] then Some (drained i j s)
          else if 0 < n \<and> n \<le> min OUT_CHUNK (length q)
          then Some (lane_pc_upd i (Forwarding j (take n q)) (s\<lparr>ln_end := Reused (drop n q)\<rparr>))
          else None)"

text \<open>The result of a forwarded chunk is ignored. Without an entry \<^verbatim>\<open>send_ordered\<close> sends without the lock.\<close>

fun lane_step :: "lane_act \<Rightarrow> lane \<Rightarrow> lane option" where
  "lane_step (Lookup i j) s =
     (if ln_pc s i \<noteq> Away then None
      else if ln_registered s then Some (lane_pc_upd i (Found j) s)
      else (case j of Flush \<Rightarrow> Some s | Write d \<Rightarrow> Some (lane_pc_upd i (Unordered d) s)))"
| "lane_step (Acquire i) s =
     (case ln_pc s i of
        Found j \<Rightarrow> if ln_serial s = None then Some (lane_pc_upd i (Draining j) (s\<lparr>ln_serial := Some i\<rparr>)) else None
      | _ \<Rightarrow> None)"
| "lane_step (Receive i n) s = (case ln_pc s i of Draining j \<Rightarrow> receive i j n s | _ \<Rightarrow> None)"
| "lane_step (Forward i ok) s =
     (case ln_pc s i of
        Forwarding j c \<Rightarrow> if ok \<and> \<not> ln_open s then None else Some (lane_pc_upd i (Draining j) (client_sends c ok s))
      | _ \<Rightarrow> None)"
| "lane_step (Finish i ok) s =
     (case ln_pc s i of
        Finishing d \<Rightarrow> if ok \<and> \<not> ln_open s then None else Some (lane_pc_upd i Away (client_sends d ok (s\<lparr>ln_serial := None\<rparr>)))
      | _ \<Rightarrow> None)"
| "lane_step (SendRaw i ok) s =
     (case ln_pc s i of
        Unordered d \<Rightarrow>
          if ok \<and> \<not> ln_open s then None else Some (lane_pc_upd i Away (client_sends d ok (s\<lparr>ln_log := ln_log s @ d\<rparr>)))
      | _ \<Rightarrow> None)"
| "lane_step (Bypass bs) s =
     (if ln_end s = Ours then Some (s\<lparr>ln_pipe := ln_pipe s @ bs, ln_log := ln_log s @ bs\<rparr>) else None)"
| "lane_step CloseHandle s = Some (s\<lparr>ln_open := False\<rparr>)"
| "lane_step Unregister s = (if ln_open s then None else Some (s\<lparr>ln_registered := False\<rparr>))"
| "lane_step CloseInner s =
     (if ln_end s = Ours \<and> \<not> ln_registered s then Some (s\<lparr>ln_end := Closed, ln_pipe := []\<rparr>) else None)"
| "lane_step (Reuse q) s = (if ln_end s = Closed then Some (s\<lparr>ln_end := Reused q\<rparr>) else None)"

fun lane_run :: "lane_act list \<Rightarrow> lane \<Rightarrow> lane option" where
  "lane_run [] s = Some s"
| "lane_run (a # as) s = (case lane_step a s of None \<Rightarrow> None | Some s' \<Rightarrow> lane_run as s')"

definition new_lane :: lane where
  "new_lane = \<lparr>ln_registered = True, ln_open = True, ln_end = Ours, ln_pipe = [], ln_sends = [], ln_serial = None, ln_pc = (\<lambda>i. Away), ln_log = []\<rparr>"

text \<open>The bytes a thread has taken out of the socketpair, or will send itself.\<close>

fun pc_hand :: "lane_pc \<Rightarrow> byte list" where
  "pc_hand (Forwarding j c) = c"
| "pc_hand (Finishing d) = d"
| "pc_hand _ = []"

fun pc_holds :: "lane_pc \<Rightarrow> bool" where
  "pc_holds Away = False"
| "pc_holds (Found j) = False"
| "pc_holds (Unordered d) = False"
| "pc_holds _ = True"

definition in_hand :: "lane \<Rightarrow> byte list" where
  "in_hand s = (case ln_serial s of None \<Rightarrow> [] | Some i \<Rightarrow> pc_hand (ln_pc s i))"

text \<open>While the handle is registered: the lock is held by whoever is past it, and what the application
  wrote is on the wire, in hand or in the socketpair, in that order.\<close>

definition lane_ok :: "lane \<Rightarrow> bool" where
  "lane_ok s \<longleftrightarrow> ln_registered s \<and> ln_end s = Ours \<and> (\<forall>i. pc_holds (ln_pc s i) \<longleftrightarrow> ln_serial s = Some i) \<and>
     (\<forall>i d. ln_pc s i \<noteq> Unordered d) \<and>
     ln_wire s @ in_hand s @ ln_pipe s = ln_log s"

definition tearing_down :: "lane_act \<Rightarrow> bool" where
  "tearing_down a \<longleftrightarrow> a = Unregister \<or> a = CloseInner \<or> (\<exists>q. a = Reuse q)"

section \<open>The lock keeps the order\<close>

lemma lane_pc_upd_sel [simp]:
  "ln_pc (lane_pc_upd i pc s) = (ln_pc s)(i := pc)" "ln_registered (lane_pc_upd i pc s) = ln_registered s"
  "ln_end (lane_pc_upd i pc s) = ln_end s" "ln_pipe (lane_pc_upd i pc s) = ln_pipe s" "ln_wire (lane_pc_upd i pc s) = ln_wire s"
  "ln_serial (lane_pc_upd i pc s) = ln_serial s" "ln_log (lane_pc_upd i pc s) = ln_log s" "ln_open (lane_pc_upd i pc s) = ln_open s"
  "ln_accepted (lane_pc_upd i pc s) = ln_accepted s"
  by (simp_all add: lane_pc_upd_def ln_wire_def ln_accepted_def)

lemma client_sends_sel [simp]:
  "ln_pc (client_sends d ok s) = ln_pc s" "ln_registered (client_sends d ok s) = ln_registered s"
  "ln_end (client_sends d ok s) = ln_end s" "ln_pipe (client_sends d ok s) = ln_pipe s" "ln_wire (client_sends d ok s) = ln_wire s @ d"
  "ln_serial (client_sends d ok s) = ln_serial s" "ln_log (client_sends d ok s) = ln_log s" "ln_open (client_sends d ok s) = ln_open s"
  "ln_accepted (client_sends d ok s) = ln_accepted s @ (if ok then d else [])"
  by (simp_all add: client_sends_def ln_wire_def ln_accepted_def)

lemma ln_sends_only [simp]:
  "ln_wire (s\<lparr>ln_log := l\<rparr>) = ln_wire s" "ln_wire (s\<lparr>ln_serial := x\<rparr>) = ln_wire s" "ln_wire (s\<lparr>ln_pipe := p\<rparr>) = ln_wire s"
  "ln_wire (s\<lparr>ln_open := b\<rparr>) = ln_wire s" "ln_wire (s\<lparr>ln_registered := b\<rparr>) = ln_wire s" "ln_wire (s\<lparr>ln_end := e\<rparr>) = ln_wire s"
  "ln_accepted (s\<lparr>ln_log := l\<rparr>) = ln_accepted s" "ln_accepted (s\<lparr>ln_serial := x\<rparr>) = ln_accepted s"
  "ln_accepted (s\<lparr>ln_pipe := p\<rparr>) = ln_accepted s" "ln_accepted (s\<lparr>ln_open := b\<rparr>) = ln_accepted s"
  "ln_accepted (s\<lparr>ln_registered := b\<rparr>) = ln_accepted s" "ln_accepted (s\<lparr>ln_end := e\<rparr>) = ln_accepted s"
  by (simp_all add: ln_wire_def ln_accepted_def)

lemma lane_okD:
  assumes "lane_ok s"
  shows "ln_registered s" "ln_end s = Ours" "pc_holds (ln_pc s i) \<longleftrightarrow> ln_serial s = Some i"
    "ln_wire s @ in_hand s @ ln_pipe s = ln_log s" "ln_pc s i \<noteq> Unordered d"
  using assms by (simp_all add: lane_ok_def)

text \<open>A step of one thread: it takes, keeps or lets go of the lock, and moves bytes along.\<close>

lemma lane_ok_move:
  assumes ok: "lane_ok s" and holds: "pc_holds (ln_pc s i) \<or> ln_serial s = None"
    and s': "ln_registered s'" "ln_end s' = Ours" "ln_pc s' = (ln_pc s)(i := pc)" "ln_serial s' = (if pc_holds pc then Some i else None)"
    and pc: "\<And>d. pc \<noteq> Unordered d" and bytes: "ln_wire s' @ pc_hand pc @ ln_pipe s' = ln_log s'"
  shows "lane_ok s'"
proof -
  have other: "\<not> pc_holds (ln_pc s k)" if "k \<noteq> i" for k
    using lane_okD(3) [OF ok, of k] lane_okD(3) [OF ok, of i] holds that by auto
  have "pc_holds (ln_pc s' k) \<longleftrightarrow> ln_serial s' = Some k" for k
    using other [of k] s'(3,4) by (cases "k = i") auto
  moreover have "in_hand s' = pc_hand pc"
  proof (cases "pc_holds pc")
    case False
    then show ?thesis using s'(4) by (cases pc) (simp_all add: in_hand_def)
  qed (use s'(3,4) in \<open>simp add: in_hand_def\<close>)
  moreover have "ln_pc s' k \<noteq> Unordered d" for k d using lane_okD(5) [OF ok, of k] pc s'(3) by simp
  ultimately show ?thesis using s'(1,2) bytes by (simp add: lane_ok_def)
qed

lemma in_hand_of: "ln_serial s = Some i \<Longrightarrow> in_hand s = pc_hand (ln_pc s i)"
  by (simp add: in_hand_def)

lemma lane_receive_ok:
  assumes ok: "lane_ok s" and pc: "ln_pc s i = Draining j" and r: "receive i j n s = Some s'"
  shows "lane_ok s'"
proof -
  have ser: "ln_serial s = Some i" using lane_okD(3) [OF ok, of i] pc by simp
  have bytes: "ln_wire s @ ln_pipe s = ln_log s" using lane_okD(4) [OF ok] in_hand_of [OF ser] pc by simp
  show ?thesis
  proof (cases "ln_pipe s = []")
    case True
    then have s': "s' = drained i j s" using r lane_okD(2) [OF ok] by (simp add: receive_def)
    show ?thesis
    proof (cases j)
      case Flush
      show ?thesis by (rule lane_ok_move [OF ok, of i _ Away])
          (use lane_okD(1,2) [OF ok] pc bytes True in \<open>simp_all add: s' drained_def Flush\<close>)
    next
      case (Write d)
      show ?thesis by (rule lane_ok_move [OF ok, of i _ "Finishing d"])
          (use lane_okD(1,2) [OF ok] pc bytes True ser in \<open>simp_all add: s' drained_def Write\<close>)
    qed
  next
    case False
    then have s': "s' = lane_pc_upd i (Forwarding j (take n (ln_pipe s))) (s\<lparr>ln_pipe := drop n (ln_pipe s)\<rparr>)"
      using r lane_okD(2) [OF ok] by (simp add: receive_def split: if_splits)
    show ?thesis by (rule lane_ok_move [OF ok, of i _ "Forwarding j (take n (ln_pipe s))"])
        (use lane_okD(1,2) [OF ok] pc bytes ser in \<open>simp_all add: s'\<close>)
  qed
qed

lemma lane_step_ok:
  assumes step: "lane_step a s = Some s'" and ok: "lane_ok s" and "\<not> tearing_down a"
  shows "lane_ok s'"
proof (cases a)
  case (Lookup i j)
  then have s': "ln_pc s i = Away" "s' = lane_pc_upd i (Found j) s"
    using step lane_okD(1) [OF ok] by (auto split: if_splits)
  have "in_hand s' = in_hand s" using s' lane_okD(3) [OF ok, of i] by (auto simp: in_hand_def split: option.splits)
  moreover have "pc_holds (ln_pc s' k) \<longleftrightarrow> ln_serial s' = Some k" for k
    using lane_okD(3) [OF ok, of k] s' by (cases "k = i") simp_all
  ultimately show ?thesis using ok s'(2) by (simp add: lane_ok_def)
next
  case (Acquire i)
  then obtain j where s': "ln_pc s i = Found j" "ln_serial s = None" "s' = lane_pc_upd i (Draining j) (s\<lparr>ln_serial := Some i\<rparr>)"
    using step by (auto split: lane_pc.splits if_splits)
  show ?thesis by (rule lane_ok_move [OF ok, of i _ "Draining j"])
      (use lane_okD(1,2,4) [OF ok] s' in \<open>simp_all add: in_hand_def\<close>)
next
  case (Receive i n)
  then show ?thesis using step lane_receive_ok [OF ok] by (auto split: lane_pc.splits)
next
  case (Forward i sent)
  then obtain j c where s': "ln_pc s i = Forwarding j c" "s' = lane_pc_upd i (Draining j) (client_sends c sent s)"
    using step by (auto split: lane_pc.splits if_splits)
  then have ser: "ln_serial s = Some i" using lane_okD(3) [OF ok, of i] by simp
  show ?thesis by (rule lane_ok_move [OF ok, of i _ "Draining j"])
      (use lane_okD(1,2,4) [OF ok] in_hand_of [OF ser] s' ser in \<open>simp_all\<close>)
next
  case (Finish i sent)
  then obtain d where s': "ln_pc s i = Finishing d" "s' = lane_pc_upd i Away (client_sends d sent (s\<lparr>ln_serial := None\<rparr>))"
    using step by (auto split: lane_pc.splits if_splits)
  then have ser: "ln_serial s = Some i" using lane_okD(3) [OF ok, of i] by simp
  show ?thesis by (rule lane_ok_move [OF ok, of i _ Away])
      (use lane_okD(1,2,4) [OF ok] in_hand_of [OF ser] s' in \<open>simp_all\<close>)
next
  case (Bypass bs)
  then have s': "s' = s\<lparr>ln_pipe := ln_pipe s @ bs, ln_log := ln_log s @ bs\<rparr>" using step by (simp split: if_splits)
  then have "in_hand s' = in_hand s" by (cases "ln_serial s") (simp_all add: in_hand_def)
  moreover have "ln_wire s @ in_hand s @ ln_pipe s @ bs = ln_log s @ bs" by (simp add: lane_okD(4) [OF ok, symmetric])
  ultimately show ?thesis using ok s' by (simp add: lane_ok_def)
next
  case (SendRaw i sent)
  then show ?thesis using step lane_okD(5) [OF ok, of i] by (auto split: lane_pc.splits)
next
  case CloseHandle
  then show ?thesis using step ok by (auto simp: lane_ok_def in_hand_def split: option.splits)
qed (use assms(3) in \<open>simp_all add: tearing_down_def\<close>)

lemma lane_run_ok:
  assumes "lane_run as s = Some s'" and "lane_ok s" and "\<And>a. a \<in> set as \<Longrightarrow> \<not> tearing_down a"
  shows "lane_ok s'"
  using assms
proof (induction as arbitrary: s)
  case (Cons a as)
  then obtain t where "lane_step a s = Some t" "lane_run as t = Some s'" by (auto split: option.splits)
  then show ?case using Cons.IH [of t] Cons.prems lane_step_ok [of a s t] by simp
qed simp

lemma lane_run_append:
  "lane_run (as @ bs) s = (case lane_run as s of None \<Rightarrow> None | Some s' \<Rightarrow> lane_run bs s')"
  by (induction as arbitrary: s) (simp_all split: option.splits)

lemma new_lane_ok: "lane_ok new_lane"
  by (simp add: lane_ok_def new_lane_def in_hand_def ln_wire_def)

text \<open>Where a thread is that has begun to write \<open>d\<close> when \<open>l\<close> had been written: it has not looked at its
  own data yet, or all of \<open>l\<close> is on the wire already.\<close>

definition write_under_way :: "nat \<Rightarrow> byte list \<Rightarrow> byte list \<Rightarrow> lane \<Rightarrow> bool" where
  "write_under_way i d l s \<longleftrightarrow> (\<exists>m. ln_log s = l @ m) \<and>
     (case ln_pc s i of
        Found j \<Rightarrow> j = Write d
      | Draining j \<Rightarrow> j = Write d
      | Forwarding j c \<Rightarrow> j = Write d
      | Finishing d' \<Rightarrow> d' = d \<and> (\<exists>m. ln_wire s = l @ m)
      | _ \<Rightarrow> False)"

lemma under_way_other:
  assumes "write_under_way i d l s" and "ln_pc s' i = ln_pc s i" and "ln_log s' = ln_log s @ m" and "ln_wire s' = ln_wire s @ m'"
  shows "write_under_way i d l s'"
  using assms by (auto simp: write_under_way_def split: lane_pc.splits)

fun act_thread :: "lane_act \<Rightarrow> nat option" where
  "act_thread (Lookup i j) = Some i"
| "act_thread (Acquire i) = Some i"
| "act_thread (Receive i n) = Some i"
| "act_thread (Forward i ok) = Some i"
| "act_thread (Finish i ok) = Some i"
| "act_thread (SendRaw i ok) = Some i"
| "act_thread _ = None"

lemma lane_step_effect:
  assumes "lane_step a s = Some s'"
  shows "\<exists>m. ln_log s' = ln_log s @ m" and "\<exists>m. ln_wire s' = ln_wire s @ m"
    and "act_thread a \<noteq> Some i \<Longrightarrow> ln_pc s' i = ln_pc s i"
  using assms
  by (cases a; auto simp: receive_def drained_def split: lane_pc.splits if_splits job.splits inner_end.splits)+

lemma under_way_step:
  assumes ok: "lane_ok s" and uw: "write_under_way i d l s" and step: "lane_step a s = Some s'" and "\<And>ok. a \<noteq> Finish i ok"
  shows "write_under_way i d l s'"
proof (cases "act_thread a = Some i")
  case False
  then show ?thesis
    using under_way_other [OF uw lane_step_effect(3) [OF step False]] lane_step_effect(1,2) [OF step] by blast
next
  case True
  obtain m where m: "ln_log s = l @ m" using uw by (auto simp: write_under_way_def)
  show ?thesis
  proof (cases a)
    case (Lookup k j)
    then show ?thesis using True uw step by (auto simp: write_under_way_def split: lane_pc.splits if_splits)
  next
    case (Acquire k)
    then show ?thesis using True uw step by (auto simp: write_under_way_def split: lane_pc.splits if_splits)
  next
    case (Receive k n)
    then have k: "k = i" using True by simp
    then have pc: "ln_pc s i = Draining (Write d)" and r: "receive i (Write d) n s = Some s'"
      using Receive uw step by (auto simp: write_under_way_def split: lane_pc.splits)
    have "ln_serial s = Some i" using lane_okD(3) [OF ok, of i] pc by simp
    then have "ln_wire s @ ln_pipe s = l @ m" using lane_okD(4) [OF ok] m pc by (simp add: in_hand_of)
    then show ?thesis using r lane_okD(2) [OF ok] m
      by (auto simp: receive_def drained_def write_under_way_def split: if_splits)
  next
    case (Forward k sent)
    then show ?thesis using True uw step by (auto simp: write_under_way_def split: lane_pc.splits if_splits)
  next
    case (SendRaw k sent)
    then show ?thesis using True uw step by (auto simp: write_under_way_def split: lane_pc.splits)
  qed (use True assms(4) in auto)
qed

lemma under_way_run:
  assumes "lane_run as s = Some s'" and "lane_ok s" and "write_under_way i d l s"
    and "\<And>a. a \<in> set as \<Longrightarrow> \<not> tearing_down a \<and> (\<forall>ok. a \<noteq> Finish i ok)"
  shows "lane_ok s' \<and> write_under_way i d l s'"
  using assms
proof (induction as arbitrary: s)
  case (Cons a as)
  then obtain t where t: "lane_step a s = Some t" "lane_run as t = Some s'" by (auto split: option.splits)
  have "lane_ok t" "write_under_way i d l t"
    using Cons.prems lane_step_ok [OF t(1)] under_way_step [OF _ _ t(1)] by auto
  then show ?case using Cons.IH [OF t(2)] Cons.prems by simp
qed simp

section \<open>Properties\<close>

text \<open>
  C5 (Writes are serialised). While a handle is registered, whatever the interleaving of the background
  flush, interposed writes and bypassed output of any number of threads, and whether the sends succeed
  or fail: all output has been handed to the client, is in the hands of the thread that has the lock,
  or in the socketpair, once and in the order it was written; and when an interposed write returns,
  everything that any thread had written when it began was handed to the client before its data.
\<close>

theorem writes_serialised:
  assumes "lane_run as new_lane = Some s1" and "\<And>a. a \<in> set as \<Longrightarrow> \<not> tearing_down a"
    and "lane_step (Lookup i (Write d)) s1 = Some s2"
    and "lane_run bs s2 = Some s3" and "\<And>a. a \<in> set bs \<Longrightarrow> \<not> tearing_down a \<and> (\<forall>ok. a \<noteq> Finish i ok)"
    and "lane_step (Finish i ok) s3 = Some s4"
  shows "ln_wire s4 @ in_hand s4 @ ln_pipe s4 = ln_log s4 \<and> (\<exists>m. ln_wire s4 = ln_log s1 @ m @ d)"
proof
  have ok1: "lane_ok s1" by (rule lane_run_ok [OF assms(1) new_lane_ok assms(2)])
  have ok2: "lane_ok s2" by (rule lane_step_ok [OF assms(3) ok1]) (simp add: tearing_down_def)
  have "write_under_way i d (ln_log s1) s2"
    using assms(3) lane_okD(1) [OF ok1] by (auto simp: write_under_way_def split: if_splits)
  then have s3: "lane_ok s3" "write_under_way i d (ln_log s1) s3" using under_way_run [OF assms(4) ok2 _ assms(5)] by simp_all
  have "lane_ok s4" by (rule lane_step_ok [OF assms(6) s3(1)]) (simp add: tearing_down_def)
  then show "ln_wire s4 @ in_hand s4 @ ln_pipe s4 = ln_log s4" by (rule lane_okD(4))
  show "\<exists>m. ln_wire s4 = ln_log s1 @ m @ d" using s3(2) assms(6)
    by (auto simp: write_under_way_def split: lane_pc.splits if_splits)
qed

text \<open>Bypassed output waits while the background thread is forwarding some of it and another thread
  writes.\<close>

theorem writes_serialised_witness:
  "\<exists>s1 s2 s3 s4. lane_run [Bypass [1, 2, 3], Lookup 0 Flush, Acquire 0, Receive 0 2] new_lane = Some s1 \<and>
     lane_step (Lookup 1 (Write [7, 8])) s1 = Some s2 \<and>
     lane_run [Bypass [4], Forward 0 True, Receive 0 2, Forward 0 True, Receive 0 0, Acquire 1, Receive 1 0, Bypass [9]] s2 = Some s3 \<and>
     lane_step (Finish 1 True) s3 = Some s4 \<and> ln_wire s4 = [1, 2, 3, 4, 7, 8] \<and> ln_pipe s4 = [9] \<and>
     ln_wire s4 @ in_hand s4 @ ln_pipe s4 = ln_log s4 \<and> (\<exists>m. ln_wire s4 = ln_log s1 @ m @ [7, 8])"
proof -
  let ?as = "[Bypass [1, 2, 3], Lookup 0 Flush, Acquire 0, Receive 0 2]"
  let ?bs = "[Bypass [4], Forward 0 True, Receive 0 2, Forward 0 True, Receive 0 0, Acquire 1, Receive 1 0, Bypass [9]]"
  have "\<exists>s1 s2 s3 s4. lane_run ?as new_lane = Some s1 \<and> lane_step (Lookup 1 (Write [7, 8])) s1 = Some s2 \<and>
      lane_run ?bs s2 = Some s3 \<and> lane_step (Finish 1 True) s3 = Some s4 \<and> ln_wire s4 = [1, 2, 3, 4, 7, 8] \<and> ln_pipe s4 = [9]"
    by (simp add: new_lane_def lane_pc_upd_def client_sends_def receive_def drained_def OUT_CHUNK_def ln_wire_def)
  then obtain s1 s2 s3 s4 where s: "lane_run ?as new_lane = Some s1" "lane_step (Lookup 1 (Write [7, 8])) s1 = Some s2"
      "lane_run ?bs s2 = Some s3" "lane_step (Finish 1 True) s3 = Some s4" "ln_wire s4 = [1, 2, 3, 4, 7, 8]" "ln_pipe s4 = [9]"
    by blast
  moreover have "ln_wire s4 @ in_hand s4 @ ln_pipe s4 = ln_log s4 \<and> (\<exists>m. ln_wire s4 = ln_log s1 @ m @ [7, 8])"
    by (rule writes_serialised [OF s(1) _ s(2,3) _ s(4)]) (auto simp: tearing_down_def)
  ultimately show ?thesis by blast
qed







end
