(* ===== verification/Ipose_Gate.thy ===== *)
theory Ipose_Gate
  imports Ipose_State
begin

text \<open>
  The race at the end of a non-blocking \<^verbatim>\<open>connect\<close> (\<^verbatim>\<open>crates/ax25-interpose/src/lib.rs\<close>, with
  \<^verbatim>\<open>arm_connect_gate\<close> and \<^verbatim>\<open>resolve_connect_gate\<close> of \<^verbatim>\<open>state.rs\<close>): the connecting thread fills the
  socketpair, enters the gate, looks whether the link has resolved meanwhile and if so opens the
  gate itself; the reader thread records the outcome and opens the gate, if it finds one. Each
  thread's accesses to shared state are steps of their own, on the state of \<open>Ipose_State\<close>; other
  threads may act in between as long as they leave this handle and this end of its socketpair alone.
\<close>

section \<open>Definitions\<close>

datatype gate_pc = Fill | Insert | Check | Mark "int option" | Remove | Drain int | Enroll int | Over

record 'k gate_race =
  gr_shared :: "'k shared"
  gr_conns :: conn_registry
  gr_app :: gate_pc
  gr_reader :: gate_pc

text \<open>The steps, in the order of the code: \<open>Fill\<close> and \<open>Insert\<close> are \<^verbatim>\<open>arm_connect_gate\<close>, \<open>Check\<close> is the
  \<^verbatim>\<open>connect_result\<close> of \<^verbatim>\<open>connect\<close>, \<open>Mark\<close> the reader's update of the registry, with the reason of a
  failure (a lost transport marks this handle like a close), and the rest is \<^verbatim>\<open>resolve_connect_gate\<close>.\<close>

fun gate_step :: "'k kernel \<Rightarrow> u64 \<Rightarrow> int \<Rightarrow> int \<Rightarrow> gate_pc \<Rightarrow> 'k shared \<times> conn_registry \<Rightarrow> gate_pc \<times> 'k shared \<times> conn_registry" where
  "gate_step ops h app inner Fill (s, r) =
     (Insert, s\<lparr>sh_kernel := send_until_full ops (k_fuel ops) app (k_set_sndbuf ops app GATE_CHUNK (sh_kernel s))\<rparr>, r)"
| "gate_step ops h app inner Insert (s, r) = (Check, s\<lparr>sh_gates := (sh_gates s)(h \<mapsto> inner)\<rparr>, r)"
| "gate_step ops h app inner Check (s, r) = (if conn_result h r \<noteq> None then Remove else Over, s, r)"
| "gate_step ops h app inner (Mark out) (s, r) =
     (Remove, s, case out of None \<Rightarrow> mark_connected h r | Some e \<Rightarrow> mark_failed h e r)"
| "gate_step ops h app inner Remove (s, r) =
     (case sh_gates s h of
        None \<Rightarrow> (Over, s, r)
      | Some fd \<Rightarrow> (Drain fd, s\<lparr>sh_gates := (sh_gates s)(h := None)\<rparr>, r))"
| "gate_step ops h app inner (Drain fd) (s, r) =
     (Enroll fd, s\<lparr>sh_kernel := recv_until_empty ops (k_fuel ops) fd (sh_kernel s)\<rparr>, r)"
| "gate_step ops h app inner (Enroll fd) (s, r) = (Over, s\<lparr>sh_out := out_register h fd (sh_out s)\<rparr>, r)"
| "gate_step ops h app inner Over (s, r) = (Over, s, r)"

datatype 'k gate_turn = AppMoves | ReaderMoves | OthersMove "'k shared \<Rightarrow> 'k shared"

fun race_turn :: "'k kernel \<Rightarrow> u64 \<Rightarrow> int \<Rightarrow> int \<Rightarrow> 'k gate_turn \<Rightarrow> 'k gate_race \<Rightarrow> 'k gate_race" where
  "race_turn ops h app inner AppMoves g =
     (case gate_step ops h app inner (gr_app g) (gr_shared g, gr_conns g) of (pc, s, r) \<Rightarrow>
        g\<lparr>gr_app := pc, gr_shared := s, gr_conns := r\<rparr>)"
| "race_turn ops h app inner ReaderMoves g =
     (case gate_step ops h app inner (gr_reader g) (gr_shared g, gr_conns g) of (pc, s, r) \<Rightarrow>
        g\<lparr>gr_reader := pc, gr_shared := s, gr_conns := r\<rparr>)"
| "race_turn ops h app inner (OthersMove f) g = g\<lparr>gr_shared := f (gr_shared g)\<rparr>"

definition race_start :: "int option \<Rightarrow> conn_registry \<Rightarrow> 'k shared \<Rightarrow> 'k gate_race" where
  "race_start out conns s = \<lparr>gr_shared = s, gr_conns = conns, gr_app = Fill, gr_reader = Mark out\<rparr>"

text \<open>What other threads may do.\<close>

definition harmless :: "('k \<Rightarrow> int \<Rightarrow> bool) \<Rightarrow> ('k \<Rightarrow> int \<Rightarrow> byte list) \<Rightarrow> ('k \<Rightarrow> int \<Rightarrow> int option) \<Rightarrow> int \<Rightarrow> u64 \<Rightarrow>
    ('k shared \<Rightarrow> 'k shared) \<Rightarrow> bool" where
  "harmless shut pipe pair app h f \<longleftrightarrow> (\<forall>s. sh_gates (f s) h = sh_gates s h \<and> sh_out (f s) h = sh_out s h \<and>
     pipe (sh_kernel (f s)) app = pipe (sh_kernel s) app \<and> pair (sh_kernel (f s)) app = pair (sh_kernel s) app \<and>
     shut (sh_kernel (f s)) app = shut (sh_kernel s) app)"

fun gate_rank :: "gate_pc \<Rightarrow> nat" where
  "gate_rank Fill = 6"
| "gate_rank Insert = 5"
| "gate_rank Check = 4"
| "gate_rank (Mark out) = 4"
| "gate_rank Remove = 3"
| "gate_rank (Drain fd) = 2"
| "gate_rank (Enroll fd) = 1"
| "gate_rank Over = 0"

text \<open>Who will open the gate.\<close>

definition opens_gate :: "gate_pc \<Rightarrow> bool" where
  "opens_gate pc \<longleftrightarrow> gate_rank pc \<in> {1, 2}"

fun marks :: "gate_pc \<Rightarrow> bool" where
  "marks (Mark out) = True"
| "marks _ = False"

fun pc_fd_is :: "int \<Rightarrow> gate_pc \<Rightarrow> bool" where
  "pc_fd_is inner (Drain fd) = (fd = inner)"
| "pc_fd_is inner (Enroll fd) = (fd = inner)"
| "pc_fd_is inner _ = True"

definition race_ok :: "'k kernel \<Rightarrow> ('k \<Rightarrow> int \<Rightarrow> bool) \<Rightarrow> ('k \<Rightarrow> int \<Rightarrow> byte list) \<Rightarrow> ('k \<Rightarrow> int \<Rightarrow> int option) \<Rightarrow> int \<Rightarrow> int \<Rightarrow> u64 \<Rightarrow>
    'k gate_race \<Rightarrow> bool" where
  "race_ok ops shut pipe pair app inner h g \<longleftrightarrow>
     (let s = gr_shared g; k = sh_kernel s; armed = (gr_app g \<noteq> Fill \<and> gr_app g \<noteq> Insert) in
      pair k app = Some inner \<and> \<not> shut k app \<and> length (pipe k app) \<le> k_fuel ops \<and>
      pc_fd_is inner (gr_app g) \<and> pc_fd_is inner (gr_reader g) \<and> \<not> marks (gr_app g) \<and>
      gr_reader g \<notin> {Fill, Insert, Check} \<and> gr_conns g h \<noteq> None \<and>
      (\<not> marks (gr_reader g) \<longrightarrow> conn_result h (gr_conns g) \<noteq> None) \<and>
      (gr_app g = Fill \<longrightarrow> pipe k app = []) \<and>
      (\<not> armed \<longrightarrow> sh_gates s h = None \<and> sh_out s h = None \<and> \<not> opens_gate (gr_reader g)) \<and>
      (armed \<longrightarrow>
         (sh_gates s h = Some inner \<and> (gr_app g \<in> {Check, Remove} \<or> marks (gr_reader g) \<or> gr_reader g = Remove)) \<or>
         (sh_gates s h = None \<and> (opens_gate (gr_app g) \<or> opens_gate (gr_reader g) \<or> sh_out s h \<noteq> None))) \<and>
      (sh_out s h = None \<or> sh_out s h = Some inner) \<and>
      (gate_rank (gr_app g) = 1 \<or> gate_rank (gr_reader g) = 1 \<or> sh_out s h \<noteq> None \<longrightarrow> pipe k app = []))"

section \<open>The steps together\<close>

text \<open>A thread that is not interrupted does what the functions of \<open>Ipose_State\<close> do.\<close>

fun gate_steps :: "'k kernel \<Rightarrow> u64 \<Rightarrow> int \<Rightarrow> int \<Rightarrow> nat \<Rightarrow> gate_pc \<times> 'k shared \<times> conn_registry \<Rightarrow> gate_pc \<times> 'k shared \<times> conn_registry" where
  "gate_steps ops h app inner 0 x = x"
| "gate_steps ops h app inner (Suc n) x = gate_steps ops h app inner n (gate_step ops h app inner (fst x) (snd x))"

lemma arm_steps: "gate_steps ops h app inner 2 (Fill, s, r) = (Check, arm_connect_gate ops h app inner s, r)"
  by (simp add: numeral_2_eq_2 arm_connect_gate_def)

lemma resolve_steps: "gate_steps ops h app inner 3 (Remove, s, r) = (Over, resolve_connect_gate ops h s, r)"
  by (simp add: numeral_3_eq_3 resolve_connect_gate_def split: option.splits)

section \<open>The gate is opened\<close>

context socket_kernel
begin

lemma fill_gate:
  assumes "pair k app = Some inner" and "\<not> shut k app" and "pipe k app = []"
    and "room (k_set_sndbuf ops app GATE_CHUNK k) app \<le> k_fuel ops"
  shows "pair (send_until_full ops (k_fuel ops) app (k_set_sndbuf ops app GATE_CHUNK k)) app = Some inner"
    and "\<not> shut (send_until_full ops (k_fuel ops) app (k_set_sndbuf ops app GATE_CHUNK k)) app"
    and "length (pipe (send_until_full ops (k_fuel ops) app (k_set_sndbuf ops app GATE_CHUNK k)) app) \<le> k_fuel ops"
proof -
  have "pair (k_set_sndbuf ops app GATE_CHUNK k) = pair k \<and> pipe (k_set_sndbuf ops app GATE_CHUNK k) = pipe k \<and>
      shut (k_set_sndbuf ops app GATE_CHUNK k) = shut k"
    by (rule sndbuf_frame [OF assms(1)]) (simp add: GATE_CHUNK_def)
  then show "pair (send_until_full ops (k_fuel ops) app (k_set_sndbuf ops app GATE_CHUNK k)) app = Some inner"
    "\<not> shut (send_until_full ops (k_fuel ops) app (k_set_sndbuf ops app GATE_CHUNK k)) app"
    "length (pipe (send_until_full ops (k_fuel ops) app (k_set_sndbuf ops app GATE_CHUNK k)) app) \<le> k_fuel ops"
    using fill_pipe [of "k_set_sndbuf ops app GATE_CHUNK k" app inner "k_fuel ops"] assms by simp_all
qed

lemma app_moves_ok:
  assumes ok: "race_ok ops shut pipe pair app inner h g"
    and fuel: "\<And>k. pair k app = Some inner \<Longrightarrow> pipe k app = [] \<Longrightarrow> room (k_set_sndbuf ops app GATE_CHUNK k) app \<le> k_fuel ops"
  shows "race_ok ops shut pipe pair app inner h (race_turn ops h app inner AppMoves g)"
proof (cases "gr_app g")
  case Fill
  then show ?thesis using ok fill_gate [of "sh_kernel (gr_shared g)" app inner] fuel [of "sh_kernel (gr_shared g)"]
    by (auto simp: race_ok_def Let_def opens_gate_def)
next
  case Remove
  then show ?thesis using ok by (auto simp: race_ok_def Let_def opens_gate_def split: option.splits)
next
  case (Drain fd)
  then show ?thesis using ok drain_pipe [of "sh_kernel (gr_shared g)" app inner "k_fuel ops"]
    by (auto simp: race_ok_def Let_def opens_gate_def)
next
  case (Enroll fd)
  then show ?thesis using ok by (auto simp: race_ok_def Let_def opens_gate_def out_register_def split: option.splits)
qed (use ok in \<open>auto simp: race_ok_def Let_def opens_gate_def\<close>)

lemma reader_moves_ok:
  assumes ok: "race_ok ops shut pipe pair app inner h g"
  shows "race_ok ops shut pipe pair app inner h (race_turn ops h app inner ReaderMoves g)"
proof (cases "gr_reader g")
  case (Mark out)
  have "r h \<noteq> None \<Longrightarrow> (case out of None \<Rightarrow> mark_connected h r | Some e \<Rightarrow> mark_failed h e r) h \<noteq> None \<and>
      conn_result h (case out of None \<Rightarrow> mark_connected h r | Some e \<Rightarrow> mark_failed h e r) \<noteq> None" for r
    by (auto simp: mark_connected_def mark_failed_def conn_result_def split: option.splits conn_phase.splits)
  from this [of "gr_conns g"] Mark show ?thesis using ok by (auto simp: race_ok_def Let_def opens_gate_def)
next
  case Remove
  then show ?thesis using ok by (auto simp: race_ok_def Let_def opens_gate_def split: option.splits)
next
  case (Drain fd)
  then show ?thesis using ok drain_pipe [of "sh_kernel (gr_shared g)" app inner "k_fuel ops"]
    by (auto simp: race_ok_def Let_def opens_gate_def)
next
  case (Enroll fd)
  then show ?thesis using ok by (auto simp: race_ok_def Let_def opens_gate_def out_register_def split: option.splits)
qed (use ok in \<open>auto simp: race_ok_def Let_def opens_gate_def\<close>)

lemma race_turns_ok:
  assumes "race_ok ops shut pipe pair app inner h g"
    and "\<And>k. pair k app = Some inner \<Longrightarrow> pipe k app = [] \<Longrightarrow> room (k_set_sndbuf ops app GATE_CHUNK k) app \<le> k_fuel ops"
    and "\<And>f. OthersMove f \<in> set sched \<Longrightarrow> harmless shut pipe pair app h f"
  shows "race_ok ops shut pipe pair app inner h (fold (race_turn ops h app inner) sched g)"
  using assms(1,3)
proof (induction sched arbitrary: g)
  case (Cons t sched)
  have "race_ok ops shut pipe pair app inner h (race_turn ops h app inner t g)"
  proof (cases t)
    case (OthersMove f)
    then have "harmless shut pipe pair app h f" using Cons.prems(2) by simp
    then show ?thesis using Cons.prems(1) OthersMove by (simp add: race_ok_def harmless_def Let_def)
  qed (use Cons.prems(1) assms(2) in \<open>simp_all only: app_moves_ok reader_moves_ok\<close>)
  then show ?case using Cons by simp
qed simp

end

text \<open>Each turn brings its thread nearer to its end.\<close>

lemma gate_step_rank: "gate_rank (fst (gate_step ops h app inner pc x)) \<le> gate_rank pc - 1"
  by (cases x; cases pc) (auto split: option.splits)

lemma race_ranks:
  "gate_rank (gr_app (fold (race_turn ops h app inner) sched g)) \<le> gate_rank (gr_app g) - count_list sched AppMoves \<and>
   gate_rank (gr_reader (fold (race_turn ops h app inner) sched g)) \<le> gate_rank (gr_reader g) - count_list sched ReaderMoves"
proof (induction sched arbitrary: g)
  case (Cons t sched)
  have "gate_rank (gr_app (race_turn ops h app inner t g)) \<le> gate_rank (gr_app g) - (if t = AppMoves then 1 else 0)"
    "gate_rank (gr_reader (race_turn ops h app inner t g)) \<le> gate_rank (gr_reader g) - (if t = ReaderMoves then 1 else 0)"
    using gate_step_rank [of ops h app inner "gr_app g" "(gr_shared g, gr_conns g)"]
      gate_step_rank [of ops h app inner "gr_reader g" "(gr_shared g, gr_conns g)"]
    by (cases t; simp add: prod.case_eq_if)+
  then show ?case using Cons.IH [of "race_turn ops h app inner t g"] by (cases t) auto
qed simp

lemma rank_over: "gate_rank pc = 0 \<Longrightarrow> pc = Over"
  by (cases pc) simp_all

text \<open>
  C13 (The gate of a non-blocking connect opens). From the moment the connect is in the registry, pending or
  already resolved, and whatever its outcome and the order in which the connecting thread arms the
  gate and looks for the outcome, the reader thread records it and looks for the gate, and other
  threads do other things: after six turns of the one and four of the other the
  gate is gone, the socketpair is empty and writable again, and the handle is registered for
  forwarding.
\<close>

theorem gate_race_resolved:
  assumes "socket_kernel ops wrote shut pipe pair room" and "pair (sh_kernel s) app = Some inner"
    and "\<not> shut (sh_kernel s) app" and "pipe (sh_kernel s) app = []" and "sh_gates s h = None" and "sh_out s h = None"
    and "\<And>k. pair k app = Some inner \<Longrightarrow> pipe k app = [] \<Longrightarrow> room (k_set_sndbuf ops app GATE_CHUNK k) app \<le> k_fuel ops"
    and "\<And>f. OthersMove f \<in> set sched \<Longrightarrow> harmless shut pipe pair app h f"
    and "conns h \<noteq> None" and "6 \<le> count_list sched AppMoves" and "4 \<le> count_list sched ReaderMoves"
    and "s' = gr_shared (fold (race_turn ops h app inner) sched (race_start out conns s))"
  shows "sh_gates s' h = None \<and> sh_out s' h = Some inner \<and> pipe (sh_kernel s') app = [] \<and> 0 < room (sh_kernel s') app"
proof -
  let ?g = "fold (race_turn ops h app inner) sched (race_start out conns s)"
  have "race_ok ops shut pipe pair app inner h (race_start out conns s)"
    using assms(2-6,9) by (simp add: race_ok_def race_start_def opens_gate_def)
  from socket_kernel.race_turns_ok [OF assms(1) this assms(7,8)]
  have ok: "race_ok ops shut pipe pair app inner h ?g" .
  have over: "gr_app ?g = Over" "gr_reader ?g = Over"
    using race_ranks [of ops h app inner sched "race_start out conns s"] assms(10,11) by (auto simp: race_start_def intro!: rank_over)
  then have g: "sh_gates s' h = None" "sh_out s' h = Some inner" "pipe (sh_kernel s') app = []"
      "pair (sh_kernel s') app = Some inner" "\<not> shut (sh_kernel s') app"
    using ok assms(12) by (auto simp: race_ok_def Let_def opens_gate_def)
  obtain n err k' where n: "k_send ops app [0] (sh_kernel s') = (n, err, k')" using prod_cases3 by blast
  have "0 < n" using signal_kernel.send_room [OF socket_kernel.axioms(1) [OF assms(1)] g(4,5,3) _ n] by simp
  then have "0 < room (sh_kernel s') app" using socket_kernel.send_takes [OF assms(1) n g(4,5)] by simp
  with g show ?thesis by simp
qed

text \<open>The link resolves between the filling and the entry of the gate.\<close>

theorem gate_race_resolved_witness:
  "sh_gates (gr_shared (fold (race_turn (unix_kernel 1024) 7 100 101)
       [AppMoves, ReaderMoves, ReaderMoves, AppMoves, AppMoves, AppMoves, AppMoves, AppMoves, ReaderMoves, ReaderMoves]
       (race_start None [7 \<mapsto> Pending] (sample_shared 9)))) 7 = None \<and>
   sh_out (gr_shared (fold (race_turn (unix_kernel 1024) 7 100 101)
       [AppMoves, ReaderMoves, ReaderMoves, AppMoves, AppMoves, AppMoves, AppMoves, AppMoves, ReaderMoves, ReaderMoves]
       (race_start None [7 \<mapsto> Pending] (sample_shared 9)))) 7 = Some 101"
proof -
  let ?sched = "[AppMoves, ReaderMoves, ReaderMoves, AppMoves, AppMoves, AppMoves, AppMoves, AppMoves, ReaderMoves, ReaderMoves] ::
    unix gate_turn list"
  let ?s = "gr_shared (fold (race_turn (unix_kernel 1024) 7 100 101) ?sched (race_start None [7 \<mapsto> Pending] (sample_shared 9)))"
  have "sh_gates ?s 7 = None \<and> sh_out ?s 7 = Some 101 \<and> ux_pipe (sh_kernel ?s) 100 = [] \<and> 0 < ux_room (sh_kernel ?s) 100"
  proof (rule gate_race_resolved [OF unix_socket.socket_kernel_axioms])
    show "ux_room (k_set_sndbuf (unix_kernel 1024) 100 GATE_CHUNK k) 100 \<le> k_fuel (unix_kernel 1024)" for k
      by (simp add: unix_kernel_def ux_room_def GATE_CHUNK_def split: option.splits)
    show "?s = ?s" by (rule refl)
  qed (simp_all add: sample_shared_def empty_shared_def ux_socketpair_def empty_unix_def ux_pair_def ux_pipe_def Let_def)
  then show ?thesis by blast
qed

end
