(* ===== verification/Ipose_Real.thy ===== *)
theory Ipose_Real
  imports Ipose_Calls
begin

text \<open>
  The lookups of the real functions in \<^verbatim>\<open>crates/ax25-interpose/src/real.rs\<close>. Every getter made by the
  macro \<^verbatim>\<open>real_fn!\<close> has a cache of its own, an atomic that starts as 0; it is filled with what \<^verbatim>\<open>dlsym\<close>
  finds for the getter's symbol. Any number of threads may be in a getter at the same time, without
  a lock. \<^verbatim>\<open>dlsym\<close> is not part of the sources: it is a parameter, the address of each name.
\<close>

section \<open>Definitions\<close>

datatype real_fn =
  F_socket | F_bind | F_connect | F_listen | F_accept | F_getsockname | F_getpeername | F_setsockopt | F_getsockopt
| F_read | F_write | F_recv | F_send | F_recvfrom | F_sendto | F_select | F_poll | F_close

fun real_symbol :: "real_fn \<Rightarrow> string" where
  "real_symbol F_socket = ''socket''"
| "real_symbol F_bind = ''bind''"
| "real_symbol F_connect = ''connect''"
| "real_symbol F_listen = ''listen''"
| "real_symbol F_accept = ''accept''"
| "real_symbol F_getsockname = ''getsockname''"
| "real_symbol F_getpeername = ''getpeername''"
| "real_symbol F_setsockopt = ''setsockopt''"
| "real_symbol F_getsockopt = ''getsockopt''"
| "real_symbol F_read = ''read''"
| "real_symbol F_write = ''write''"
| "real_symbol F_recv = ''recv''"
| "real_symbol F_send = ''send''"
| "real_symbol F_recvfrom = ''recvfrom''"
| "real_symbol F_sendto = ''sendto''"
| "real_symbol F_select = ''select''"
| "real_symbol F_poll = ''poll''"
| "real_symbol F_close = ''close''"

text \<open>A thread in a getter: before its load, with the value it loaded, with the value it looked up, or
  back with an address.\<close>

datatype getter_pc = Load real_fn | Loaded real_fn u64 | Looked real_fn u64 | Address real_fn u64

record getters =
  gt_cache :: "real_fn \<Rightarrow> u64"
  gt_pc :: "nat \<Rightarrow> getter_pc"

definition getter_step :: "(string \<Rightarrow> u64) \<Rightarrow> nat \<Rightarrow> getters \<Rightarrow> getters" where
  "getter_step dlsym i s =
     (case gt_pc s i of
        Load f \<Rightarrow> s\<lparr>gt_pc := (gt_pc s)(i := Loaded f (gt_cache s f))\<rparr>
      | Loaded f p \<Rightarrow>
          s\<lparr>gt_pc := (gt_pc s)(i := (if p = 0 then Looked f (dlsym (real_symbol f)) else Address f p))\<rparr>
      | Looked f p \<Rightarrow> s\<lparr>gt_cache := (gt_cache s)(f := p), gt_pc := (gt_pc s)(i := Address f p)\<rparr>
      | Address f p \<Rightarrow> s)"

definition getters_start :: "(nat \<Rightarrow> real_fn) \<Rightarrow> getters" where
  "getters_start fs = \<lparr>gt_cache = (\<lambda>f. 0), gt_pc = (\<lambda>i. Load (fs i))\<rparr>"

text \<open>Which getter the interposed functions of \<^verbatim>\<open>lib.rs\<close> use where they fall through: \<^verbatim>\<open>real::read()\<close> in
  \<^verbatim>\<open>read\<close>, and so on, one call site per function.\<close>

fun real_getter :: "syscall \<Rightarrow> real_fn" where
  "real_getter (RSocket d t p) = F_socket"
| "real_getter (RBind fd a n) = F_bind"
| "real_getter (RListen fd n) = F_listen"
| "real_getter (RConnect fd a n) = F_connect"
| "real_getter (RAccept fd a n) = F_accept"
| "real_getter (RGetsockname fd a n) = F_getsockname"
| "real_getter (RGetpeername fd a n) = F_getpeername"
| "real_getter (RSetsockopt fd l opt v n) = F_setsockopt"
| "real_getter (RGetsockopt fd l opt v n) = F_getsockopt"
| "real_getter (RRead fd b n) = F_read"
| "real_getter (RRecv fd b n fl) = F_recv"
| "real_getter (RRecvfrom fd b n fl a m) = F_recvfrom"
| "real_getter (RWrite fd b) = F_write"
| "real_getter (RSend fd b fl) = F_send"
| "real_getter (RSendto fd b fl a n) = F_sendto"
| "real_getter (RSelect n r w e t) = F_select"
| "real_getter (RPoll pfds t) = F_poll"
| "real_getter (RClose fd) = F_close"

text \<open>
  The specification: the name in the C library of the function that a call is meant for. It does not
  refer to the getters or to the table of the macro.
\<close>

fun libc_name :: "syscall \<Rightarrow> string" where
  "libc_name (RSocket d t p) = ''socket''"
| "libc_name (RBind fd a n) = ''bind''"
| "libc_name (RListen fd n) = ''listen''"
| "libc_name (RConnect fd a n) = ''connect''"
| "libc_name (RAccept fd a n) = ''accept''"
| "libc_name (RGetsockname fd a n) = ''getsockname''"
| "libc_name (RGetpeername fd a n) = ''getpeername''"
| "libc_name (RSetsockopt fd l opt v n) = ''setsockopt''"
| "libc_name (RGetsockopt fd l opt v n) = ''getsockopt''"
| "libc_name (RRead fd b n) = ''read''"
| "libc_name (RRecv fd b n fl) = ''recv''"
| "libc_name (RRecvfrom fd b n fl a m) = ''recvfrom''"
| "libc_name (RWrite fd b) = ''write''"
| "libc_name (RSend fd b fl) = ''send''"
| "libc_name (RSendto fd b fl a n) = ''sendto''"
| "libc_name (RSelect n r w e t) = ''select''"
| "libc_name (RPoll pfds t) = ''poll''"
| "libc_name (RClose fd) = ''close''"

section \<open>The right function\<close>

lemma getter_symbol: "real_symbol (real_getter c) = libc_name c"
  by (cases c) simp_all

text \<open>A cache holds 0 or the address of its own symbol, and so does what a thread has loaded.\<close>

fun pc_ok :: "(string \<Rightarrow> u64) \<Rightarrow> getter_pc \<Rightarrow> bool" where
  "pc_ok dlsym (Load f) = True"
| "pc_ok dlsym (Loaded f p) = (p = 0 \<or> p = dlsym (real_symbol f))"
| "pc_ok dlsym (Looked f p) = (p = dlsym (real_symbol f))"
| "pc_ok dlsym (Address f p) = (p = dlsym (real_symbol f))"

definition getters_ok :: "(string \<Rightarrow> u64) \<Rightarrow> getters \<Rightarrow> bool" where
  "getters_ok dlsym s \<longleftrightarrow> (\<forall>f. gt_cache s f = 0 \<or> gt_cache s f = dlsym (real_symbol f)) \<and> (\<forall>i. pc_ok dlsym (gt_pc s i))"

fun pc_getter :: "getter_pc \<Rightarrow> real_fn" where
  "pc_getter (Load f) = f"
| "pc_getter (Loaded f p) = f"
| "pc_getter (Looked f p) = f"
| "pc_getter (Address f p) = f"

fun pc_left :: "getter_pc \<Rightarrow> nat" where
  "pc_left (Load f) = 3"
| "pc_left (Loaded f p) = 2"
| "pc_left (Looked f p) = 1"
| "pc_left (Address f p) = 0"

lemma getter_step_ok: "getters_ok dlsym s \<Longrightarrow> getters_ok dlsym (getter_step dlsym i s)"
proof -
  assume ok: "getters_ok dlsym s"
  then have "pc_ok dlsym (gt_pc s i)" by (simp add: getters_ok_def)
  with ok show ?thesis by (cases "gt_pc s i") (auto simp: getters_ok_def getter_step_def)
qed

lemma getter_step_own:
  "pc_getter (gt_pc (getter_step dlsym i s) i) = pc_getter (gt_pc s i) \<and> pc_left (gt_pc (getter_step dlsym i s) i) \<le> pc_left (gt_pc s i) - 1"
  by (cases "gt_pc s i") (simp_all add: getter_step_def)

lemma getter_step_other: "k \<noteq> i \<Longrightarrow> gt_pc (getter_step dlsym i s) k = gt_pc s k"
  by (cases "gt_pc s i") (simp_all add: getter_step_def)

lemma getter_run_ok: "getters_ok dlsym s \<Longrightarrow> getters_ok dlsym (fold (getter_step dlsym) sched s)"
  by (induction sched arbitrary: s) (simp_all add: getter_step_ok)

lemma getter_run_pc:
  "pc_getter (gt_pc (fold (getter_step dlsym) sched s) k) = pc_getter (gt_pc s k) \<and>
   pc_left (gt_pc (fold (getter_step dlsym) sched s) k) \<le> pc_left (gt_pc s k) - count_list sched k"
proof (induction sched arbitrary: s)
  case (Cons i sched)
  show ?case
  proof (cases "i = k")
    case True
    then show ?thesis using Cons.IH [of "getter_step dlsym i s"] getter_step_own [of dlsym i s] by (simp, linarith)
  next
    case False
    then show ?thesis using Cons.IH [of "getter_step dlsym i s"] by (simp add: getter_step_other)
  qed
qed simp

text \<open>The address a thread has come back with.\<close>

definition returned_address :: "getter_pc \<Rightarrow> u64 option" where
  "returned_address pc = (case pc of Address f p \<Rightarrow> Some p | _ \<Rightarrow> None)"

text \<open>
  C25 (Every real call reaches its own function). However many threads look real functions up at the same
  time, through caches without a lock, and in whatever order: after three steps of its own a thread is
  back, and what it calls is what \<^verbatim>\<open>dlsym\<close> finds under the name that its call has in the C library,
  never the 0 of a cache that is not filled yet and never the function of another call.
\<close>

theorem real_call_reaches:
  assumes "s = fold (getter_step dlsym) sched (getters_start (\<lambda>i. real_getter (calls i)))" and "3 \<le> count_list sched i"
  shows "returned_address (gt_pc s i) = Some (dlsym (libc_name (calls i)))"
proof -
  have start: "getters_ok dlsym (getters_start (\<lambda>i. real_getter (calls i)))" by (simp add: getters_ok_def getters_start_def)
  have "pc_ok dlsym (gt_pc s i)" using getter_run_ok [OF start, of sched] assms(1) by (simp add: getters_ok_def)
  moreover have "pc_getter (gt_pc s i) = real_getter (calls i)" "pc_left (gt_pc s i) = 0"
    using getter_run_pc [of dlsym sched "getters_start (\<lambda>i. real_getter (calls i))" i] assms by (simp_all add: getters_start_def)
  ultimately show ?thesis by (cases "gt_pc s i") (simp_all add: returned_address_def getter_symbol)
qed

text \<open>Three threads, two of them in the same getter, with addresses that tell the names apart.\<close>

theorem real_call_reaches_witness:
  "returned_address (gt_pc (fold (getter_step (\<lambda>n. if n = ''write'' then 7 else 9)) [0, 1, 2, 0, 1, 2, 1, 0, 2]
     (getters_start (\<lambda>i. real_getter (if i = 2 then RClose 3 else RWrite 3 [])))) 1) = Some 7"
proof -
  let ?dlsym = "\<lambda>n. if n = ''write'' then 7 else 9 :: u64" and ?calls = "\<lambda>i :: nat. if i = 2 then RClose 3 else RWrite 3 []"
  have "returned_address (gt_pc (fold (getter_step ?dlsym) [0, 1, 2, 0, 1, 2, 1, 0, 2] (getters_start (\<lambda>i. real_getter (?calls i)))) 1) =
      Some (?dlsym (libc_name (?calls 1)))"
    by (rule real_call_reaches [OF refl]) simp
  then show ?thesis by simp
qed

end
