(* ===== verification/Lock_Order.thy ===== *)
theory Lock_Order
  imports Prelude
begin

text \<open>
  Mutexes and the threads that take them. A thread runs a program of which only the locking is kept:
  where a guard is alive, where the thread waits for something outside the process, where it waits on
  a condition variable, and the branches and loops around these. A guard is a scope (\<open>With\<close>), as it is
  in Rust. \<open>lock_step\<close> executes a thread by one step; \<open>ranked\<close> checks that a program takes its locks in the
  order of a rank. In the locale \<open>lock_order\<close> the check is shown to be enough: whenever a thread
  stands before a mutex that is taken, some thread that holds a mutex can go on.
\<close>

section \<open>Definitions\<close>

text \<open>
  \<open>External\<close> is a wait for a peer that may be made with locks held, \<open>Idle\<close> a wait of any length for
  the next thing to do, \<open>WaitOn l\<close> a wait on a condition variable of the mutex \<open>l\<close>.
\<close>

datatype 'l skel =
  Skip | External | Idle | WaitOn 'l | With 'l "'l skel"
| Seq "'l skel" "'l skel" | Alt "'l skel" "'l skel" | Loop "'l skel"

definition block :: "'l skel list \<Rightarrow> 'l skel" where
  "block ps = foldr Seq ps Skip"

definition one_of :: "'l skel list \<Rightarrow> 'l skel" where
  "one_of ps = foldr Alt ps Skip"

abbreviation guarded :: "'l \<Rightarrow> 'l skel" where
  "guarded l \<equiv> With l Skip"

abbreviation perhaps :: "'l skel \<Rightarrow> 'l skel" where
  "perhaps p \<equiv> Alt p Skip"

text \<open>What a thread has left to do: programs, the ends of guards, and to take a mutex back after a wait.\<close>

datatype 'l item = Run "'l skel" | Unlock 'l | Relock 'l

record 'l locks =
  lk_owner :: "'l \<Rightarrow> nat option"
  lk_todo :: "nat \<Rightarrow> 'l item list"

fun advance :: "nat \<Rightarrow> bool \<Rightarrow> ('l \<Rightarrow> nat option) \<Rightarrow> 'l item list \<Rightarrow> (('l \<Rightarrow> nat option) \<times> 'l item list) option"
where
  "advance i b ow [] = None"
| "advance i b ow (Run Skip # k) = Some (ow, k)"
| "advance i b ow (Run External # k) = Some (ow, k)"
| "advance i b ow (Run Idle # k) = Some (ow, k)"
| "advance i b ow (Run (WaitOn l) # k) = Some (ow(l := None), Relock l # k)"
| "advance i b ow (Run (With l p) # k) =
     (if ow l = None then Some (ow(l := Some i), Run p # Unlock l # k) else None)"
| "advance i b ow (Run (Seq p q) # k) = Some (ow, Run p # Run q # k)"
| "advance i b ow (Run (Alt p q) # k) = Some (ow, Run (if b then p else q) # k)"
| "advance i b ow (Run (Loop p) # k) = Some (ow, if b then Run p # Run (Loop p) # k else k)"
| "advance i b ow (Unlock l # k) = Some (ow(l := None), k)"
| "advance i b ow (Relock l # k) = (if ow l = None then Some (ow(l := Some i), k) else None)"

text \<open>A step of thread \<open>i\<close>, with \<open>b\<close> the branch it takes where there is one, and a run under a schedule.\<close>

definition lock_step :: "nat \<times> bool \<Rightarrow> 'l locks \<Rightarrow> 'l locks option" where
  "lock_step t s =
     map_option (\<lambda>(ow, k). \<lparr>lk_owner = ow, lk_todo = (lk_todo s)(fst t := k)\<rparr>)
       (advance (fst t) (snd t) (lk_owner s) (lk_todo s (fst t)))"

fun lock_run :: "(nat \<times> bool) list \<Rightarrow> 'l locks \<Rightarrow> 'l locks option" where
  "lock_run [] s = Some s"
| "lock_run (t # ts) s = Option.bind (lock_step t s) (lock_run ts)"

definition lock_start :: "(nat \<Rightarrow> 'l skel list) \<Rightarrow> 'l locks" where
  "lock_start progs = \<lparr>lk_owner = \<lambda>_. None, lk_todo = \<lambda>i. map Run (progs i)\<rparr>"

text \<open>The mutex a thread is about to take.\<close>

fun wants :: "'l item list \<Rightarrow> 'l option" where
  "wants (Run (With l p) # k) = Some l"
| "wants (Relock l # k) = Some l"
| "wants k = None"

definition stuck_on :: "'l locks \<Rightarrow> nat \<Rightarrow> 'l \<Rightarrow> bool" where
  "stuck_on s i l \<longleftrightarrow> wants (lk_todo s i) = Some l \<and> lk_owner s l \<noteq> None"

text \<open>A thread that can go on without waiting for anything, or at most for a peer.\<close>

definition can_go :: "'l locks \<Rightarrow> nat \<Rightarrow> bool" where
  "can_go s i \<longleftrightarrow> lock_step (i, True) s \<noteq> None \<and> take 1 (lk_todo s i) \<noteq> [Run Idle]"

definition can_go_alone :: "'l locks \<Rightarrow> nat \<Rightarrow> bool" where
  "can_go_alone s i \<longleftrightarrow> can_go s i \<and> take 1 (lk_todo s i) \<noteq> [Run External]"

text \<open>
  The check: locks in the order of their rank, no wait for a peer under a lock of rank \<open>lim\<close> or more, no
  other wait under a lock except the one that is given up for the wait.
\<close>

fun ranked :: "('l \<Rightarrow> nat) \<Rightarrow> nat \<Rightarrow> 'l list \<Rightarrow> 'l skel \<Rightarrow> bool" where
  "ranked rk lim hs Skip \<longleftrightarrow> True"
| "ranked rk lim hs External \<longleftrightarrow> list_all (\<lambda>m. rk m < lim) hs"
| "ranked rk lim hs Idle \<longleftrightarrow> hs = []"
| "ranked rk lim hs (WaitOn l) \<longleftrightarrow> hs = [l]"
| "ranked rk lim hs (With l p) \<longleftrightarrow> list_all (\<lambda>m. rk m < rk l) hs \<and> ranked rk lim (l # hs) p"
| "ranked rk lim hs (Seq p q) \<longleftrightarrow> ranked rk lim hs p \<and> ranked rk lim hs q"
| "ranked rk lim hs (Alt p q) \<longleftrightarrow> ranked rk lim hs p \<and> ranked rk lim hs q"
| "ranked rk lim hs (Loop p) \<longleftrightarrow> ranked rk lim hs p"

text \<open>The locks a program names.\<close>

fun mentions :: "'l skel \<Rightarrow> 'l list" where
  "mentions (WaitOn l) = [l]"
| "mentions (With l p) = l # mentions p"
| "mentions (Seq p q) = mentions p @ mentions q"
| "mentions (Alt p q) = mentions p @ mentions q"
| "mentions (Loop p) = mentions p"
| "mentions p = []"

fun names :: "'l item list \<Rightarrow> 'l list" where
  "names [] = []"
| "names (Run p # k) = mentions p @ names k"
| "names (Unlock l # k) = l # names k"
| "names (Relock l # k) = l # names k"

text \<open>The locks whose guards are in a stack, and the stacks that programs passing the check lead to.\<close>

fun guards :: "'l item list \<Rightarrow> 'l list" where
  "guards [] = []"
| "guards (Unlock l # k) = l # guards k"
| "guards (Run p # k) = guards k"
| "guards (Relock l # k) = guards k"

fun holding :: "'l item list \<Rightarrow> 'l list" where
  "holding (Relock l # k) = []"
| "holding k = guards k"

fun fits :: "('l \<Rightarrow> nat) \<Rightarrow> nat \<Rightarrow> 'l item list \<Rightarrow> bool" where
  "fits rk lim [] \<longleftrightarrow> True"
| "fits rk lim (Run p # k) \<longleftrightarrow> ranked rk lim (guards k) p \<and> fits rk lim k"
| "fits rk lim (Unlock l # k) \<longleftrightarrow> list_all (\<lambda>m. rk m < rk l) (guards k) \<and> fits rk lim k"
| "fits rk lim (Relock l # k) \<longleftrightarrow> False"

fun stack_ok :: "('l \<Rightarrow> nat) \<Rightarrow> nat \<Rightarrow> 'l item list \<Rightarrow> bool" where
  "stack_ok rk lim (Relock l # k) \<longleftrightarrow> guards k = [l] \<and> fits rk lim k"
| "stack_ok rk lim k \<longleftrightarrow> fits rk lim k"

definition locks_ok :: "('l \<Rightarrow> nat) \<Rightarrow> nat \<Rightarrow> 'l locks \<Rightarrow> bool" where
  "locks_ok rk lim s \<longleftrightarrow>
     (\<forall>i. stack_ok rk lim (lk_todo s i)) \<and> (\<forall>l i. lk_owner s l = Some i \<longleftrightarrow> l \<in> set (holding (lk_todo s i)))"

section \<open>Lemmas\<close>

lemma ranked_block [simp]: "ranked rk lim hs (block ps) \<longleftrightarrow> list_all (ranked rk lim hs) ps"
  by (induction ps) (simp_all add: block_def)

lemma ranked_one_of [simp]: "ranked rk lim hs (one_of ps) \<longleftrightarrow> list_all (ranked rk lim hs) ps"
  by (induction ps) (simp_all add: one_of_def)

lemma holding_fits [simp]: "fits rk lim k \<Longrightarrow> holding k = guards k"
  by (cases "(rk, lim, k)" rule: fits.cases) simp_all

lemma stack_ok_fits [simp]: "fits rk lim k \<Longrightarrow> stack_ok rk lim k"
  by (cases "(rk, lim, k)" rule: fits.cases) simp_all

lemma guards_start [simp]: "guards (map Run ps) = []"
  by (induction ps) simp_all

lemma holding_start [simp]: "holding (map Run ps) = []"
  by (cases ps) simp_all

lemma fits_start: "list_all (ranked rk lim []) ps \<Longrightarrow> fits rk lim (map Run ps)"
  by (induction ps) simp_all

lemma not_below_self [simp]: "list_all (\<lambda>m. rk m < rk l) hs \<Longrightarrow> l \<notin> set hs" for rk :: "'l \<Rightarrow> nat"
  by (auto simp: list_all_iff)

text \<open>A step keeps the shape of the stack, and changes the owners as it changes what the thread holds.\<close>

lemma advance_stack_ok:
  assumes "advance i b ow k = Some (ow', k')" and "stack_ok rk lim k"
  shows "stack_ok rk lim k'"
  using assms by (cases "(i, b, ow, k)" rule: advance.cases) (auto split: if_splits)

lemma advance_owner:
  assumes "advance i b ow k = Some (ow', k')" and "stack_ok rk lim k"
    and "\<And>l. ow l = Some i \<longleftrightarrow> l \<in> set (holding k)"
  shows "ow' l = Some i \<longleftrightarrow> l \<in> set (holding k')"
  using assms(1,2) assms(3)[of l]
  by (cases "(i, b, ow, k)" rule: advance.cases) (auto split: if_splits)

lemma advance_others:
  assumes "advance i b ow k = Some (ow', k')" and "stack_ok rk lim k"
    and "\<And>l. ow l = Some i \<longleftrightarrow> l \<in> set (holding k)" and "j \<noteq> i"
  shows "ow' l = Some j \<longleftrightarrow> ow l = Some j"
  using assms(1,2,4) assms(3)[of l]
  by (cases "(i, b, ow, k)" rule: advance.cases) (auto split: if_splits)

lemma lock_step_ok:
  assumes "locks_ok rk lim s" and "lock_step t s = Some s'"
  shows "locks_ok rk lim s'"
proof -
  obtain ow k where adv: "advance (fst t) (snd t) (lk_owner s) (lk_todo s (fst t)) = Some (ow, k)"
    and s': "s' = \<lparr>lk_owner = ow, lk_todo = (lk_todo s)(fst t := k)\<rparr>"
    using assms(2) by (auto simp: lock_step_def)
  have ok: "stack_ok rk lim (lk_todo s (fst t))"
    and own: "\<And>l i. lk_owner s l = Some i \<longleftrightarrow> l \<in> set (holding (lk_todo s i))"
    using assms(1) by (auto simp: locks_ok_def)
  show ?thesis
    using assms(1) advance_stack_ok[OF adv ok] advance_owner[OF adv ok own] advance_others[OF adv ok own]
    by (auto simp: locks_ok_def s')
qed

lemma lock_run_ok: "locks_ok rk lim s \<Longrightarrow> lock_run ts s = Some s' \<Longrightarrow> locks_ok rk lim s'"
  by (induction ts arbitrary: s) (auto simp: bind_eq_Some_conv intro: lock_step_ok)

lemma lock_start_ok:
  "(\<And>i. list_all (ranked rk lim []) (progs i)) \<Longrightarrow> locks_ok rk lim (lock_start progs)"
  by (simp add: locks_ok_def lock_start_def fits_start)

text \<open>What the next step of a thread is when it holds a lock.\<close>

lemma holder_next:
  assumes "stack_ok rk lim k" and "l \<in> set (holding k)"
  shows "k \<noteq> []" and "take 1 k \<noteq> [Run Idle]" and "lim \<le> rk l \<Longrightarrow> take 1 k \<noteq> [Run External]"
    and "wants k = Some m \<Longrightarrow> rk l < rk m"
  using assms by (cases k rule: wants.cases; auto simp: list_all_iff split: item.splits)+

lemma free_advance: "k \<noteq> [] \<Longrightarrow> (\<And>m. wants k = Some m \<Longrightarrow> ow m = None) \<Longrightarrow> advance i b ow k \<noteq> None"
  by (cases "(i, b, ow, k)" rule: advance.cases) auto

lemma mentions_block [simp]: "mentions (block ps) = concat (map mentions ps)"
  by (induction ps) (simp_all add: block_def)

lemma mentions_one_of [simp]: "mentions (one_of ps) = concat (map mentions ps)"
  by (induction ps) (simp_all add: one_of_def)

lemma names_start [simp]: "names (map Run ps) = concat (map mentions ps)"
  by (induction ps) simp_all

lemma wants_names: "wants k = Some l \<Longrightarrow> l \<in> set (names k)"
  by (cases k rule: wants.cases) auto

lemma advance_names: "advance i b ow k = Some (ow', k') \<Longrightarrow> set (names k') \<subseteq> set (names k)"
  by (cases "(i, b, ow, k)" rule: advance.cases) (auto split: if_splits)

lemma lock_step_names: "lock_step t s = Some s' \<Longrightarrow> set (names (lk_todo s' i)) \<subseteq> set (names (lk_todo s i))"
  using advance_names by (cases "fst t = i") (force simp: lock_step_def)+

lemma lock_run_names: "lock_run ts s = Some s' \<Longrightarrow> set (names (lk_todo s' i)) \<subseteq> set (names (lk_todo s i))"
  by (induction ts arbitrary: s) (fastforce simp: bind_eq_Some_conv dest: lock_step_names[of _ _ _ i])+

text \<open>The mutex a thread is about to take is one its programs name.\<close>

lemma stuck_on_mentioned:
  assumes "lock_run ts (lock_start progs) = Some s" and "stuck_on s i l"
  shows "\<exists>p \<in> set (progs i). l \<in> set (mentions p)"
  using lock_run_names[OF assms(1), of i] wants_names[of "lk_todo s i" l] assms(2)
  by (auto simp: stuck_on_def lock_start_def)

text \<open>A thread on its own.\<close>

fun solo :: "nat \<Rightarrow> bool list \<Rightarrow> ('l \<Rightarrow> nat option) \<Rightarrow> 'l item list \<Rightarrow> (('l \<Rightarrow> nat option) \<times> 'l item list) option" where
  "solo i [] ow k = Some (ow, k)"
| "solo i (b # bs) ow k = Option.bind (advance i b ow k) (\<lambda>(ow', k'). solo i bs ow' k')"

lemma lock_run_solo:
  "solo i bs (lk_owner s) (lk_todo s i) = Some (ow, k) \<Longrightarrow>
   lock_run (map (Pair i) bs) s = Some \<lparr>lk_owner = ow, lk_todo = (lk_todo s)(i := k)\<rparr>"
  by (induction bs arbitrary: s) (auto simp: lock_step_def bind_eq_Some_conv)

section \<open>No deadlock\<close>

locale lock_order =
  fixes rk :: "'l \<Rightarrow> nat" and lim top :: nat
  assumes bounded: "rk l \<le> top"
begin

text \<open>From a taken lock the chain of owners leads to one that can go on, since the ranks rise along it.\<close>

lemma owner_goes:
  assumes "locks_ok rk lim s" and "lk_owner s l = Some i"
  shows "\<exists>j m. lk_owner s m = Some j \<and> rk l \<le> rk m \<and> can_go s j"
  using assms(2)
proof (induction "top - rk l" arbitrary: l i rule: less_induct)
  case less
  have ok: "stack_ok rk lim (lk_todo s i)" and hold: "l \<in> set (holding (lk_todo s i))"
    using assms(1) less.prems by (auto simp: locks_ok_def)
  show ?case
  proof (cases "\<exists>m. wants (lk_todo s i) = Some m \<and> lk_owner s m \<noteq> None")
    case True
    then obtain m j where m: "wants (lk_todo s i) = Some m" and j: "lk_owner s m = Some j" by auto
    have "rk l < rk m" by (rule holder_next(4)[OF ok hold m])
    moreover have "top - rk m < top - rk l" using \<open>rk l < rk m\<close> bounded[of m] by simp
    ultimately show ?thesis using less.hyps[OF _ j] by (meson less_imp_le order_trans)
  next
    case False
    hence "can_go s i"
      using holder_next(1,2)[OF ok hold] free_advance[of "lk_todo s i" "lk_owner s" i True]
      by (auto simp: can_go_def lock_step_def)
    thus ?thesis using less.prems by blast
  qed
qed

lemma stuck_chain:
  assumes "locks_ok rk lim s" and "stuck_on s i l"
  shows "\<exists>j m. lk_owner s m = Some j \<and> rk l \<le> rk m \<and> can_go s j"
  using owner_goes[OF assms(1)] assms(2) by (auto simp: stuck_on_def)

text \<open>Behind a lock of rank \<open>lim\<close> or more nobody waits for a peer.\<close>

lemma stuck_chain_alone:
  assumes "locks_ok rk lim s" and "stuck_on s i l" and "lim \<le> rk l"
  shows "\<exists>j m. lk_owner s m = Some j \<and> can_go_alone s j"
proof -
  obtain j m where jm: "lk_owner s m = Some j" "rk l \<le> rk m" "can_go s j"
    using stuck_chain[OF assms(1,2)] by blast
  moreover have "take 1 (lk_todo s j) \<noteq> [Run External]"
    using holder_next(3)[of rk lim "lk_todo s j" m] assms(1,3) jm by (auto simp: locks_ok_def)
  ultimately show ?thesis by (auto simp: can_go_alone_def)
qed

end

section \<open>A thread that waits for itself\<close>

text \<open>
  A thread that stands before a mutex it owns stands there for ever, whatever threads that pass the check
  do beside it; and whoever else comes to that mutex stands there too.
\<close>

definition frozen :: "('l \<Rightarrow> nat) \<Rightarrow> nat \<Rightarrow> nat \<Rightarrow> 'l \<Rightarrow> 'l locks \<Rightarrow> bool" where
  "frozen rk lim i l s \<longleftrightarrow>
     wants (lk_todo s i) = Some l \<and> lk_owner s l = Some i \<and>
     (\<forall>j. j \<noteq> i \<longrightarrow> stack_ok rk lim (lk_todo s j) \<and> (\<forall>m. lk_owner s m = Some j \<longleftrightarrow> m \<in> set (holding (lk_todo s j))))"

lemma wants_taken: "wants k = Some l \<Longrightarrow> ow l \<noteq> None \<Longrightarrow> advance j b ow k = None"
  by (cases k rule: wants.cases) auto

lemma stuck_on_step: "stuck_on s j l \<Longrightarrow> lock_step (j, b) s = None"
  by (simp add: stuck_on_def lock_step_def wants_taken)

lemma frozen_step:
  assumes "frozen rk lim i l s" and "lock_step t s = Some s'"
  shows "frozen rk lim i l s' \<and> lk_todo s' i = lk_todo s i"
proof -
  obtain ow k where adv: "advance (fst t) (snd t) (lk_owner s) (lk_todo s (fst t)) = Some (ow, k)"
    and s': "s' = \<lparr>lk_owner = ow, lk_todo = (lk_todo s)(fst t := k)\<rparr>"
    using assms(2) by (auto simp: lock_step_def)
  have "fst t \<noteq> i" using assms(1) adv by (auto simp: frozen_def wants_taken)
  hence ok: "stack_ok rk lim (lk_todo s (fst t))"
    and own: "\<And>m. lk_owner s m = Some (fst t) \<longleftrightarrow> m \<in> set (holding (lk_todo s (fst t)))"
    using assms(1) by (auto simp: frozen_def)
  show ?thesis
    using assms(1) \<open>fst t \<noteq> i\<close> advance_stack_ok[OF adv ok] advance_owner[OF adv ok own]
      advance_others[OF adv ok own]
    by (simp add: frozen_def s')
qed

lemma frozen_run:
  "frozen rk lim i l s \<Longrightarrow> lock_run ts s = Some s' \<Longrightarrow> frozen rk lim i l s' \<and> lk_todo s' i = lk_todo s i"
proof (induction ts arbitrary: s)
  case (Cons t ts)
  then obtain s1 where "lock_step t s = Some s1" "lock_run ts s1 = Some s'" by (auto simp: bind_eq_Some_conv)
  with Cons frozen_step show ?case by metis
qed simp

end
