(* ===== verification/Ipose_Locks.thy ===== *)
theory Ipose_Locks
  imports Lock_Order
begin

text \<open>
  The mutexes of \<^verbatim>\<open>crates/ax25-interpose\<close> and of the client it uses, and for every operation which of them
  it takes, in which order, and where it waits (\<open>Lock_Order\<close>). A definition \<open>f_locks\<close> is the locking of
  the function \<open>f\<close> of the source: a statement that takes a lock and is done with it is \<open>guarded\<close>, a guard that
  lives on is \<open>With\<close>. Branches on data are \<open>Alt\<close>, loops \<open>Loop\<close>, so that every path of the code is a path here.

  The library defines \<^verbatim>\<open>send\<close>, \<^verbatim>\<open>recv\<close>, \<^verbatim>\<open>connect\<close>, \<^verbatim>\<open>setsockopt\<close> and \<^verbatim>\<open>close\<close> for the whole process, so the
  standard library's \<^verbatim>\<open>TcpStream\<close> in the client calls these too: input and output of the client ask the
  descriptor table whether the descriptor is an AX.25 one, and take its lock.
\<close>

section \<open>Definitions\<close>

text \<open>
  A client has its own mutexes and is named by a number, since a new one takes the place of one that was
  closed; the serialiser of an outbound entry is named by a number too. \<open>Env\<close> is the lock of the
  environment in \<^verbatim>\<open>std::env\<close>; \<open>RecvOnce\<close> and \<open>OutOnce\<close> are the \<^verbatim>\<open>Once\<close> cells that start the threads.
\<close>

datatype mutex =
  ClientCell | Serial nat | Writer nat | Pending_Map nat | Conn_Map nat | Accept_Map nat | Gates | Recv_State | Dgram_State
| Entries | RecvOnce | OutOnce | Fds | Env

type_synonym code = "mutex skel"

subsection \<open>The client\<close>

definition is_ax25_fd_locks :: code where
  "is_ax25_fd_locks = guarded Fds"

definition is_dgram_fd_locks :: code where
  "is_dgram_fd_locks = guarded Fds"

text \<open>Calls of the standard library on the client's TCP socket, through the interposed functions.\<close>

definition tcp_send :: code where
  "tcp_send = block [is_dgram_fd_locks, is_ax25_fd_locks, External]"

definition tcp_recv :: code where
  "tcp_recv = block [is_dgram_fd_locks, Idle]"

definition tcp_connect :: code where
  "tcp_connect = block [is_ax25_fd_locks, External]"

definition tcp_setsockopt :: code where
  "tcp_setsockopt = is_ax25_fd_locks"

definition tcp_close :: code where
  "tcp_close = is_ax25_fd_locks"

definition write_frame_locks :: code where
  "write_frame_locks = Loop tcp_send"

definition read_frame_locks :: code where
  "read_frame_locks = Loop tcp_recv"

definition request_locks :: "nat \<Rightarrow> code" where
  "request_locks c =
     block [guarded (Pending_Map c), With (Writer c) write_frame_locks,
       Alt (guarded (Pending_Map c)) (block [External, guarded (Pending_Map c)])]"

definition default_addr_locks :: code where
  "default_addr_locks = guarded Env"

text \<open>\<^verbatim>\<open>connect_to\<close>: every address is tried; on an error the sockets so far are dropped, which closes them.\<close>

definition connect_to_locks :: "nat \<Rightarrow> code" where
  "connect_to_locks c =
     block [Loop (block [tcp_connect, perhaps tcp_close]),
       perhaps (block [tcp_setsockopt,
         Alt (Loop tcp_close)
           (block [guarded Env, guarded Env, perhaps (block [request_locks c, perhaps tcp_close])])])]"

definition connect_default_locks :: "nat \<Rightarrow> code" where
  "connect_default_locks c = block [default_addr_locks, connect_to_locks c]"

definition open_connect_locks :: "nat \<Rightarrow> code" where
  "open_connect_locks c = block [request_locks c, perhaps (guarded (Conn_Map c))]"

definition wait_connected_locks :: "nat \<Rightarrow> code" where
  "wait_connected_locks c = With (Conn_Map c) (Loop (WaitOn (Conn_Map c)))"

definition conn_result_locks :: "nat \<Rightarrow> code" where
  "conn_result_locks c = guarded (Conn_Map c)"

definition take_error_locks :: "nat \<Rightarrow> code" where
  "take_error_locks c = guarded (Conn_Map c)"

definition client_send_locks :: "nat \<Rightarrow> code" where
  "client_send_locks c = Loop (request_locks c)"

definition client_close_locks :: "nat \<Rightarrow> code" where
  "client_close_locks c = block [guarded (Conn_Map c), guarded (Accept_Map c), request_locks c]"

definition wait_accept_locks :: "nat \<Rightarrow> code" where
  "wait_accept_locks c = With (Accept_Map c) (Loop (WaitOn (Accept_Map c)))"

definition try_accept_locks :: "nat \<Rightarrow> code" where
  "try_accept_locks c = guarded (Accept_Map c)"

subsection \<open>The pumps, the gates and the event sink\<close>

definition recv_pump_locks :: code where
  "recv_pump_locks = guarded RecvOnce"

definition outbound_pump_locks :: code where
  "outbound_pump_locks = guarded OutOnce"

definition resolve_connect_gate_locks :: code where
  "resolve_connect_gate_locks = block [guarded Gates, perhaps (block [outbound_pump_locks, guarded Entries])]"

definition on_recv_locks :: code where
  "on_recv_locks = block [recv_pump_locks, perhaps (guarded Recv_State)]"

definition on_dgram_locks :: code where
  "on_dgram_locks = guarded Dgram_State"

definition on_status_locks :: code where
  "on_status_locks = perhaps resolve_connect_gate_locks"

definition on_close_locks :: code where
  "on_close_locks = block [resolve_connect_gate_locks, recv_pump_locks, guarded Recv_State]"

definition on_disconnect_locks :: code where
  "on_disconnect_locks =
     block [guarded Gates, Loop resolve_connect_gate_locks, recv_pump_locks, guarded Recv_State, guarded Dgram_State]"

definition dispatch_push_locks :: "nat \<Rightarrow> code" where
  "dispatch_push_locks c =
     one_of [on_dgram_locks, on_recv_locks, guarded (Accept_Map c),
       block [perhaps (guarded (Conn_Map c)), on_status_locks], block [guarded (Conn_Map c), on_close_locks]]"

text \<open>The reader: its loop, and what it does at the end. Its half of the socket is dropped there.\<close>

definition reader_loop_locks :: "nat \<Rightarrow> code" where
  "reader_loop_locks c =
     block [Loop (block [read_frame_locks,
              perhaps (Alt (guarded (Pending_Map c)) (block [perhaps (guarded (Pending_Map c)), dispatch_push_locks c]))]),
       read_frame_locks, guarded (Pending_Map c), guarded (Conn_Map c), on_disconnect_locks, tcp_close]"

definition flusher_loop_locks :: code where
  "flusher_loop_locks =
     Loop (block [With Recv_State (Loop (WaitOn Recv_State)), guarded Recv_State, Alt Idle (guarded Recv_State)])"

definition ensure_client_locks :: "nat \<Rightarrow> code" where
  "ensure_client_locks c = With ClientCell (perhaps (block [connect_default_locks c, perhaps tcp_close]))"

definition drain_locked_locks :: "nat \<Rightarrow> code" where
  "drain_locked_locks c = Loop (client_send_locks c)"

definition flush_locks :: "nat \<Rightarrow> nat \<Rightarrow> code" where
  "flush_locks c n = block [guarded Entries, perhaps (With (Serial n) (drain_locked_locks c))]"

definition send_ordered_locks :: "nat \<Rightarrow> nat \<Rightarrow> code" where
  "send_ordered_locks c n =
     block [guarded Entries,
       Alt (With (Serial n) (block [drain_locked_locks c, client_send_locks c])) (client_send_locks c)]"

text \<open>A turn of the outbound thread; \<open>ns\<close> are the entries that are readable. The reference to the client is
  dropped at the end, and with the last one its socket.\<close>

definition outbound_turn_locks :: "nat \<Rightarrow> nat list \<Rightarrow> code" where
  "outbound_turn_locks c ns =
     block [With Entries (Loop (WaitOn Entries)), Idle,
       perhaps (block [ensure_client_locks c, perhaps (block [block (map (flush_locks c) ns), perhaps tcp_close])])]"

definition create_ax25_fd_locks :: code where
  "create_ax25_fd_locks = perhaps (guarded Fds)"

definition destroy_ax25_fd_locks :: code where
  "destroy_ax25_fd_locks =
     block [guarded Fds,
       perhaps (block [recv_pump_locks, guarded Recv_State, guarded Dgram_State, outbound_pump_locks, guarded Entries,
         guarded Gates])]"

subsection \<open>The interposed calls\<close>

text \<open>
  \<open>gone\<close> says that the descriptor is not in the table any more when \<^verbatim>\<open>ensure_dgram_handle\<close> comes back from
  the engine with a handle: the handle is closed then, with the guard of the table still alive.
\<close>

definition ensure_dgram_handle_locks :: "bool \<Rightarrow> nat \<Rightarrow> code" where
  "ensure_dgram_handle_locks gone c =
     block [guarded Fds,
       perhaps (block [ensure_client_locks c,
         perhaps (block [request_locks c,
           perhaps (Alt (block [request_locks c, client_close_locks c])
             (block [perhaps (request_locks c),
               (if gone then With Fds (client_close_locks c)
                else block [guarded Fds, Alt (client_close_locks c) (guarded Dgram_State)])])),
           perhaps tcp_close])])]"

definition socket_locks :: code where
  "socket_locks = perhaps create_ax25_fd_locks"

definition bind_locks :: "bool \<Rightarrow> nat \<Rightarrow> code" where
  "bind_locks gone c =
     block [is_ax25_fd_locks,
       perhaps (block [perhaps (guarded Fds), is_dgram_fd_locks, perhaps (ensure_dgram_handle_locks gone c)])]"

definition listen_locks :: "nat \<Rightarrow> code" where
  "listen_locks c =
     block [is_ax25_fd_locks,
       perhaps (block [guarded Fds,
         perhaps (block [ensure_client_locks c,
           perhaps (block [request_locks c,
             perhaps (block [request_locks c, perhaps (block [request_locks c, perhaps (guarded Fds)])]),
             perhaps tcp_close])])])]"

definition connect_locks :: "bool \<Rightarrow> nat \<Rightarrow> code" where
  "connect_locks gone c =
     block [is_ax25_fd_locks,
       one_of [Idle,
         block [is_dgram_fd_locks,
           Alt (block [ensure_dgram_handle_locks gone c, perhaps (guarded Fds)])
             (block [With Fds (perhaps (guarded Env)), ensure_client_locks c,
               perhaps (block [open_connect_locks c,
                 perhaps (block [guarded Fds,
                   perhaps (block [recv_pump_locks, guarded Recv_State,
                     Alt (block [guarded Gates, conn_result_locks c, perhaps resolve_connect_gate_locks])
                       (block [wait_connected_locks c, perhaps (block [outbound_pump_locks, guarded Entries])])])]),
                 perhaps tcp_close])])]]]"

definition accept_locks :: "nat \<Rightarrow> code" where
  "accept_locks c =
     block [is_ax25_fd_locks,
       one_of [Idle,
         block [guarded Fds,
           perhaps (block [ensure_client_locks c,
             perhaps (block [Alt (try_accept_locks c) (wait_accept_locks c),
               perhaps (block [create_ax25_fd_locks,
                 perhaps (block [guarded Fds, recv_pump_locks, guarded Recv_State, outbound_pump_locks, guarded Entries])]),
               perhaps tcp_close])])]]]"

definition getname_locks :: code where
  "getname_locks = block [is_ax25_fd_locks, perhaps (guarded Fds)]"

definition setsockopt_locks :: code where
  "setsockopt_locks = block [is_ax25_fd_locks, perhaps (guarded Fds)]"

definition getsockopt_locks :: "nat \<Rightarrow> code" where
  "getsockopt_locks c =
     block [is_ax25_fd_locks,
       perhaps (Alt (block [guarded Fds, perhaps (block [ensure_client_locks c, perhaps (take_error_locks c), perhaps tcp_close])])
         (guarded Fds))]"

definition ax25_send_locks :: "nat \<Rightarrow> nat \<Rightarrow> code" where
  "ax25_send_locks c n =
     block [guarded Fds,
       perhaps (block [ensure_client_locks c,
         perhaps (block [outbound_pump_locks, send_ordered_locks c n, perhaps tcp_close])])]"

definition ax25_dgram_send_locks :: "bool \<Rightarrow> nat \<Rightarrow> code" where
  "ax25_dgram_send_locks gone c =
     block [ensure_dgram_handle_locks gone c,
       perhaps (block [guarded Fds,
         perhaps (block [perhaps (guarded Env),
           perhaps (block [ensure_client_locks c, perhaps (block [request_locks c, perhaps tcp_close])])])])]"

definition ax25_dgram_recv_locks :: "bool \<Rightarrow> nat \<Rightarrow> code" where
  "ax25_dgram_recv_locks gone c =
     block [ensure_dgram_handle_locks gone c,
       perhaps (block [guarded Fds, Loop (block [guarded Dgram_State, Idle]), guarded Dgram_State])]"

definition read_locks :: "bool \<Rightarrow> nat \<Rightarrow> code" where
  "read_locks gone c = block [is_dgram_fd_locks, Alt (ax25_dgram_recv_locks gone c) Idle]"

definition recvfrom_locks :: "bool \<Rightarrow> nat \<Rightarrow> code" where
  "recvfrom_locks gone c =
     block [is_dgram_fd_locks,
       Alt (ax25_dgram_recv_locks gone c)
         (block [is_ax25_fd_locks, Alt (block [Idle, perhaps (guarded Fds)]) Idle])]"

definition recv_locks :: "bool \<Rightarrow> nat \<Rightarrow> code" where
  "recv_locks gone c = block [is_dgram_fd_locks, Alt (recvfrom_locks gone c) Idle]"

text \<open>\<^verbatim>\<open>write\<close>, \<^verbatim>\<open>send\<close> and \<^verbatim>\<open>sendto\<close>.\<close>

definition write_locks :: "bool \<Rightarrow> nat \<Rightarrow> nat \<Rightarrow> code" where
  "write_locks gone c n =
     block [is_dgram_fd_locks,
       Alt (ax25_dgram_send_locks gone c) (block [is_ax25_fd_locks, Alt (ax25_send_locks c n) Idle])]"

definition select_locks :: code where
  "select_locks = Idle"

definition close_locks :: "nat \<Rightarrow> code" where
  "close_locks c =
     block [is_ax25_fd_locks,
       perhaps (block [guarded Fds,
         perhaps (block [ensure_client_locks c, perhaps (block [client_close_locks c, perhaps tcp_close])]),
         destroy_ax25_fd_locks])]"

subsection \<open>The threads of a process\<close>

text \<open>What a thread may run: the application any interposed call, the background threads their loops.\<close>

datatype role = App | Reader nat | Flusher | Outbound

fun runs :: "bool \<Rightarrow> role \<Rightarrow> code \<Rightarrow> bool" where
  "runs gone App p \<longleftrightarrow>
     p \<in> {socket_locks, getname_locks, setsockopt_locks, select_locks} \<or>
     (\<exists>c. p \<in> {bind_locks gone c, listen_locks c, connect_locks gone c, accept_locks c, getsockopt_locks c,
                read_locks gone c, recv_locks gone c, recvfrom_locks gone c, close_locks c}) \<or>
     (\<exists>c n. p = write_locks gone c n)"
| "runs gone (Reader c) p \<longleftrightarrow> p = reader_loop_locks c"
| "runs gone Flusher p \<longleftrightarrow> p = flusher_loop_locks"
| "runs gone Outbound p \<longleftrightarrow> (\<exists>c ns. p = outbound_turn_locks c ns)"

text \<open>
  A process: any number of threads with their roles, each with any sequence of turns. No call finds its
  descriptor gone in the middle, that is, no thread closes a datagram descriptor another is in a call on.
\<close>

definition process_threads :: "(nat \<Rightarrow> role) \<Rightarrow> (nat \<Rightarrow> code list) \<Rightarrow> bool" where
  "process_threads roles progs \<longleftrightarrow> (\<forall>i. list_all (runs False (roles i)) (progs i))"

text \<open>The order of the mutexes; nobody waits for the engine under one of rank 3 or more.\<close>

fun mutex_rank :: "mutex \<Rightarrow> nat" where
  "mutex_rank ClientCell = 0"
| "mutex_rank (Serial n) = 1"
| "mutex_rank (Writer c) = 2"
| "mutex_rank (Pending_Map c) = 3"
| "mutex_rank (Conn_Map c) = 3"
| "mutex_rank (Accept_Map c) = 3"
| "mutex_rank Gates = 3"
| "mutex_rank Recv_State = 3"
| "mutex_rank Dgram_State = 3"
| "mutex_rank Entries = 3"
| "mutex_rank RecvOnce = 3"
| "mutex_rank OutOnce = 3"
| "mutex_rank Fds = 3"
| "mutex_rank Env = 4"

section \<open>Lemmas\<close>

text \<open>The only guards that are held while another lock is taken are those of the client cell, of a serialiser and
  of a writer, and that of the table around the environment.\<close>

interpretation order: lock_order mutex_rank 3 4
  by unfold_locales (case_tac l; simp)

lemmas tcp_defs =
  is_ax25_fd_locks_def is_dgram_fd_locks_def tcp_send_def tcp_recv_def tcp_connect_def tcp_setsockopt_def tcp_close_def
  write_frame_locks_def read_frame_locks_def default_addr_locks_def

lemmas client_defs =
  open_connect_locks_def wait_connected_locks_def conn_result_locks_def take_error_locks_def client_send_locks_def
  client_close_locks_def wait_accept_locks_def try_accept_locks_def

lemmas sink_defs =
  recv_pump_locks_def outbound_pump_locks_def resolve_connect_gate_locks_def on_recv_locks_def on_dgram_locks_def
  on_status_locks_def on_close_locks_def on_disconnect_locks_def create_ax25_fd_locks_def destroy_ax25_fd_locks_def

abbreviation well_locked :: "mutex list \<Rightarrow> code \<Rightarrow> bool" where
  "well_locked \<equiv> ranked mutex_rank 3"

text \<open>A request may be made under the client cell and under a serialiser.\<close>

lemma request_ranked [simp]: "list_all (\<lambda>m. mutex_rank m < 2) hs \<Longrightarrow> well_locked hs (request_locks c)"
  by (auto simp: request_locks_def tcp_defs list_all_iff)

lemma ensure_client_ranked [simp]: "well_locked [] (ensure_client_locks c)"
  by (simp add: ensure_client_locks_def connect_default_locks_def connect_to_locks_def tcp_defs)

lemma send_ordered_ranked [simp]: "well_locked [] (send_ordered_locks c n)"
  by (simp add: send_ordered_locks_def drain_locked_locks_def client_defs)

lemma flush_ranked [simp]: "well_locked [] (flush_locks c n)"
  by (simp add: flush_locks_def drain_locked_locks_def client_defs)

lemma reader_ranked: "well_locked [] (reader_loop_locks c)"
  by (simp add: reader_loop_locks_def dispatch_push_locks_def sink_defs tcp_defs)

lemma ensure_dgram_handle_ranked [simp]: "well_locked [] (ensure_dgram_handle_locks False c)"
  by (simp add: ensure_dgram_handle_locks_def client_defs tcp_defs)

lemma outbound_ranked: "well_locked [] (outbound_turn_locks c ns)"
  by (simp add: outbound_turn_locks_def tcp_defs list_all_iff)

lemma dgram_recv_ranked [simp]: "well_locked [] (ax25_dgram_recv_locks False c)"
  by (simp add: ax25_dgram_recv_locks_def)

lemma recvfrom_ranked [simp]: "well_locked [] (recvfrom_locks False c)"
  by (simp add: recvfrom_locks_def tcp_defs)

lemma write_ranked: "well_locked [] (write_locks False c n)"
  by (simp add: write_locks_def ax25_dgram_send_locks_def ax25_send_locks_def sink_defs tcp_defs)

lemma calls_ranked:
  "well_locked [] (bind_locks False c)" "well_locked [] (listen_locks c)" "well_locked [] (connect_locks False c)"
  "well_locked [] (accept_locks c)" "well_locked [] (getsockopt_locks c)" "well_locked [] (read_locks False c)"
  "well_locked [] (recv_locks False c)" "well_locked [] (close_locks c)"
  by (simp_all add: bind_locks_def listen_locks_def connect_locks_def accept_locks_def getsockopt_locks_def read_locks_def
      recv_locks_def close_locks_def client_defs sink_defs tcp_defs)

lemma simple_calls_ranked:
  "well_locked [] socket_locks" "well_locked [] getname_locks" "well_locked [] setsockopt_locks"
  "well_locked [] select_locks" "well_locked [] flusher_loop_locks"
  by (simp_all add: socket_locks_def getname_locks_def setsockopt_locks_def select_locks_def flusher_loop_locks_def
      sink_defs tcp_defs)

lemmas turns_ranked =
  reader_ranked outbound_ranked write_ranked recvfrom_ranked calls_ranked simple_calls_ranked

lemma runs_ranked: "runs False r p \<Longrightarrow> well_locked [] p"
  by (cases r) (auto simp: turns_ranked)

lemma process_ok: "process_threads roles progs \<Longrightarrow> locks_ok mutex_rank 3 (lock_start progs)"
  by (intro lock_start_ok) (auto simp: process_threads_def list_all_iff intro: runs_ranked)

lemma process_run_ok:
  "process_threads roles progs \<Longrightarrow> lock_run ts (lock_start progs) = Some s \<Longrightarrow> locks_ok mutex_rank 3 s"
  by (rule lock_run_ok[OF process_ok])

text \<open>The reader and the flusher take no mutex of a lower rank.\<close>

lemma background_mentions:
  "\<forall>l \<in> set (mentions (reader_loop_locks c)). 3 \<le> mutex_rank l"
  "\<forall>l \<in> set (mentions flusher_loop_locks). 3 \<le> mutex_rank l"
  by (simp_all add: reader_loop_locks_def dispatch_push_locks_def flusher_loop_locks_def sink_defs tcp_defs)

section \<open>Properties\<close>

text \<open>
  C4 (no deadlock). Any number of application threads in any interposed calls, with the readers of the
  clients, the flusher and the outbound thread, interleaved in any way, in which no descriptor is closed under
  a call that is opening its handle: whenever a thread stands before a mutex that is taken, some owner of a
  mutex can go on, at most waiting for the engine; so the mutexes never hold each other up. When
  the thread is a reader or the flusher, one that need not wait for the engine either: a
  reply or a push is never kept from its request by a thread that waits for a reply.
\<close>

theorem no_deadlock:
  assumes "process_threads roles progs" and "lock_run ts (lock_start progs) = Some s" and "stuck_on s i l"
  shows "(\<exists>j m. lk_owner s m = Some j \<and> mutex_rank l \<le> mutex_rank m \<and> can_go s j) \<and>
    ((\<exists>c. roles i = Reader c) \<or> roles i = Flusher \<longrightarrow> (\<exists>j m. lk_owner s m = Some j \<and> can_go_alone s j))"
proof (intro conjI impI)
  note ok = process_run_ok[OF assms(1,2)]
  show "\<exists>j m. lk_owner s m = Some j \<and> mutex_rank l \<le> mutex_rank m \<and> can_go s j"
    by (rule order.stuck_chain[OF ok assms(3)])
  assume role: "(\<exists>c. roles i = Reader c) \<or> roles i = Flusher"
  obtain p where p: "p \<in> set (progs i)" "l \<in> set (mentions p)" using stuck_on_mentioned[OF assms(2,3)] by blast
  moreover have "runs False (roles i) p" using assms(1) p(1) by (auto simp: process_threads_def list_all_iff)
  ultimately have "3 \<le> mutex_rank l" using role background_mentions by auto
  thus "\<exists>j m. lk_owner s m = Some j \<and> can_go_alone s j" by (rule order.stuck_chain_alone[OF ok assms(3)])
qed

text \<open>An application thread in \<^verbatim>\<open>bind\<close> and a reader, both at the descriptor table.\<close>

definition sample_roles :: "nat \<Rightarrow> role" where
  "sample_roles i = (if i = 0 then App else if i = 1 then Reader 0 else Flusher)"

definition sample_progs :: "nat \<Rightarrow> code list" where
  "sample_progs i = (if i = 0 then [bind_locks False 0] else if i = 1 then [reader_loop_locks 0] else [])"

definition sample_schedule :: "(nat \<times> bool) list" where
  "sample_schedule = replicate 2 (0, True) @ replicate 5 (1, True)"

lemma sample_threads: "process_threads sample_roles sample_progs"
  by (auto simp: process_threads_def sample_roles_def sample_progs_def)

lemma sample_stuck:
  "case lock_run sample_schedule (lock_start sample_progs) of None \<Rightarrow> False | Some s \<Rightarrow> stuck_on s 1 Fds"
  by (simp add: sample_schedule_def numeral_eq_Suc lock_step_def lock_start_def sample_progs_def bind_locks_def
      reader_loop_locks_def tcp_defs block_def stuck_on_def)

theorem no_deadlock_witness:
  "\<exists>s. lock_run sample_schedule (lock_start sample_progs) = Some s \<and> stuck_on s 1 Fds \<and>
     (\<exists>j m. lk_owner s m = Some j \<and> 3 \<le> mutex_rank m \<and> can_go s j) \<and>
     (\<exists>j m. lk_owner s m = Some j \<and> can_go_alone s j)"
proof -
  obtain s where s: "lock_run sample_schedule (lock_start sample_progs) = Some s" "stuck_on s 1 Fds"
    using sample_stuck by (auto split: option.splits)
  show ?thesis using no_deadlock[OF sample_threads s] s by (auto simp: sample_roles_def)
qed

text \<open>The way of a call that finds its descriptor gone: up to the mutex of the table, with that mutex taken.\<close>

definition gone_path :: "bool list" where
  "gone_path =
     replicate 7 True @ [False] @ replicate 15 True @ [False] @ replicate 11 True @ [False] @ replicate 2 True @ [False] @
     replicate 10 True @ [False, True, False] @ replicate 20 True"

lemma gone_path_solo:
  "\<exists>k. solo i gone_path (\<lambda>_. None) (Run (bind_locks True c) # rest) =
     Some ((\<lambda>_. None)(Fds := Some i, Writer c := Some i), k) \<and> wants k = Some Fds"
  by (simp add: gone_path_def numeral_eq_Suc bind_locks_def ensure_dgram_handle_locks_def ensure_client_locks_def
      request_locks_def client_close_locks_def tcp_defs block_def fun_eq_iff)

lemma gone_frozen:
  assumes "progs i = bind_locks True c # rest" and "\<And>j. j \<noteq> i \<Longrightarrow> list_all (runs False (roles j)) (progs j)"
  shows "\<exists>s. lock_run (map (Pair i) gone_path) (lock_start progs) = Some s \<and> frozen mutex_rank 3 i Fds s"
proof -
  obtain k where k: "solo i gone_path (lk_owner (lock_start progs)) (lk_todo (lock_start progs) i) =
      Some ((\<lambda>_. None)(Fds := Some i, Writer c := Some i), k)" "wants k = Some Fds"
    using gone_path_solo[of i c "map Run rest"] assms(1) by (auto simp: lock_start_def)
  have "fits mutex_rank 3 (map Run (progs j))" if "j \<noteq> i" for j
    using assms(2)[OF that] by (intro fits_start) (auto simp: list_all_iff intro: runs_ranked)
  thus ?thesis
    using lock_run_solo[OF k(1)] k(2) by (simp add: frozen_def lock_start_def)
qed

text \<open>
  C35 (a deadlock). A call that opens the handle of a datagram descriptor and finds the descriptor closed when
  the engine has answered closes the new handle with the guard of the descriptor table alive, and closing it
  sends a frame through the interposed \<^verbatim>\<open>send\<close>, which asks the same table: the thread
  waits for itself. Whatever the other threads do, it never leaves that point, it keeps the table, and
  every thread that comes to the table stays there, in whichever interposed call, on whatever descriptor;
  \<^verbatim>\<open>select\<close> and \<^verbatim>\<open>poll\<close> alone do not come to it. Shown for \<^verbatim>\<open>bind\<close>.
\<close>

theorem vanished_descriptor_freezes:
  assumes "progs i = bind_locks True c # rest" and "\<And>j. j \<noteq> i \<Longrightarrow> list_all (runs False (roles j)) (progs j)"
  shows "\<exists>ts s. lock_run ts (lock_start progs) = Some s \<and>
    (\<forall>ts' s'. lock_run ts' s = Some s' \<longrightarrow>
       lk_todo s' i = lk_todo s i \<and> lk_owner s' Fds = Some i \<and>
       (\<forall>j b. wants (lk_todo s' j) = Some Fds \<longrightarrow> lock_step (j, b) s' = None) \<and> wants (lk_todo s' i) = Some Fds)"
proof -
  obtain s where s: "lock_run (map (Pair i) gone_path) (lock_start progs) = Some s" "frozen mutex_rank 3 i Fds s"
    using gone_frozen[of progs i c rest roles, OF assms] by blast
  have "lk_todo s' i = lk_todo s i \<and> frozen mutex_rank 3 i Fds s'" if "lock_run ts' s = Some s'" for ts' s'
    using frozen_run[OF s(2) that] by simp
  moreover have "lock_step (j, b) s' = None"
    if "frozen mutex_rank 3 i Fds s'" and "wants (lk_todo s' j) = Some Fds" for s' j b
    using that by (intro stuck_on_step[of _ _ Fds]) (simp add: stuck_on_def frozen_def)
  ultimately show ?thesis using s(1) unfolding frozen_def by blast
qed

definition sample_gone :: "nat \<Rightarrow> code list" where
  "sample_gone i = (if i = 0 then [bind_locks True 0] else if i = 1 then [reader_loop_locks 0] else [])"

theorem vanished_descriptor_freezes_witness:
  "\<exists>ts s. lock_run ts (lock_start sample_gone) = Some s \<and> lk_owner s Fds = Some 0 \<and> wants (lk_todo s 0) = Some Fds \<and>
     (\<forall>b. lock_step (0, b) s = None)"
proof -
  have "progs 0 = bind_locks True 0 # []" if "progs = sample_gone" for progs
    using that by (simp add: sample_gone_def)
  moreover have "list_all (runs False (sample_roles j)) (sample_gone j)" if "j \<noteq> 0" for j
    using that by (simp add: sample_gone_def sample_roles_def)
  ultimately obtain ts s where ts: "lock_run ts (lock_start sample_gone) = Some s"
    and later: "\<And>ts' s'. lock_run ts' s = Some s' \<Longrightarrow>
       lk_owner s' Fds = Some 0 \<and> (\<forall>j b. wants (lk_todo s' j) = Some Fds \<longrightarrow> lock_step (j, b) s' = None) \<and>
       wants (lk_todo s' 0) = Some Fds"
    using vanished_descriptor_freezes[of sample_gone 0 0 "[]" sample_roles] by blast
  show ?thesis using ts later[of "[]" s] by auto
qed

end
