(* ===== verification/Ipose_Open.thy ===== *)
theory Ipose_Open
  imports Ipose_Calls
begin

text \<open>
  \<^verbatim>\<open>ensure_dgram_handle\<close> of \<^verbatim>\<open>crates/ax25-interpose/src/lib.rs\<close> with any number of threads in it on one
  descriptor, and threads that close the descriptor, interleaved: every request to the engine, every
  section under the lock of the descriptor table and every access to the datagram pump is a step.
\<close>

section \<open>Definitions\<close>

text \<open>
  Where a thread is: before the call; waiting for the answer to \<^verbatim>\<open>socket_dgram\<close>; with a handle, waiting for that to
  \<^verbatim>\<open>bind\<close>, before the table, giving the handle back to the engine, before the pump; returned. A
  thread that closes: before it removes the descriptor, before it unregisters the handle it found, before it closes the
  descriptors, done.
\<close>

datatype open_pc =
  Enter | Asking | Binding u64 | Storing u64 | Discarding u64 "int + u64" | Registering u64 | Returned "int + u64"
| Removing | Forgetting "u64 option" | Shutting | Gone

text \<open>The entry of the descriptor, if it is there, with its handle; the entries of the datagram pump; the handles that the
  engine gave out and those it was asked to close; whether the descriptors are open. \<open>op_bound\<close> says that the socket
  has a local callsign.\<close>

record open_race =
  op_entry :: "u64 option option"
  op_bound :: bool
  op_pump :: "u64 \<Rightarrow> bool"
  op_made :: "u64 list"
  op_closed :: "u64 list"
  op_fds :: bool
  op_pc :: "nat \<Rightarrow> open_pc"

text \<open>The steps, with what the engine answers. It gives no handle twice.\<close>

datatype open_act =
  LookUp nat | Answer nat "int + u64" | BindReply nat "int option" | StoreHandle nat | GiveBack nat | AddEntry nat
| CloseHandle nat | RemoveEntry nat | ForgetHandle nat | CloseFds nat

definition op_goto :: "nat \<Rightarrow> open_pc \<Rightarrow> open_race \<Rightarrow> open_race" where
  "op_goto i pc s = s\<lparr>op_pc := (op_pc s)(i := pc)\<rparr>"

fun open_step :: "open_act \<Rightarrow> open_race \<Rightarrow> open_race option" where
  "open_step (LookUp i) s =
     (case op_pc s i of
        Enter \<Rightarrow> Some (op_goto i (case op_entry s of None \<Rightarrow> Returned (Inl EBADF) | Some (Some h) \<Rightarrow> Returned (Inr h) | Some None \<Rightarrow> Asking) s)
      | _ \<Rightarrow> None)"
| "open_step (Answer i r) s =
     (case op_pc s i of
        Asking \<Rightarrow>
          (case r of
             Inl e \<Rightarrow> Some (op_goto i (Returned (Inl e)) s)
           | Inr h \<Rightarrow> if h \<in> set (op_made s) then None
               else Some (op_goto i (if op_bound s then Binding h else Storing h) (s\<lparr>op_made := h # op_made s\<rparr>)))
      | _ \<Rightarrow> None)"
| "open_step (BindReply i r) s =
     (case op_pc s i of
        Binding h \<Rightarrow> Some (op_goto i (case r of None \<Rightarrow> Storing h | Some e \<Rightarrow> Discarding h (Inl e)) s)
      | _ \<Rightarrow> None)"
| "open_step (StoreHandle i) s =
     (case op_pc s i of
        Storing h \<Rightarrow>
          (case op_entry s of
             None \<Rightarrow> Some (op_goto i (Discarding h (Inl EBADF)) s)
           | Some (Some g) \<Rightarrow> Some (op_goto i (Discarding h (Inr g)) s)
           | Some None \<Rightarrow> Some (op_goto i (Registering h) (s\<lparr>op_entry := Some (Some h)\<rparr>)))
      | _ \<Rightarrow> None)"
| "open_step (GiveBack i) s =
     (case op_pc s i of
        Discarding h r \<Rightarrow> Some (op_goto i (Returned r) (s\<lparr>op_closed := h # op_closed s\<rparr>))
      | _ \<Rightarrow> None)"
| "open_step (AddEntry i) s =
     (case op_pc s i of
        Registering h \<Rightarrow> Some (op_goto i (Returned (Inr h)) (s\<lparr>op_pump := (op_pump s)(h := True)\<rparr>))
      | _ \<Rightarrow> None)"
| "open_step (CloseHandle i) s =
     (case (op_pc s i, op_entry s) of
        (Enter, Some (Some h)) \<Rightarrow> Some (op_goto i Removing (s\<lparr>op_closed := h # op_closed s\<rparr>))
      | (Enter, Some None) \<Rightarrow> Some (op_goto i Removing s)
      | _ \<Rightarrow> None)"
| "open_step (RemoveEntry i) s =
     (case op_pc s i of
        Removing \<Rightarrow> Some (op_goto i (case op_entry s of None \<Rightarrow> Gone | Some r \<Rightarrow> Forgetting r) (s\<lparr>op_entry := None\<rparr>))
      | _ \<Rightarrow> None)"
| "open_step (ForgetHandle i) s =
     (case op_pc s i of
        Forgetting (Some h) \<Rightarrow> Some (op_goto i Shutting (s\<lparr>op_pump := (op_pump s)(h := False)\<rparr>))
      | Forgetting None \<Rightarrow> Some (op_goto i Shutting s)
      | _ \<Rightarrow> None)"
| "open_step (CloseFds i) s =
     (case op_pc s i of
        Shutting \<Rightarrow> Some (op_goto i Gone (s\<lparr>op_fds := False\<rparr>))
      | _ \<Rightarrow> None)"

fun open_run :: "open_act list \<Rightarrow> open_race \<Rightarrow> open_race option" where
  "open_run [] s = Some s"
| "open_run (a # as) s = Option.bind (open_step a s) (open_run as)"

text \<open>A descriptor that has no handle yet.\<close>

definition open_start :: "bool \<Rightarrow> open_race" where
  "open_start bound = \<lparr>op_entry = Some None, op_bound = bound, op_pump = (\<lambda>_. False), op_made = [], op_closed = [], op_fds = True,
     op_pc = (\<lambda>_. Enter)\<rparr>"

fun closes :: "open_act \<Rightarrow> bool" where
  "closes (CloseHandle i) = True"
| "closes _ = False"

text \<open>The handle a thread has in hand and must store or give back.\<close>

fun in_hand :: "open_pc \<Rightarrow> u64 option" where
  "in_hand (Binding h) = Some h"
| "in_hand (Storing h) = Some h"
| "in_hand (Discarding h r) = Some h"
| "in_hand _ = None"

text \<open>The handle a thread has as its result.\<close>

fun result_handle :: "open_pc \<Rightarrow> u64 option" where
  "result_handle (Discarding h (Inr g)) = Some g"
| "result_handle (Registering h) = Some h"
| "result_handle (Returned (Inr h)) = Some h"
| "result_handle _ = None"

text \<open>As long as nobody closes, over the stored handle and what each thread has in hand, as its result, and to register:
  results are the stored handle; a handle from the engine is stored, in one thread's hands, or given back, and only one of
  these; the stored handle is in the pump or about to be.\<close>

definition handles_ok :: "u64 option \<Rightarrow> u64 list \<Rightarrow> u64 list \<Rightarrow> (u64 \<Rightarrow> bool) \<Rightarrow> (nat \<Rightarrow> u64 option) \<Rightarrow> (nat \<Rightarrow> u64 option) \<Rightarrow>
    (nat \<Rightarrow> u64 option) \<Rightarrow> bool" where
  "handles_ok st made closed pump hand res reg \<longleftrightarrow>
     (\<forall>i h. res i = Some h \<longrightarrow> st = Some h) \<and>
     (\<forall>i h. hand i = Some h \<longrightarrow> h \<in> set made \<and> st \<noteq> Some h \<and> h \<notin> set closed) \<and>
     (\<forall>i j h. hand i = Some h \<longrightarrow> hand j = Some h \<longrightarrow> i = j) \<and>
     (\<forall>h \<in> set made. st = Some h \<or> h \<in> set closed \<or> (\<exists>i. hand i = Some h)) \<and>
     (\<forall>h. st = Some h \<longrightarrow> h \<in> set made \<and> h \<notin> set closed \<and> (pump h \<or> (\<exists>i. reg i = Some h))) \<and>
     (\<forall>h. pump h \<longrightarrow> st = Some h) \<and> set closed \<subseteq> set made \<and> distinct closed"

fun to_register :: "open_pc \<Rightarrow> u64 option" where
  "to_register (Registering h) = Some h"
| "to_register _ = None"

fun closing_pc :: "open_pc \<Rightarrow> bool" where
  "closing_pc Removing = True"
| "closing_pc (Forgetting r) = True"
| "closing_pc Shutting = True"
| "closing_pc Gone = True"
| "closing_pc _ = False"

definition open_race_ok :: "open_race \<Rightarrow> bool" where
  "open_race_ok s \<longleftrightarrow> (\<forall>i. \<not> closing_pc (op_pc s i)) \<and> (\<exists>st. op_entry s = Some st \<and>
     handles_ok st (op_made s) (op_closed s) (op_pump s) (in_hand \<circ> op_pc s) (result_handle \<circ> op_pc s) (to_register \<circ> op_pc s))"

section \<open>Lemmas\<close>

lemma op_goto_simps [simp]:
  "op_entry (op_goto i pc s) = op_entry s" "op_bound (op_goto i pc s) = op_bound s" "op_pump (op_goto i pc s) = op_pump s"
  "op_made (op_goto i pc s) = op_made s" "op_closed (op_goto i pc s) = op_closed s" "op_fds (op_goto i pc s) = op_fds s"
  "op_pc (op_goto i pc s) = (op_pc s)(i := pc)"
  by (simp_all add: op_goto_def)

lemma comp_upd [simp]: "f \<circ> g(i := x) = (f \<circ> g)(i := f x)"
  by (simp add: fun_eq_iff)

text \<open>What a thread may do with the handles: end without one, get a fresh one, keep it, give it back, store it, register it.\<close>

lemma handles_okD:
  assumes "handles_ok st made closed pump hand res reg"
  shows "res i = Some h \<Longrightarrow> st = Some h" "h \<in> set made \<Longrightarrow> st = Some h \<or> h \<in> set closed \<or> (\<exists>i. hand i = Some h)"
    "st = Some h \<Longrightarrow> h \<in> set made" "st = Some h \<Longrightarrow> h \<notin> set closed" "st = Some h \<Longrightarrow> pump h \<or> (\<exists>i. reg i = Some h)"
    "pump h \<Longrightarrow> st = Some h" "set closed \<subseteq> set made" "distinct closed"
  using assms unfolding handles_ok_def by blast+

lemma res_ok:
  "handles_ok st made closed pump hand res reg \<Longrightarrow> r = None \<or> r = st \<Longrightarrow> handles_ok st made closed pump hand (res(i := r)) reg"
  by (auto simp: handles_ok_def)

lemma end_ok:
  "handles_ok st made closed pump hand res reg \<Longrightarrow> hand i = None \<Longrightarrow> reg i = None \<Longrightarrow> r = None \<or> r = st \<Longrightarrow>
   handles_ok st made closed pump (hand(i := None)) (res(i := r)) (reg(i := None))"
  by (simp only: fun_upd_idem res_ok)

lemma keep_ok:
  "handles_ok st made closed pump hand res reg \<Longrightarrow> hand i = Some h \<Longrightarrow> reg i = None \<Longrightarrow> r = None \<or> r = st \<Longrightarrow>
   handles_ok st made closed pump (hand(i := Some h)) (res(i := r)) (reg(i := None))"
  by (simp only: fun_upd_idem res_ok)

lemma hand_upd_ex: "(\<exists>j. (hand(i := x)) j = Some h) \<longleftrightarrow> x = Some h \<or> (\<exists>j. j \<noteq> i \<and> hand j = Some h)"
  by auto

lemma fresh_ok:
  assumes "handles_ok st made closed pump hand res reg" and "hand i = None" and "reg i = None" and "h \<notin> set made"
  shows "handles_ok st (h # made) closed pump (hand(i := Some h)) (res(i := None)) (reg(i := None))"
proof -
  have "st = Some g \<or> g \<in> set closed \<or> (\<exists>j. j \<noteq> i \<and> hand j = Some g)" if "g \<in> set made" for g
    using that assms(1,2) unfolding handles_ok_def by (metis option.distinct(1))
  then show ?thesis using assms unfolding fun_upd_idem [of reg i None, OF assms(3)] handles_ok_def hand_upd_ex by (auto split: if_splits)
qed

lemma others_hand:
  assumes "handles_ok st made closed pump hand res reg" and "hand i = Some h" and "g \<in> set made" and "g \<noteq> h"
  shows "st = Some g \<or> g \<in> set closed \<or> (\<exists>j. j \<noteq> i \<and> hand j = Some g)"
  using assms unfolding handles_ok_def by (metis option.inject)

lemma give_back_ok:
  assumes "handles_ok st made closed pump hand res reg" and "hand i = Some h" and "reg i = None" and "r = None \<or> r = st"
  shows "handles_ok st made (h # closed) pump (hand(i := None)) (res(i := r)) (reg(i := None))"
proof -
  have h: "h \<in> set made" "st \<noteq> Some h" "h \<notin> set closed" "\<And>j. j \<noteq> i \<Longrightarrow> hand j \<noteq> Some h"
    using assms(1,2) unfolding handles_ok_def by metis+
  have "st = Some g \<or> g \<in> set (h # closed) \<or> (\<exists>j. (hand(i := None)) j = Some g)" if "g \<in> set made" for g
    unfolding hand_upd_ex using others_hand [OF assms(1,2) that] by auto
  moreover have "(hand(i := None)) j = Some g \<Longrightarrow> hand j = Some g \<and> g \<noteq> h" for j g using h(4) by (auto split: if_splits)
  ultimately show ?thesis using res_ok [OF assms(1,4), of i] h
    unfolding fun_upd_idem [of reg i None, OF assms(3)] handles_ok_def by (simp del: fun_upd_apply) blast
qed

lemma store_ok:
  assumes "handles_ok None made closed pump hand res reg" and "hand i = Some h" and "reg i = None"
  shows "handles_ok (Some h) made closed pump (hand(i := None)) (res(i := Some h)) (reg(i := Some h))"
  using assms others_hand [OF assms(1,2)] unfolding handles_ok_def hand_upd_ex by (auto split: if_splits)

lemma add_entry_ok:
  assumes "handles_ok (Some h) made closed pump hand res reg" and "hand i = None" and "reg i = Some h"
  shows "handles_ok (Some h) made closed (pump(h := True)) (hand(i := None)) (res(i := Some h)) (reg(i := None))"
  using assms unfolding fun_upd_idem [of hand i None, OF assms(2)] handles_ok_def by (auto split: if_splits)

lemma start_ok: "open_race_ok (open_start bound)"
  by (simp add: open_race_ok_def open_start_def handles_ok_def)

lemma race_ok_goto:
  assumes "\<And>j. \<not> closing_pc (op_pc s j)" and "\<not> closing_pc pc" and "op_entry s = Some st"
    and "handles_ok st (op_made s) (op_closed s) (op_pump s) ((in_hand \<circ> op_pc s)(i := in_hand pc))
      ((result_handle \<circ> op_pc s)(i := result_handle pc)) ((to_register \<circ> op_pc s)(i := to_register pc))"
  shows "open_race_ok (op_goto i pc s)"
  using assms by (simp add: open_race_ok_def)

lemma open_step_ok:
  assumes "open_race_ok s" and "open_step a s = Some s'" and "\<not> closes a"
  shows "open_race_ok s'"
proof -
  obtain st where st: "op_entry s = Some st" and nc: "\<And>i. \<not> closing_pc (op_pc s i)"
    and ok: "handles_ok st (op_made s) (op_closed s) (op_pump s) (in_hand \<circ> op_pc s) (result_handle \<circ> op_pc s) (to_register \<circ> op_pc s)"
    using assms(1) by (auto simp: open_race_ok_def)
  have res: "st = Some h" if "result_handle (op_pc s i) = Some h" for i h using ok that by (auto simp: handles_ok_def)
  note goto = race_ok_goto [where st = st]
  show ?thesis
  proof (cases a)
    case (LookUp i)
    then have pc: "op_pc s i = Enter" using assms(2) by (auto split: open_pc.splits)
    show ?thesis using assms(2) st nc LookUp pc ok
      by (cases st) (auto intro!: race_ok_goto end_ok)
  next
    case (Answer i r)
    then have pc: "op_pc s i = Asking" using assms(2) by (auto split: open_pc.splits)
    show ?thesis using assms(2) st nc Answer pc
      by (cases r) (auto intro!: goto end_ok [OF ok] fresh_ok [OF ok] split: if_splits)
  next
    case (BindReply i r)
    then obtain h where pc: "op_pc s i = Binding h" using assms(2) by (auto split: open_pc.splits)
    then show ?thesis using assms(2) st nc BindReply by (cases r) (auto intro!: goto keep_ok [OF ok])
  next
    case (StoreHandle i)
    then obtain h where pc: "op_pc s i = Storing h" using assms(2) by (auto split: open_pc.splits)
    show ?thesis
    proof (cases st)
      case None
      then show ?thesis using assms(2) st nc StoreHandle pc store_ok [of "op_made s" "op_closed s" "op_pump s"] ok
        by (auto intro!: race_ok_goto [where st = "Some h"])
    next
      case (Some g)
      then show ?thesis using assms(2) st nc StoreHandle pc ok by (auto intro!: race_ok_goto keep_ok)
    qed
  next
    case (GiveBack i)
    then obtain h r where pc: "op_pc s i = Discarding h r" using assms(2) by (auto split: open_pc.splits)
    have "result_handle (Returned r) = None \<or> result_handle (Returned r) = st" using res [of i] pc by (cases r) auto
    then show ?thesis using assms(2) st nc GiveBack pc ok by (auto intro!: goto give_back_ok)
  next
    case (AddEntry i)
    then obtain h where pc: "op_pc s i = Registering h" using assms(2) by (auto split: open_pc.splits)
    then have "st = Some h" using res [of i] by simp
    then show ?thesis using assms(2) st nc AddEntry pc ok by (auto intro!: goto add_entry_ok)
  next
    case (RemoveEntry i)
    then show ?thesis using assms(2) nc [of i] by (auto split: open_pc.splits)
  next
    case (ForgetHandle i)
    then show ?thesis using assms(2) nc [of i] by (auto split: open_pc.splits)
  next
    case (CloseFds i)
    then show ?thesis using assms(2) nc [of i] by (auto split: open_pc.splits)
  qed (use assms(3) in simp)
qed

lemma open_run_ok:
  "open_race_ok s \<Longrightarrow> open_run as s = Some s' \<Longrightarrow> list_all (\<lambda>a. \<not> closes a) as \<Longrightarrow> open_race_ok s'"
  by (induction as arbitrary: s) (auto simp: bind_eq_Some_conv intro: open_step_ok)

section \<open>The end of the descriptor\<close>

text \<open>At most one thread tears the descriptor down, after the entry is gone; the descriptors are closed last.\<close>

fun tearing :: "open_pc \<Rightarrow> bool" where
  "tearing (Forgetting r) = True"
| "tearing Shutting = True"
| "tearing _ = False"

definition teardown_ok :: "open_race \<Rightarrow> bool" where
  "teardown_ok s \<longleftrightarrow> (\<forall>i. tearing (op_pc s i) \<longrightarrow> op_entry s = None \<and> op_fds s) \<and> (\<not> op_fds s \<longrightarrow> op_entry s = None) \<and>
     (\<forall>i j. tearing (op_pc s i) \<longrightarrow> tearing (op_pc s j) \<longrightarrow> i = j)"

lemma teardown_start: "teardown_ok (open_start bound)"
  by (simp add: teardown_ok_def open_start_def)

lemma teardown_step:
  assumes ok: "teardown_ok s" and step: "open_step a s = Some s'"
  shows "teardown_ok s'"
proof -
  have t: "op_entry s = None" "op_fds s" "\<And>j. tearing (op_pc s j) \<Longrightarrow> j = i" if "tearing (op_pc s i)" for i
    using ok that unfolding teardown_ok_def by blast+
  show ?thesis
  proof (cases a)
    case (ForgetHandle i)
    then obtain r where "op_pc s i = Forgetting r" using step by (auto split: open_pc.splits)
    then show ?thesis using step ForgetHandle t [of i] by (cases r) (auto simp: teardown_ok_def split: if_splits)
  next
    case (CloseFds i)
    then have "op_pc s i = Shutting" using step by (auto split: open_pc.splits)
    then show ?thesis using step CloseFds t [of i] by (auto simp: teardown_ok_def split: if_splits)
  qed (use ok step in \<open>auto simp: teardown_ok_def split: open_pc.splits option.splits sum.splits if_splits\<close>)
qed

lemma open_run_keeps:
  assumes "\<And>a s s'. P s \<Longrightarrow> open_step a s = Some s' \<Longrightarrow> P s'" and "P s" and "open_run as s = Some s'"
  shows "P s'"
  using assms(2,3) by (induction as arbitrary: s) (auto simp: bind_eq_Some_conv intro: assms(1))

text \<open>Once everything is torn down nothing removes an entry of the pump.\<close>

definition stale :: "u64 \<Rightarrow> open_race \<Rightarrow> bool" where
  "stale h s \<longleftrightarrow> op_entry s = None \<and> \<not> op_fds s \<and> (\<forall>i. \<not> tearing (op_pc s i)) \<and> op_pump s h"

lemma stale_step: "stale h s \<Longrightarrow> open_step a s = Some s' \<Longrightarrow> stale h s'"
proof (cases a)
  case (ForgetHandle i)
  moreover assume "stale h s" and "open_step a s = Some s'"
  moreover from \<open>stale h s\<close> have "\<not> tearing (op_pc s i)" by (simp add: stale_def)
  ultimately show ?thesis by (cases "op_pc s i") simp_all
qed (auto simp: stale_def split: open_pc.splits option.splits sum.splits if_splits)

section \<open>Properties\<close>

text \<open>
  C14 (one handle per datagram socket). Any number of threads may call \<^verbatim>\<open>bind\<close>, \<^verbatim>\<open>connect\<close>, \<^verbatim>\<open>sendto\<close> or \<^verbatim>\<open>recvfrom\<close> on
  one datagram descriptor for the first time, in any interleaving and with any answers of the engine, while nobody
  closes it. When they are done they have the same handle, the one of the descriptor; the datagram pump knows this
  handle and no other; and every other handle the engine gave out was given back, once.
\<close>

theorem one_handle:
  assumes "open_run as (open_start bound) = Some s" and "list_all (\<lambda>a. \<not> closes a) as"
    and "\<forall>i. op_pc s i = Enter \<or> (\<exists>r. op_pc s i = Returned r)"
  shows "\<exists>st. op_entry s = Some st \<and> (\<forall>i h. op_pc s i = Returned (Inr h) \<longrightarrow> st = Some h) \<and> (\<forall>h. op_pump s h \<longleftrightarrow> st = Some h) \<and>
    distinct (op_closed s) \<and> set (op_made s) = {h. st = Some h} \<union> set (op_closed s) \<and> st \<notin> Some ` set (op_closed s)"
proof -
  obtain st where st: "op_entry s = Some st" and ok: "handles_ok st (op_made s) (op_closed s) (op_pump s) (in_hand \<circ> op_pc s)
      (result_handle \<circ> op_pc s) (to_register \<circ> op_pc s)"
    using open_run_ok [OF start_ok assms(1,2)] unfolding open_race_ok_def by blast
  note d = handles_okD [OF ok]
  have none: "in_hand (op_pc s i) = None \<and> to_register (op_pc s i) = None" for i using assms(3) [rule_format, of i] by auto
  have "st = Some h" if "op_pc s i = Returned (Inr h)" for i h using d(1) [of i h] that by simp
  moreover have "op_pump s h \<longleftrightarrow> st = Some h" for h using d(5,6) [of h] none by auto
  moreover have "set (op_made s) = {h. st = Some h} \<union> set (op_closed s)" using d(2,3,7) none by auto
  moreover have "st \<notin> Some ` set (op_closed s)" using d(4) by auto
  ultimately show ?thesis using st d(8) by blast
qed

text \<open>Three threads; the first one loses to the second, the third finds the handle.\<close>

definition sample_race :: "open_act list" where
  "sample_race = [LookUp 0, LookUp 1, Answer 0 (Inr 7), Answer 1 (Inr 9), BindReply 1 None, StoreHandle 1, BindReply 0 None,
     StoreHandle 0, GiveBack 0, LookUp 2, AddEntry 1]"

theorem one_handle_witness:
  "\<exists>s. open_run sample_race (open_start True) = Some s \<and> op_entry s = Some (Some 9) \<and> op_pump s = (\<lambda>h. h = 9) \<and> set (op_made s) = {7, 9} \<and>
     op_closed s = [7]"
proof -
  let ?s = "the (open_run sample_race (open_start True))"
  have run: "open_run sample_race (open_start True) = Some ?s"
    by (simp add: sample_race_def open_start_def op_goto_def)
  have pcs: "\<forall>i. op_pc ?s i = Enter \<or> (\<exists>r. op_pc ?s i = Returned r)" and s: "op_entry ?s = Some (Some 9)" "op_closed ?s = [7]"
    by (simp_all add: sample_race_def open_start_def op_goto_def)
  have "\<exists>st. op_entry ?s = Some st \<and> (\<forall>i h. op_pc ?s i = Returned (Inr h) \<longrightarrow> st = Some h) \<and> (\<forall>h. op_pump ?s h \<longleftrightarrow> st = Some h) \<and>
    distinct (op_closed ?s) \<and> set (op_made ?s) = {h. st = Some h} \<union> set (op_closed ?s) \<and> st \<notin> Some ` set (op_closed ?s)"
    by (rule one_handle [OF run _ pcs]) (simp add: sample_race_def)
  then show ?thesis using run s by (intro exI [of _ ?s]) auto
qed

text \<open>
  C37 (registered too late). The handle is in the descriptor table before it is in the datagram pump. In any
  interleaving in which the descriptor is torn down while a thread is in between, that thread gets its handle as if
  nothing had happened, and the pump has an entry that no step of any thread ever removes, for descriptors that are
  closed: at the end of the connection a byte is written to whatever has that descriptor number then.
\<close>

theorem registered_too_late:
  assumes "open_run as (open_start bound) = Some s" and "op_pc s i = Registering h" and "\<not> op_fds s"
  shows "\<exists>s1. open_step (AddEntry i) s = Some s1 \<and> op_pc s1 i = Returned (Inr h) \<and>
    (\<forall>bs s2. open_run bs s1 = Some s2 \<longrightarrow> op_pump s2 h \<and> op_entry s2 = None \<and> \<not> op_fds s2)"
proof -
  have "teardown_ok s" by (rule open_run_keeps [where P = teardown_ok, OF teardown_step teardown_start assms(1)])
  then have "op_entry s = None" "\<not> tearing (op_pc s j)" for j using assms(3) by (auto simp: teardown_ok_def)
  then have "\<exists>s1. open_step (AddEntry i) s = Some s1 \<and> op_pc s1 i = Returned (Inr h) \<and> stale h s1"
    using assms(2,3) by (simp add: stale_def)
  then obtain s1 where s1: "open_step (AddEntry i) s = Some s1" "op_pc s1 i = Returned (Inr h)" "stale h s1" by blast
  moreover have "stale h s2" if "open_run bs s1 = Some s2" for bs s2
    by (rule open_run_keeps [where P = "stale h", OF stale_step s1(3) that])
  ultimately show ?thesis by (auto simp: stale_def)
qed

definition sample_late :: "open_act list" where
  "sample_late = [LookUp 0, Answer 0 (Inr 7), StoreHandle 0, CloseHandle 1, RemoveEntry 1, ForgetHandle 1, CloseFds 1]"

theorem registered_too_late_witness:
  "\<exists>s s1. open_run sample_late (open_start False) = Some s \<and> open_step (AddEntry 0) s = Some s1 \<and>
     (\<forall>bs s2. open_run bs s1 = Some s2 \<longrightarrow> op_pump s2 7)"
proof -
  have "\<exists>s. open_run sample_late (open_start False) = Some s \<and> op_pc s 0 = Registering 7 \<and> \<not> op_fds s"
    by (simp add: sample_late_def open_start_def op_goto_def)
  then obtain s where s: "open_run sample_late (open_start False) = Some s" "op_pc s 0 = Registering 7" "\<not> op_fds s" by blast
  from registered_too_late [OF s] s(1) show ?thesis by blast
qed
end
