(* ===== verification/Ipose_Session.thy ===== *)
theory Ipose_Session
  imports Ipose_Calls
begin

text \<open>
  From one application to another. An application writes to its AX.25 socket; the interposed calls and the
  client put frames on the connection to the engine; the engine relays the data to the node at
  the other end and from there, as pushes, to the engine's client in another process; its reader and its flusher
  put the bytes into the socketpair the other application reads. What the processes do is that of
  the other theories; the engine and the link are a parameter, of which it is relied on that
  the data are relayed in order.
\<close>

section \<open>Definitions\<close>

text \<open>The data that a frame on the connection to the engine has for a handle, as an engine reads it.\<close>

definition sent_data :: "'j json_api \<Rightarrow> u64 \<Rightarrow> byte list \<Rightarrow> byte list" where
  "sent_data api h p =
     (case frame_parse api p of
        Some f \<Rightarrow>
          if frame_typ api f = ascii ''send'' \<and> frame_handle api f = Some h
          then unwrap_or [] (map_option from_wire_string (frame_data_str api f)) else []
      | None \<Rightarrow> [])"

text \<open>What is relied on of the JSON library: a serialised \<^verbatim>\<open>SendReq\<close> of at most a chunk fits in a frame, and
  parsing gives its fields back.\<close>

definition carries :: "'j json_api \<Rightarrow> bool" where
  "carries api \<longleftrightarrow> (\<forall>h i c. length c \<le> MAX_SEND_CHUNK \<longrightarrow>
     (\<exists>body v. to_vec api (req_fields (SendReq (ascii ''send'') i h (to_wire_string c))) = Some body \<and> length body \<le> MAX_FRAME \<and>
        frame_parse api body = Some v \<and> frame_typ api v = ascii ''send'' \<and> frame_handle api v = Some h \<and>
        frame_data_str api v = Some (to_wire_string c)))"

text \<open>An application that writes one buffer after the other, as long as each is taken whole.\<close>

fun write_all_calls :: "'k libc \<Rightarrow> ('j, 'k) sys \<Rightarrow> int \<Rightarrow> byte list list \<Rightarrow> ('j, 'k) world \<Rightarrow> ('j, 'k) world option" where
  "write_all_calls lc sys fd [] w = Some w"
| "write_all_calls lc sys fd (b # bs) w =
     (case write_call_fd lc sys fd b w of (n, w1) \<Rightarrow> if n = int (length b) then write_all_calls lc sys fd bs w1 else None)"

text \<open>A process with a stream: the descriptor has the handle, the outbound pump knows it, \<open>q\<close> went past the
  interposed calls and waits in the socketpair; the client \<open>c\<close> is the only connection to the engine.\<close>

definition session :: "('k \<Rightarrow> int \<Rightarrow> byte list) \<Rightarrow> ('k \<Rightarrow> int \<Rightarrow> int option) \<Rightarrow> int \<Rightarrow> u64 \<Rightarrow> int \<Rightarrow> byte list \<Rightarrow>
    ('j, 'k shared) client \<Rightarrow> ('j, 'k) world \<Rightarrow> bool" where
  "session pipe pair fd h inner q c w \<longleftrightarrow>
     (\<exists>s. w_fds w fd = Some s \<and> \<not> fs_dgram s \<and> fs_handle s = Some h) \<and> w_client w = Some c \<and> w_dials w = [] \<and>
     sh_out (w_shared w) h = Some inner \<and> outgoing pipe pair fd inner q (w_shared w) \<and> tcp_room (rc_writer c) = None"

section \<open>Lemmas\<close>

lemma carries_serialises: "carries api \<Longrightarrow> serialises api"
  unfolding serialises_def
proof (intro allI impI)
  fix h i :: u64 and c :: "byte list"
  assume "carries api" "length c \<le> OUT_CHUNK"
  moreover from this have "length c \<le> MAX_SEND_CHUNK" by (simp add: OUT_CHUNK_def MAX_SEND_CHUNK_def)
  ultimately show "\<exists>body. to_vec api (req_fields (SendReq (ascii ''send'') i h (to_wire_string c))) = Some body \<and> length body \<le> MAX_FRAME"
    unfolding carries_def by blast
qed

text \<open>Frames of pieces, read by the engine, give the data of the pieces.\<close>

lemma sends_wire_carried:
  assumes "carries api" and "\<forall>c \<in> set cs. length c \<le> MAX_SEND_CHUNK" and "sends_wire api h i cs = Some ws"
  shows "\<exists>ps. ws = concat (map frame_bytes ps) \<and> list_all (\<lambda>p. length p \<le> MAX_FRAME) ps \<and>
    concat (map (sent_data api h) ps) = concat cs"
  using assms(2,3)
proof (induction cs arbitrary: i ws)
  case (Cons c cs)
  obtain body v where b: "to_vec api (req_fields (SendReq (ascii ''send'') i h (to_wire_string c))) = Some body"
    "length body \<le> MAX_FRAME" "frame_parse api body = Some v" "frame_typ api v = ascii ''send''" "frame_handle api v = Some h"
    "frame_data_str api v = Some (to_wire_string c)"
    using assms(1) Cons.prems(1) unfolding carries_def by (metis list.set_intros(1))
  then obtain ws' where "sends_wire api h (1 + i) cs = Some ws'" "ws = frame_bytes body @ ws'" using Cons.prems(2) by auto
  with Cons obtain ps where "ws' = concat (map frame_bytes ps)" "list_all (\<lambda>p. length p \<le> MAX_FRAME) ps"
    "concat (map (sent_data api h) ps) = concat cs" by (metis list.set_intros(2))
  moreover have "sent_data api h body = c" using b by (simp add: sent_data_def wire_decode)
  ultimately show ?case using \<open>ws = _\<close> b(2) by (intro exI [of _ "body # ps"]) simp
next
  case Nil
  then show ?case by (intro exI [of _ "[]"]) simp
qed

lemma send_chunks_room:
  assumes "carries api" and "\<forall>c \<in> set cs. length c \<le> MAX_SEND_CHUNK" and "tcp_room (rc_writer st) = None"
  shows "tcp_room (rc_writer (snd (send_chunks api snk h cs st))) = None"
  using assms(2,3)
proof (induction cs arbitrary: st)
  case (Cons c cs)
  let ?mk = "\<lambda>rid. SendReq (ascii ''send'') rid h (to_wire_string c)"
  obtain body where "to_vec api (req_fields (?mk (1 + rc_next_id st))) = Some body" "length body \<le> MAX_FRAME"
    using assms(1) Cons.prems(1) unfolding carries_def by (metis list.set_intros(1))
  from rhp_call_sent(1) [of api ?mk st body snk, OF this Cons.prems(2)]
  have "tcp_room (rc_writer (snd (rhp_call api snk ?mk st))) = None" using Cons.prems(2) by simp
  then show ?case using Cons by (auto simp: send_chunk_def ignore_reply_def split: sum.splits prod.splits)
qed simp

text \<open>The registration with the outbound pump stays, whatever the reader does.\<close>

lemma resolve_out: "sh_out s h = Some inner \<Longrightarrow> sh_out (resolve_connect_gate ops g s) h = Some inner"
  by (auto simp: resolve_connect_gate_def out_register_def Let_def split: option.splits prod.splits)

lemma fold_resolve_out: "sh_out s h = Some inner \<Longrightarrow> sh_out (fold (resolve_connect_gate ops) gs s) h = Some inner"
  by (induction gs arbitrary: s) (simp_all add: resolve_out)

interpretation registered: sink_inv "InterposeSink ops keys" "\<lambda>s. sh_out s h = Some inner" for ops keys h inner
  by unfold_locales (simp_all add: InterposeSink_def resolve_out fold_resolve_out Let_def prod.case_eq_if)

lemma send_out:
  "sh_out (rc_sink st) g = Some x \<Longrightarrow> sh_out (rc_sink (snd (rhp_send api (y_sink sys) h d st))) g = Some x"
  using registered.reader.operations_inv(1) [of g x st api "y_ops sys" "y_keys sys" h d]
  by (simp add: y_sink_def registered.reader.holds_def)

lemma drain_locked_keeps:
  "w_fds (snd (drain_locked sys n h inner c w)) = w_fds w" "w_dials (snd (drain_locked sys n h inner c w)) = w_dials w"
  "sh_out (w_shared w) g = Some x \<Longrightarrow> sh_out (w_shared (snd (drain_locked sys n h inner c w))) g = Some x"
proof (induction n arbitrary: c w)
  case (Suc n)
  { case 1 show ?case using Suc(1) by (simp add: prod.case_eq_if Let_def on_client_def map_shared_def) }
  { case 2 show ?case using Suc(2) by (simp add: prod.case_eq_if Let_def on_client_def map_shared_def) }
  { case 3
    have "sh_out (rc_sink (snd (rhp_send (y_api sys) (y_sink sys) h d (c\<lparr>rc_sink := (w_shared w)\<lparr>sh_kernel := k\<rparr>\<rparr>)))) g = Some x" for d k
      by (rule send_out) (use 3 in simp)
    then show ?case using Suc(3) 3 by (simp add: prod.case_eq_if Let_def on_client_def map_shared_def) }
qed simp_all

text \<open>A write that succeeds puts what went past the calls and then its own data on the wire, and the session goes on.\<close>

lemma send_ordered_session:
  assumes "socket_kernel (y_ops sys) wrote shut pipe pair room" and "carries (y_api sys)" and "length q \<le> k_fuel (y_ops sys)"
    and "session pipe pair fd h inner q c w" and "b \<noteq> []" and "send_ordered sys h b c w = (Inr (), c', w')"
  shows "session pipe pair fd h inner [] c' w' \<and>
    (\<exists>ps. tcp_sent (rc_writer c') = tcp_sent (rc_writer c) @ concat (map frame_bytes ps) \<and>
       list_all (\<lambda>p. length p \<le> MAX_FRAME) ps \<and> concat (map (sent_data (y_api sys) h) ps) = q @ b)"
proof -
  obtain c1 w1 where d: "drain_locked sys (k_fuel (y_ops sys)) h inner c w = (c1, w1)"
    by (cases "drain_locked sys (k_fuel (y_ops sys)) h inner c w")
  have ses: "sh_out (w_shared w) h = Some inner" "outgoing pipe pair fd inner q (w_shared w)" "tcp_room (rc_writer c) = None"
    using assms(4) by (auto simp: session_def)
  obtain ws where ws: "sends_wire (y_api sys) h (1 + rc_next_id c) (chunks OUT_CHUNK q) = Some ws"
    "tcp_sent (rc_writer c1) = tcp_sent (rc_writer c) @ ws" "outgoing pipe pair fd inner [] (w_shared w1)" "tcp_room (rc_writer c1) = None"
    using socket_kernel.drain_sent [OF assms(1) ses(2) assms(3) refl ses(3) carries_serialises [OF assms(2)] d] by blast
  let ?st = "c1\<lparr>rc_sink := w_shared w1\<rparr>"
  let ?r = "rhp_send (y_api sys) (y_sink sys) h b ?st"
  have r: "?r = (Inr (), c')" and w': "w' = w1\<lparr>w_client := Some c', w_shared := rc_sink c'\<rparr>"
    using assms(6) ses(1) d by (auto simp: send_ordered_def out_flush_def on_client_def split: prod.splits sum.splits)
  have sc: "send_chunks (y_api sys) (y_sink sys) h (chunks MAX_SEND_CHUNK b) ?st = (Inr (), c')"
    using r assms(5) by (simp add: rhp_send_def)
  obtain ws' where ws': "sends_wire (y_api sys) h (1 + rc_next_id c1) (chunks MAX_SEND_CHUNK b) = Some ws'"
    "tcp_sent (rc_writer c') = tcp_sent (rc_writer c1) @ ws'" using send_chunks_wire [OF sc] by auto
  have out_le: "OUT_CHUNK \<le> MAX_SEND_CHUNK" by (simp add: OUT_CHUNK_def MAX_SEND_CHUNK_def)
  have small: "\<forall>d \<in> set (chunks OUT_CHUNK q). length d \<le> MAX_SEND_CHUNK" "\<forall>d \<in> set (chunks MAX_SEND_CHUNK b). length d \<le> MAX_SEND_CHUNK"
    using out_le by (meson chunks_bound le_trans)+
  obtain ps ps' where "ws = concat (map frame_bytes ps)" "list_all (\<lambda>p. length p \<le> MAX_FRAME) ps"
    "concat (map (sent_data (y_api sys) h) ps) = q" "ws' = concat (map frame_bytes ps')"
    "list_all (\<lambda>p. length p \<le> MAX_FRAME) ps'" "concat (map (sent_data (y_api sys) h) ps') = b"
    using sends_wire_carried [OF assms(2) small(1) ws(1)] sends_wire_carried [OF assms(2) small(2) ws'(1)]
    by (auto simp: chunks_concat OUT_CHUNK_def MAX_SEND_CHUNK_def)
  moreover have "tcp_room (rc_writer c') = None" using send_chunks_room [OF assms(2) small(2), of ?st "y_sink sys" h] sc ws(4) by simp
  moreover have "outgoing pipe pair fd inner [] (rc_sink c')"
    using socket_kernel.send_outgoing [OF assms(1) _ refl, of fd inner "[]" ?st h b] ws(3) r by simp
  moreover have "sh_out (rc_sink c') h = Some inner" 
    using send_out [of ?st h inner "y_api sys" sys h b] drain_locked_keeps(3) [OF ses(1), of sys "k_fuel (y_ops sys)" h inner c] d r by simp
  moreover have "w_fds w1 = w_fds w" "w_dials w1 = w_dials w"
    using drain_locked_keeps(1,2) [of sys "k_fuel (y_ops sys)" h inner c w] d by simp_all
  ultimately show ?thesis using assms(4) ws(2) ws'(2) w' by (auto simp: session_def intro!: exI [of _ "ps @ ps'"])
qed

lemma write_session:
  assumes "session pipe pair fd h inner q c w" and "write_call_fd lc sys fd b w = (int (length b), w')"
  shows "\<exists>c'. send_ordered sys h b c w = (Inr (), c', w')"
proof -
  obtain s where s: "w_fds w fd = Some s" "\<not> fs_dgram s" "fs_handle s = Some h" "w_client w = Some c" "w_dials w = []"
    using assms(1) by (auto simp: session_def)
  have "ax25_send sys fd b w = (int (length b), w')"
    using assms(2) s by (simp add: write_call_fd_def is_dgram_fd_def is_ax25_fd_def std_defs)
  moreover have "\<not> rc_closed c"
    using calculation s by (auto simp: ax25_send_def fd_field_def and_then_def ensure_client_def dial_client_def fail_def)
  ultimately show ?thesis using s
    by (cases "send_ordered sys h b c w") (auto simp: ax25_send_def fd_field_def and_then_def ensure_client_def fail_def split: sum.splits)
qed

lemma write_all_session:
  assumes "socket_kernel (y_ops sys) wrote shut pipe pair room" and "carries (y_api sys)" and "length q \<le> k_fuel (y_ops sys)"
    and "session pipe pair fd h inner q c w" and "bufs \<noteq> []" and "[] \<notin> set bufs" and "write_all_calls lc sys fd bufs w = Some w'"
  shows "\<exists>c' ps. w_client w' = Some c' \<and> tcp_sent (rc_writer c') = tcp_sent (rc_writer c) @ concat (map frame_bytes ps) \<and>
    list_all (\<lambda>p. length p \<le> MAX_FRAME) ps \<and> concat (map (sent_data (y_api sys) h) ps) = q @ concat bufs"
  using assms(3-)
proof (induction bufs arbitrary: q c w)
  case (Cons b bufs)
  obtain w1 where w1: "write_call_fd lc sys fd b w = (int (length b), w1)" "write_all_calls lc sys fd bufs w1 = Some w'"
    using Cons.prems(5) by (auto split: prod.splits if_splits)
  obtain c1 where "send_ordered sys h b c w = (Inr (), c1, w1)" using write_session [OF Cons.prems(2) w1(1)] by blast
  then obtain ps where ps: "session pipe pair fd h inner [] c1 w1"
    "tcp_sent (rc_writer c1) = tcp_sent (rc_writer c) @ concat (map frame_bytes ps)"
    "list_all (\<lambda>p. length p \<le> MAX_FRAME) ps" "concat (map (sent_data (y_api sys) h) ps) = q @ b"
    using send_ordered_session [OF assms(1,2) Cons.prems(1,2), of b c1 w1] Cons.prems(4) by auto
  show ?case
  proof (cases "bufs = []")
    case True
    then show ?thesis using ps w1(2) by (auto simp: session_def)
  next
    case False
    obtain c' ps' where "w_client w' = Some c'" "tcp_sent (rc_writer c') = tcp_sent (rc_writer c1) @ concat (map frame_bytes ps')"
      "list_all (\<lambda>p. length p \<le> MAX_FRAME) ps'" "concat (map (sent_data (y_api sys) h) ps') = concat bufs"
      using Cons.IH [OF _ ps(1) False _ w1(2)] Cons.prems(4) by auto
    then show ?thesis using ps by (intro exI [of _ c'] exI [of _ "ps @ ps'"]) simp
  qed
qed simp

text \<open>A prefix of the pushes gives a prefix of the data.\<close>

lemma concat_take_prefix: "\<exists>m. concat (map f (take k ps)) = take m (concat (map f ps))"
  by (rule exI [of _ "length (concat (map f (take k ps)))"])
    (metis append_eq_conv_conj append_take_drop_id concat_append map_append)

section \<open>Properties\<close>

text \<open>
  C1 (from one application to the other). An application writes buffers to a connected AX.25 socket, after output
  that went past the interposed calls, and every write is taken. A link relays data in order from the frames the
  first process sent to the pushes a second process receives. Then, however the reader and the flusher
  of the second process take turns, what its socketpair was given and what is kept for it is a prefix of
  the bypassed output followed by the buffers, byte for byte; and it is all of it when everything was relayed and
  the reader has handled every push.
\<close>

theorem session_delivers:
  assumes "socket_kernel (y_ops sysA) wroteA shutA pipeA pairA roomA" and "carries (y_api sysA)"
    and "session pipeA pairA fd hA innerA q cA wA" and "length q \<le> k_fuel (y_ops sysA)"
    and "bufs \<noteq> []" and "[] \<notin> set bufs" and "write_all_calls lc sysA fd bufs wA = Some wA'"
    and "w_client wA' = Some cA'" and "tcp_sent (rc_writer cA') = tcp_sent (rc_writer cA) @ wire"
    and "concat (map (stream_data (y_api sysB) hB) ps) =
      take n (concat (map (sent_data (y_api sysA) hA) (fst (read_frames \<lparr>in_bytes = wire, in_end = None\<rparr>))))"
    and "socket_kernel (y_ops sysB) wroteB shutB pipeB pairB roomB" and "shared_ok shutB (w_shared wB)"
    and "w_client wB = Some cB" and "feeds cB ps e" and "list_all (\<lambda>p. length p \<le> MAX_FRAME) ps"
    and "\<forall>p \<in> set ps. \<forall>f. frame_parse (y_api sysB) p = Some f \<and> frame_typ (y_api sysB) f = ascii ''recv'' \<longrightarrow> frame_id (y_api sysB) f = None"
    and "sh_stream wroteB (w_shared wB) hB = []"
    and "wB' = fold (world_turn sysB) ts wB" and "ps_handles (sh_pump (w_shared wB')) hB = Some x"
  shows "\<exists>m. wroteB (sh_kernel (w_shared wB')) (pr_inner_fd x) @ pr_buf x = take m (q @ concat bufs) \<and>
    (length ps \<le> count_list ts ReaderTurn \<longrightarrow> m = n)"
proof -
  obtain c' fs where fs: "w_client wA' = Some c'" "tcp_sent (rc_writer c') = tcp_sent (rc_writer cA) @ concat (map frame_bytes fs)"
    "list_all (\<lambda>p. length p \<le> MAX_FRAME) fs" "concat (map (sent_data (y_api sysA) hA) fs) = q @ concat bufs"
    using write_all_session [OF assms(1,2,4,3,5,6,7)] by blast
  define data where "data = q @ concat bufs"
  have "concat (map (stream_data (y_api sysB) hB) ps) = take n data"
    using fs assms(8,9,10) read_frames_all [OF fs(3)] by (simp add: data_def)
  moreover obtain m where "concat (map (stream_data (y_api sysB) hB) (take (count_list ts ReaderTurn) ps)) =
      take m (concat (map (stream_data (y_api sysB) hB) ps))" using concat_take_prefix by blast
  moreover have "wroteB (sh_kernel (w_shared wB')) (pr_inner_fd x) @ pr_buf x =
      concat (map (stream_data (y_api sysB) hB) (take (count_list ts ReaderTurn) ps))"
    using socket_kernel.turns_stream [OF assms(11,12,13,14,15,16,18,19) refl] assms(17) by simp
  ultimately show ?thesis unfolding data_def [symmetric]
    by (cases "length ps \<le> count_list ts ReaderTurn") auto
qed

subsection \<open>A session\<close>

text \<open>A serialisation that carries: 64 bytes for the bits of the handle, then the data; shorter bodies are
  those of the sample engine.\<close>

definition bits_of :: "u64 \<Rightarrow> byte list" where
  "bits_of h = map (\<lambda>n. if bit h n then 1 else 0) [0..<64]"

definition of_bits :: "byte list \<Rightarrow> u64" where
  "of_bits bs = horner_sum of_bool 2 (map (\<lambda>b. b = 1) bs)"

definition relay_api :: "json json_api" where
  "relay_api = ipose_api
     \<lparr>to_vec := (\<lambda>fs. case (map_of fs ''handle'', map_of fs ''data'') of
          (Some (FNum h), Some (FStr d)) \<Rightarrow> Some (bits_of h @ d) | _ \<Rightarrow> None),
      from_slice := (\<lambda>p. if 64 \<le> length p
          then Some (JObj [(''type'', JStr (ascii ''send'')), (''handle'', JInt (uint (of_bits (take 64 p)))), (''data'', JStr (drop 64 p))])
          else from_slice ipose_api p)\<rparr>"

definition relay_sys :: "(json, unix) sys" where
  "relay_sys = (sample_sys 9)\<lparr>y_api := relay_api\<rparr>"

lemma bits_round_trip: "of_bits (bits_of h) = h"
proof -
  have "map (\<lambda>b. b = 1) (bits_of h) = map (bit h) [0..<64]" by (simp add: bits_of_def comp_def)
  then show ?thesis by (simp add: of_bits_def horner_sum_bit_eq_take_bit take_bit_word_eq_self)
qed

lemma length_wire: "length (to_wire_string c) \<le> 2 * length c"
  by (induction c) (simp_all add: to_wire_string_def latin1_char_def)

lemma relay_carries: "carries relay_api"
  unfolding carries_def
proof (intro allI impI)
  fix h i :: u64 and c :: "byte list"
  assume c: "length c \<le> MAX_SEND_CHUNK"
  let ?body = "bits_of h @ to_wire_string c"
  have l: "length (bits_of h) = 64" by (simp add: bits_of_def)
  have "length ?body \<le> MAX_FRAME" using c length_wire [of c] l by (simp add: MAX_SEND_CHUNK_def MAX_FRAME_def)
  moreover have "to_vec relay_api (req_fields (SendReq (ascii ''send'') i h (to_wire_string c))) = Some ?body"
    by (simp add: relay_api_def)
  moreover have "frame_parse relay_api ?body =
      Some (JObj [(''type'', JStr (ascii ''send'')), (''handle'', JInt (uint h)), (''data'', JStr (to_wire_string c))])"
    using l by (simp add: frame_parse_def relay_api_def bits_round_trip)
  ultimately show "\<exists>body v. to_vec relay_api (req_fields (SendReq (ascii ''send'') i h (to_wire_string c))) = Some body \<and>
      length body \<le> MAX_FRAME \<and> frame_parse relay_api body = Some v \<and> frame_typ relay_api v = ascii ''send'' \<and>
      frame_handle relay_api v = Some h \<and> frame_data_str relay_api v = Some (to_wire_string c)"
    by (simp add: frame_defs relay_api_def ipose_api_def table_json_def)
qed

lemma sample_session:
  "session ux_pipe ux_pair 100 42 101 [] (sample_conn ps sched (sample_shared 9)) (sample_world 9 ps sched)"
  by (auto simp: session_def sample_world_def empty_world_def sample_conn_def new_client_def sample_shared_def empty_shared_def
      outgoing_def undisturbed_def pump_register_def new_pump_def ux_socketpair_def empty_unix_def Let_def ux_pair_def ux_pipe_def
      new_fd_state_def)

lemma sample_writes:
  "case write_all_calls zero_libc relay_sys 100 [[0x41], [0xFF]] (sample_world 9 [[1], [6]] [1, 1]) of
     None \<Rightarrow> False
   | Some w \<Rightarrow> (case w_client w of None \<Rightarrow> False | Some c \<Rightarrow>
       concat (map (sent_data relay_api 42) (fst (read_frames \<lparr>in_bytes = tcp_sent (rc_writer c), in_end = None\<rparr>))) = [0x41, 0xFF])"
  by code_simp

theorem session_delivers_witness:
  "\<exists>w x. write_all_calls zero_libc relay_sys 100 [[0x41], [0xFF]] (sample_world 9 [[1], [6]] [1, 1]) = Some w \<and>
     ps_handles (sh_pump (w_shared (fold (world_turn (sample_sys 9)) [ReaderTurn, FlusherTurn] (sample_world 3 [[2]] [])))) 42 = Some x \<and>
     ux_wrote (sh_kernel (w_shared (fold (world_turn (sample_sys 9)) [ReaderTurn, FlusherTurn] (sample_world 3 [[2]] [])))) (pr_inner_fd x) @
       pr_buf x = [0x41, 0xFF]"
proof -
  let ?wB = "sample_world 3 [[2]] []"
  let ?wB' = "fold (world_turn (sample_sys 9)) [ReaderTurn, FlusherTurn] ?wB"
  obtain w c where w: "write_all_calls zero_libc relay_sys 100 [[0x41], [0xFF]] (sample_world 9 [[1], [6]] [1, 1]) = Some w"
    and c: "w_client w = Some c" and wire: "concat (map (sent_data relay_api 42)
      (fst (read_frames \<lparr>in_bytes = tcp_sent (rc_writer c), in_end = None\<rparr>))) = [0x41, 0xFF]"
    using sample_writes by (auto split: option.splits)
  have "ps_handles (sh_pump (w_shared ?wB')) 42 \<noteq> None" by code_simp
  then obtain x where x: "ps_handles (sh_pump (w_shared ?wB')) 42 = Some x" by blast
  have skB: "socket_kernel (y_ops (sample_sys 9)) ux_wrote ux_shut ux_pipe ux_pair ux_room"
    using unix_socket.socket_kernel_axioms [of 9] by (simp add: sample_sys_def)
  have skA: "socket_kernel (y_ops relay_sys) ux_wrote ux_shut ux_pipe ux_pair ux_room" using skB by (simp add: relay_sys_def)
  have relay: "concat (map (stream_data (y_api (sample_sys 9)) 42) [[2]]) =
      take 2 (concat (map (sent_data (y_api relay_sys) 42) (fst (read_frames \<lparr>in_bytes = tcp_sent (rc_writer c), in_end = None\<rparr>))))"
    using wire by (simp add: relay_sys_def) code_simp
  have push: "\<forall>p \<in> set [[2]]. \<forall>f. frame_parse (y_api (sample_sys 9)) p = Some f \<and> frame_typ (y_api (sample_sys 9)) f = ascii ''recv'' \<longrightarrow>
      frame_id (y_api (sample_sys 9)) f = None"
    by (simp add: sample_sys_def ipose_api_def table_json_def frame_defs)
  have "shared_ok ux_shut (w_shared ?wB)" using sample_shared_ok by (simp add: sample_world_def)
  moreover have "sh_stream ux_wrote (w_shared ?wB) 42 = []"
    by (simp add: sh_stream_def recv_stream_def sample_world_def sample_shared_def empty_shared_def pump_register_def new_pump_def
        ux_socketpair_def Let_def empty_unix_def)
  moreover have "carries (y_api relay_sys)" using relay_carries by (simp add: relay_sys_def)
  moreover have "feeds (sample_conn [[2]] [] (sample_shared 3)) [[2]] None" "w_client ?wB = Some (sample_conn [[2]] [] (sample_shared 3))"
    by (simp_all add: feeds_def sample_conn_def new_client_def sample_world_def)
  moreover have "tcp_sent (rc_writer c) = tcp_sent (rc_writer (sample_conn [[1], [6]] [1, 1] (sample_shared 9))) @ tcp_sent (rc_writer c)"
    by (simp add: sample_conn_def new_client_def)
  ultimately have "\<exists>m. ux_wrote (sh_kernel (w_shared ?wB')) (pr_inner_fd x) @ pr_buf x = take m ([] @ concat [[0x41], [0xFF]]) \<and>
      (length [[2 :: byte]] \<le> count_list [ReaderTurn, FlusherTurn] ReaderTurn \<longrightarrow> m = 2)"
    by (intro session_delivers [OF skA _ sample_session _ _ _ w c _ relay skB _ _ _ _ push _ refl x]) (simp_all add: MAX_FRAME_def)
  then show ?thesis using w x by auto
qed

end
