(* ===== verification/Spec2Isabelle.thy ===== *)
theory Spec2Isabelle
  imports Ax25_Addr Ax25_Config Ax25_Stubs Ipose_Calls Rhp_Wakeup Ipose_Wakeup Ipose_Bounds Ipose_Serial Ipose_Gate Ipose_Real Ipose_Locks Ipose_Open Ipose_Session
begin

text \<open>
  \<^bold>\<open>Verification of pdn-libax25\<close>

  The repository lets unmodified Linux programs that were written for the kernel's AF_AX25 sockets
  run on a packet node that speaks RHPv2, a JSON protocol over TCP. It has three crates.
  \<^verbatim>\<open>crates/libax25\<close> is a replacement of the C library of the same name: callsign and address
  conversion and the axports and calls files. \<^verbatim>\<open>crates/rhpv2\<close> is the client of the protocol: codec,
  framing, messages, and a client that multiplexes requests and pushes over one connection with a
  reader thread. \<^verbatim>\<open>crates/ax25-interpose\<close> is a preloaded library: its \<^verbatim>\<open>socket\<close>, \<^verbatim>\<open>connect\<close>,
  \<^verbatim>\<open>accept\<close>, \<^verbatim>\<open>recvfrom\<close> and so on take calls on AX.25 descriptors to the client and pass the others
  through. An AX.25 descriptor is one end of a socketpair; pumps move data between its other end
  and the client.

  \<^bold>\<open>Theories\<close>

  \<^item> \<open>Prelude\<close>: bytes, strings, the parts of Rust's standard library the sources use, and the
    lemma collections shared below.
  \<^item> \<open>Ax25_Addr\<close> (\<^verbatim>\<open>libax25/src/addr.rs\<close>): \<open>encode_entry\<close>, \<open>decode_entry\<close>, comparison, validation,
    \<open>fill_sax\<close> and the C wrappers. Shown: the encoder meets a specification without loops and machine words,
    in which the SSID is a decimal number reduced to 32 bits; round trips,
    exactly when it panics, how a path fills \<^verbatim>\<open>full_sockaddr_ax25\<close>. The interface of a callsign
    codec is the locale \<open>callsign_codec\<close>, interpreted here and in \<open>Ipose_Addr\<close>.
  \<^item> \<open>Ax25_Config\<close> (\<^verbatim>\<open>libax25/src/config.rs\<close>): the parsers of both files, the tables that are loaded
    once, and every query. File contents, environment and user id are arguments. Shown: what the
    tables hold, and exactly when the loop over the ports visits each of them once and ends.
  \<^item> \<open>Ax25_Stubs\<close> (\<^verbatim>\<open>libax25/src/stubs.rs\<close>): Rose addresses and the entry points that do nothing.
  \<^item> \<open>Rhp_Codec\<close> (\<^verbatim>\<open>rhpv2/src/codec.rs\<close>, \<^verbatim>\<open>framing.rs\<close>, \<^verbatim>\<open>errors.rs\<close>): wire strings, frames over any
    writer, error codes. Shown: round trips, also when the stream is cut anywhere.
  \<^item> \<open>Rhp_Messages\<close> (\<^verbatim>\<open>rhpv2/src/messages.rs\<close>): requests as lists of fields and the accessors of a
    frame. The JSON library is the record \<open>json_api\<close>, a parameter.
  \<^item> \<open>Rhp_Client\<close> (\<^verbatim>\<open>rhpv2/src/client.rs\<close>): \<open>client\<close> is the state of \<^verbatim>\<open>RhpClient\<close> and its threads,
    \<open>reader_step\<close> an iteration of the reader, \<open>client_step\<close> the interleaving of all threads. Shown:
    replies reach the request that made them, the reader ends and then nothing blocks, data and
    children come in order, what goes on the wire, failures have an errno. The locales
    \<open>recv_sink\<close>, \<open>reader_inv\<close> and \<open>sink_inv\<close> state what a client relies on of its event sink
    and lift a property of the callbacks to every operation.
  \<^item> \<open>Ipose_Addr\<close> (\<^verbatim>\<open>ax25-interpose/src/addr.rs\<close>): the second codec and the accesses to the
    application's \<^verbatim>\<open>sockaddr\<close> buffers.
  \<^item> \<open>Ipose_Recv\<close>, \<open>Ipose_Dgram\<close>, \<open>Ipose_State\<close> (\<^verbatim>\<open>ax25-interpose/src/state.rs\<close>): the receive pump,
    the datagram pump, and the connect gates, outbound pump, event sink, shared client and
    descriptor table. Shown: no received byte is lost or reordered, from the frames of the engine
    to the socketpair; datagram sockets refine a bounded queue and their readiness byte is there
    exactly when it should be; a gate closes and opens; bypassed output precedes later writes.
  \<^item> \<open>Ipose_Calls\<close> (\<^verbatim>\<open>ax25-interpose/src/lib.rs\<close>): the eighteen interposed calls. \<open>proc_step\<close> is the
    step relation of a process: a call of the application or a turn of a background thread.
    Shown: an invariant of all runs, the outcomes of \<^verbatim>\<open>connect\<close> and \<^verbatim>\<open>accept\<close>, options and datagrams
    both ways, what is left of a socket after \<^verbatim>\<open>close\<close>, and that a reader left behind by a failed
    authentication ends the sessions of later connections.

  \<^item> \<open>Monitor\<close>, \<open>Rhp_Wakeup\<close>, \<open>Ipose_Wakeup\<close>: mutexes and condition variables, step by step. \<open>Monitor\<close> has
    the steps of waiting and notifying threads and, in the locale \<open>monitor_calls\<close>, that no wakeup
    is lost when every operation that can end a wait notifies, and a store to a flag outside the
    lock is followed by a visit to the lock. The four condition variables of the sources are
    interpretations: connects, accepts, the flusher and the outbound thread. Shown: all are
    woken when they should be, except an accept when the transport drops.

  \<^item> \<open>Ipose_Bounds\<close>: a property of the two receiving pumps that their operations keep is kept by every
    step of a process (locales \<open>pumps_inv\<close>, \<open>process_inv\<close>); the instance is the bound on memory.
  \<^item> \<open>Ipose_Serial\<close>, \<open>Ipose_Gate\<close>: two protocols between threads, one access to shared state per step.
    The outbound pump's serialiser makes one ordered log of the writes of all threads, as long as the
    handle is registered, and reads a descriptor that was given out again when it is closed meanwhile; the
    gate of a non-blocking connect that is in the registry is opened in every interleaving of \<^verbatim>\<open>connect\<close> with the reader.
  \<^item> \<open>Lock_Order\<close>, \<open>Ipose_Locks\<close>: which mutexes every operation takes, in which order, and where it waits, for any
    number of threads. \<open>Lock_Order\<close> has the language of such programs, its steps and a check of the order
    with its soundness (locale \<open>lock_order\<close>); \<open>Ipose_Locks\<close> has the programs of the client, the background
    threads and the calls. Shown: no deadlock, and that the reader and the flusher are never kept waiting
    by a thread that waits for the engine; except when a datagram descriptor is closed under a call that
    opens its handle, which freezes the process. The client's own TCP input and output goes through the
    interposed functions, and so through the lock of the descriptor table.
  \<^item> \<open>Ipose_Open\<close>: threads that open the handle of one datagram descriptor, and threads that close it, step by step.
    Shown: one handle wins and no other is left open; what goes wrong because it is registered after it is stored.
  \<^item> \<open>Ipose_Session\<close>: two processes and a link between their engines that relays in order. Shown: what one
    application writes, bypassed output included, is what the other's socketpair is given.
  \<^item> \<open>Ipose_Real\<close> (\<^verbatim>\<open>ax25-interpose/src/real.rs\<close>): the symbol caches, raced by any number of threads. Shown: every
    call gets the function of its own name in the C library.

  \<^bold>\<open>State and operations\<close>

  A struct is a record with the source's fields, an enum a datatype, a \<^verbatim>\<open>HashMap\<close> a partial map; where
  the order of iteration matters it is an argument. Integers that the code keeps at a width are
  words, C ints are \<open>int\<close>. An operation is a function from the state to its result and the new state;
  errors are values (\<open>Inl\<close>), a panic is the outcome \<open>Panic\<close>. The statics of the preloaded library
  are the record \<open>world\<close>; what its event sink reaches is \<open>shared\<close>, which is the sink state of the
  client while an operation of the client runs.

  The kernel is the record \<open>kernel\<close>, the other libc functions the record \<open>libc\<close>: parameters. What is
  relied on of the kernel are the locales \<open>stream_kernel\<close>, \<open>signal_kernel\<close> and \<open>socket_kernel\<close>, each
  extending the one before, with the laws of a connected socketpair (a send may use up more room than the bytes it takes); \<open>unix_kernel\<close>, socketpairs
  with bounded buffers, is an instance of all three and serves the witnesses.

  \<^bold>\<open>Threads, bounds and fuel\<close>

  A step under a lock is atomic. A thread that waits lets the reader run: the schedule \<open>rc_sched\<close> says
  how many iterations the reader makes during each wait; theorems hold for every schedule. A wait
  without a timeout that is not over by then has the result \<open>None\<close>. That a waiting thread sees
  what the reader did is an idealisation of the condition variables in these theories; the
  wakeup theories show where it is right and where it is not. The loops that fill and drain a
  socketpair run until the kernel says stop; \<open>k_fuel\<close> bounds them, and the theorems about them ask
  that it is at least what the buffer holds, since every iteration moves a byte or ends the loop.

  \<^bold>\<open>Not modelled\<close>

  \<^verbatim>\<open>dlsym\<close> and the functions it finds are parameters. The
  waiting of the background threads in \<^verbatim>\<open>poll\<close>, the wall-clock length of timeouts, \<^verbatim>\<open>Display\<close> and
  \<^verbatim>\<open>Error\<close> implementations, a timed wait that the engine prolongs for ever by notifying it, the build script, packaging, samples and tests are left out. Two
  application threads inside the interposed calls at the same time are interleaved in the client, in
  the writes, in the connect gate and where a datagram handle is opened, and their locks in every call; their data
  otherwise not.
\<close>

end
